(* ===== verification/Njs_Prelude.thy ===== *)
theory Njs_Prelude
  imports Main "HOL-Library.Word" "HOL-Library.Signed_Division"
begin

text \<open>
  Shared vocabulary of the development: machine integers and byte strings, the
  translation of bit-level expressions of the C code to arithmetic on
  \<^typ>\<open>nat\<close>, the \<open>memcpy\<close> idiom on fixed buffers, and the exceptions.
\<close>

unbundle bit_operations_syntax

type_synonym u8 = "8 word"
type_synonym u16 = "16 word"
type_synonym u32 = "32 word"
type_synonym u64 = "64 word"
type_synonym bytes = "u8 list"

named_theorems unat_bits "value, as a natural number, of shift, mask and or expressions"

section \<open>Bit expressions as arithmetic\<close>

lemma nat_or_shift: "x < 2 ^ n \<Longrightarrow> y * 2 ^ n OR x = y * 2 ^ n + x" for x y :: nat
proof -
  assume x: "x < 2 ^ n"
  have "push_bit n y AND x = push_bit n y AND take_bit n x"
    using x by (simp add: take_bit_nat_eq_self)
  also have "\<dots> = 0"
    by (rule bit_eqI) (auto simp: bit_simps)
  finally have "push_bit n y + x = push_bit n y OR x"
    by (rule disjunctive_add_eq_or)
  then show ?thesis
    by (simp add: push_bit_eq_mult)
qed

lemma unat_or_shift [unat_bits]:
  "unat a = y * 2 ^ n \<Longrightarrow> unat b < 2 ^ n \<Longrightarrow> unat (a OR b) = unat a + unat b"
  for a b :: "'a::len word"
  by (simp add: unsigned_or_eq nat_or_shift)

lemma unat_or_shift':
  "unat a = y * 2 ^ n \<Longrightarrow> unat b < 2 ^ n \<Longrightarrow> unat (b OR a) = unat b + unat a"
  for a b :: "'a::len word"
  using unat_or_shift [of a y n b] by (simp add: or.commute add.commute)

lemma unat_and_mask: "unat (a AND mask n) = unat a mod 2 ^ n"
  for a :: "'a::len word"
  by (simp add: unsigned_take_bit_eq flip: take_bit_eq_mask take_bit_eq_mod)

lemma unat_and_low [unat_bits]:
  "unat (a AND 0x07) = unat a mod 8"
  "unat (a AND 0x0F) = unat a mod 16"
  "unat (a AND 0x1F) = unat a mod 32"
  "unat (a AND 0x3F) = unat a mod 64"
  "unat (a AND 0x7F) = unat a mod 128"
  "unat (a AND 0xFF) = unat a mod 256"
  for a :: "'a::len word"
  using unat_and_mask [of a 3] unat_and_mask [of a 4] unat_and_mask [of a 5]
    unat_and_mask [of a 6] unat_and_mask [of a 7] unat_and_mask [of a 8]
  by (simp_all add: mask_eq_exp_minus_1)

lemma unat_shr [unat_bits]: "unat (drop_bit n a) = unat a div 2 ^ n" for a :: "'a::len word"
  by (simp add: unat_drop_bit_eq flip: drop_bit_eq_div)

lemma unat_shl [unat_bits]:
  "unat a * 2 ^ n < 2 ^ LENGTH('a) \<Longrightarrow> unat (push_bit n a) = unat a * 2 ^ n"
  for a :: "'a::len word"
  by (simp add: unsigned_push_bit_eq take_bit_nat_eq_self flip: push_bit_eq_mult)

lemma unat_ucast_u8 [unat_bits]: "unat (ucast a :: u8) = unat a mod 256" for a :: "'a::len word"
  by (simp add: unsigned_ucast_eq take_bit_eq_mod)

lemma unat_u8_less [simp]: "unat (a :: u8) < 256"
  using unsigned_less [of a, where 'a = nat] by simp

lemma unat_u8_le: "unat (a :: u8) \<le> 255"
  using unat_u8_less [of a] by linarith

lemma unat_ucast_up [unat_bits]:
  "unat (ucast a :: u32) = unat (a :: u8)"
  "unat (ucast a :: u64) = unat (a :: u8)"
  by (simp_all add: unsigned_ucast_eq take_bit_eq_mod order.strict_trans [OF unat_u8_less])

lemma u8_eq_iff: "(a :: u8) = b \<longleftrightarrow> unat a = unat b"
  by (simp add: word_unat_eq_iff)

lemma u32_eq_iff: "(a :: u32) = b \<longleftrightarrow> unat a = unat b"
  by (simp add: word_unat_eq_iff)

lemma or_all_ones [simp]: "(0xFFFFFFFF :: u32) OR u = 0xFFFFFFFF"
proof -
  have "(0xFFFFFFFF :: u32) = - 1" by simp
  moreover have "- 1 OR u = - 1" by simp
  ultimately show ?thesis by (simp only:)
qed

lemma and_ones32 [simp]: "(u :: u32) AND 0xFFFFFFFF = u"
proof -
  have "(0xFFFFFFFF :: u32) = - 1" by simp
  then show ?thesis by (simp only: and_minus_numerals and.right_neutral)
qed

lemma xor_cancel [simp]:
  "a XOR c = b XOR c \<longleftrightarrow> a = b" "c XOR a = c XOR b \<longleftrightarrow> a = b" for a b c :: "'a::len word"
  by (auto simp: bit_eq_iff bit_xor_iff)

section \<open>Four bytes as a 32-bit word, least significant byte first\<close>

definition load32 :: "u8 \<Rightarrow> u8 \<Rightarrow> u8 \<Rightarrow> u8 \<Rightarrow> u32" where
  "load32 b0 b1 b2 b3 =
     ((ucast b0 OR push_bit 8 (ucast b1)) OR push_bit 16 (ucast b2)) OR push_bit 24 (ucast b3)"

lemma unat_load32 [unat_bits]:
  "unat (load32 b0 b1 b2 b3) = unat b0 + 256 * (unat b1 + 256 * (unat b2 + 256 * unat b3))"
proof -
  have shift: "unat (push_bit n (ucast b :: u32)) = unat b * 2 ^ n" if "n \<le> 24" for n and b :: u8
  proof -
    from that unat_u8_le [of b] have "unat b * 2 ^ n \<le> 255 * 2 ^ 24"
      by (intro mult_le_mono power_increasing) simp_all
    then show ?thesis by (subst unat_shl) (simp_all add: unat_ucast_up)
  qed
  note b = unat_u8_le [of b0] unat_u8_le [of b1] unat_u8_le [of b2]
  have 1: "unat (ucast b0 OR push_bit 8 (ucast b1) :: u32) = unat b0 + unat b1 * 2 ^ 8"
    by (subst unat_or_shift' [of _ "unat b1" 8]) (simp_all add: shift unat_ucast_up)
  have 2: "unat ((ucast b0 OR push_bit 8 (ucast b1)) OR push_bit 16 (ucast b2) :: u32) =
      unat b0 + unat b1 * 2 ^ 8 + unat b2 * 2 ^ 16"
    using b by (subst unat_or_shift' [of _ "unat b2" 16]) (simp_all only: shift 1, simp_all)
  have "unat (load32 b0 b1 b2 b3) = unat b0 + unat b1 * 2 ^ 8 + unat b2 * 2 ^ 16 + unat b3 * 2 ^ 24"
    unfolding load32_def
    using b by (subst unat_or_shift' [of _ "unat b3" 24]) (simp_all only: shift 2, simp_all)
  then show ?thesis by simp
qed

lemma load32_inject:
  "load32 a b c d = load32 a' b' c' d' \<longleftrightarrow> a = a' \<and> b = b' \<and> c = c' \<and> d = d'"
proof -
  have digit: "unat a + 256 * x = unat a' + 256 * y \<longleftrightarrow> a = a' \<and> x = y" for a a' :: u8 and x y :: nat
  proof
    assume eq: "unat a + 256 * x = unat a' + 256 * y"
    then have "(unat a + 256 * x) mod 256 = (unat a' + 256 * y) mod 256" by simp
    then have "unat a = unat a'" unfolding mod_mult_self2 by simp
    with eq show "a = a' \<and> x = y" by (simp add: u8_eq_iff)
  qed simp
  show ?thesis
    unfolding u32_eq_iff unat_load32 digit by (simp add: u8_eq_iff)
qed

section \<open>Rotations\<close>

lemma rotl_word: "0 < s \<Longrightarrow> s < 32 \<Longrightarrow> push_bit s a OR drop_bit (32 - s) a = word_rotl s a" for a :: u32
proof (rule bit_word_eqI)
  fix n assume s: "0 < s" "s < 32" and n: "n < LENGTH(32)"
  show "bit (push_bit s a OR drop_bit (32 - s) a) n = bit (word_rotl s a) n"
  proof (cases "s \<le> n")
    case True
    then have eq: "n + (32 - s) = (n - s) + 32" using s by simp
    have "(n + (32 - s)) mod 32 = n - s" unfolding eq mod_add_self2 using n by simp
    moreover have "\<not> bit a (32 - s + n)" using True s bit_imp_le_length [of a "32 - s + n"] by force
    ultimately show ?thesis using True s n by (simp add: bit_simps bit_word_rotl_iff)
  next
    case False
    then have "(n + (32 - s)) mod 32 = 32 - s + n" using s n by simp
    then show ?thesis using False s n by (simp add: bit_simps bit_word_rotl_iff)
  qed
qed

lemma rotr_word: "0 < s \<Longrightarrow> s < 32 \<Longrightarrow> drop_bit s a OR push_bit (32 - s) a = word_rotr s a" for a :: u32
  using rotl_word [of "32 - s" a] by (simp add: or.commute word_rotr_def word_rotl_def)

section \<open>Characters\<close>

definition njs_lower_case :: "u8 \<Rightarrow> u8" where
  "njs_lower_case c = (if 0x41 \<le> c \<and> c \<le> 0x5A then c OR 0x20 else c)"

definition njs_upper_case :: "u8 \<Rightarrow> u8" where
  "njs_upper_case c = (if 0x61 \<le> c \<and> c \<le> 0x7A then c AND 0xDF else c)"

section \<open>Texts and exceptions\<close>

text \<open>A C string literal as its bytes.\<close>

definition ascii :: "string \<Rightarrow> bytes" where
  "ascii s = map (\<lambda>c. of_nat (of_char c)) s"

lemma ascii_simps [simp]:
  "ascii [] = []" "ascii (c # cs) = of_nat (of_char c) # ascii cs" "length (ascii s) = length s"
  by (simp_all add: ascii_def)

text \<open>
  The exceptions the modelled functions throw, with their message, and the two outcomes
  that are no exceptions: an access outside the memory of an object (or of the wrong
  type), which the C code does not detect.
\<close>

datatype njs_error =
    Type_error bytes
  | Range_error bytes
  | Syntax_error bytes
  | Uri_error
  | Plain_error bytes
  | Internal_error bytes
  | Memory_error
  | Bad_access

section \<open>Buffers\<close>

text \<open>\<open>memcpy(&buf[off], src, size)\<close> with \<open>size\<close> the length of \<open>src\<close>.\<close>

definition memcpy_at :: "'a list \<Rightarrow> nat \<Rightarrow> 'a list \<Rightarrow> 'a list" where
  "memcpy_at buf off src = take off buf @ src @ drop (off + length src) buf"

lemma length_memcpy_at [simp]:
  "off + length src \<le> length buf \<Longrightarrow> length (memcpy_at buf off src) = length buf"
  by (simp add: memcpy_at_def)

lemma take_memcpy_at:
  "off \<le> length buf \<Longrightarrow> take (off + length src) (memcpy_at buf off src) = take off buf @ src"
  by (simp add: memcpy_at_def)

end
