(* ===== verification/Njs_Hash.thy ===== *)
theory Njs_Hash
  imports Njs_Prelude
begin

text \<open>
  The string hashes of \<open>src/src/njs_djb_hash.c\<close> (property names in the object tables)
  and \<open>src/src/njs_murmur_hash.c\<close>, on 32-bit words with wrap-around. A data pointer and
  its length are a byte list.
\<close>

section \<open>DJB hash\<close>

definition NJS_DJB_HASH_INIT :: u32 where
  "NJS_DJB_HASH_INIT = 5381"

definition njs_djb_hash_add :: "u32 \<Rightarrow> u8 \<Rightarrow> u32" where
  "njs_djb_hash_add hash val = (push_bit 5 hash + hash) XOR ucast val"

fun djb_hash_loop :: "u32 \<Rightarrow> bytes \<Rightarrow> u32" where
  "djb_hash_loop hash [] = hash"
| "djb_hash_loop hash (b # p) = djb_hash_loop (njs_djb_hash_add hash b) p"

definition njs_djb_hash :: "bytes \<Rightarrow> u32" where
  "njs_djb_hash data = djb_hash_loop NJS_DJB_HASH_INIT data"

fun djb_hash_lowcase_loop :: "u32 \<Rightarrow> bytes \<Rightarrow> u32" where
  "djb_hash_lowcase_loop hash [] = hash"
| "djb_hash_lowcase_loop hash (b # p) =
     djb_hash_lowcase_loop (njs_djb_hash_add hash (njs_lower_case b)) p"

definition njs_djb_hash_lowcase :: "bytes \<Rightarrow> u32" where
  "njs_djb_hash_lowcase data = djb_hash_lowcase_loop NJS_DJB_HASH_INIT data"

section \<open>MurmurHash2\<close>

definition murmur_m :: u32 where
  "murmur_m = 0x5bd1e995"

definition murmur_k :: "u8 \<Rightarrow> u8 \<Rightarrow> u8 \<Rightarrow> u8 \<Rightarrow> u32" where
  "murmur_k p0 p1 p2 p3 =
     (let k = load32 p0 p1 p2 p3;
          k = k * murmur_m;
          k = k XOR drop_bit 24 k
      in k * murmur_m)"

definition murmur_final :: "u32 \<Rightarrow> u32" where
  "murmur_final h =
     (let h = h XOR drop_bit 13 h;
          h = h * murmur_m
      in h XOR drop_bit 15 h)"

text \<open>The loop over whole words and the rest of fewer than four bytes it leaves.\<close>

fun murmur_words :: "u32 \<Rightarrow> bytes \<Rightarrow> u32 \<times> bytes" where
  "murmur_words h (p0 # p1 # p2 # p3 # p) = murmur_words ((h * murmur_m) XOR murmur_k p0 p1 p2 p3) p"
| "murmur_words h p = (h, p)"

text \<open>The cases of the switch fall through from the longest rest to the shortest.\<close>

definition murmur_tail :: "u32 \<Rightarrow> bytes \<Rightarrow> u32" where
  "murmur_tail h p =
     (let h = (if length p = 3 then h XOR push_bit 16 (ucast (p ! 2)) else h);
          h = (if length p \<in> {2, 3} then h XOR push_bit 8 (ucast (p ! 1)) else h)
      in if length p \<in> {1, 2, 3} then (h XOR ucast (p ! 0)) * murmur_m else h)"

definition njs_murmur_hash2 :: "bytes \<Rightarrow> u32" where
  "njs_murmur_hash2 data =
     (case murmur_words (0 XOR of_nat (length data)) data of
        (h, p) \<Rightarrow> murmur_final (murmur_tail h p))"

text \<open>The variant for four bytes; a shorter buffer is out of range.\<close>

fun njs_murmur_hash2_uint32 :: "bytes \<Rightarrow> u32 option" where
  "njs_murmur_hash2_uint32 (p0 # p1 # p2 # p3 # _) =
     Some (let k = murmur_k p0 p1 p2 p3;
               h = 0 XOR 4;
               h = h * murmur_m;
               h = h XOR k
           in murmur_final h)"
| "njs_murmur_hash2_uint32 _ = None"

section \<open>Properties of the DJB hash\<close>

lemma djb_loop_append: "djb_hash_loop h (xs @ ys) = djb_hash_loop (djb_hash_loop h xs) ys"
  by (induction xs arbitrary: h) auto

lemma djb_lowcase_loop: "djb_hash_lowcase_loop h p = djb_hash_loop h (map njs_lower_case p)"
  by (induction p arbitrary: h) auto

lemma mult_odd_inject:
  assumes "c * d = (1 :: 'a::len word)"
  shows "x * c = y * c \<longleftrightarrow> x = y"
  by (metis assms mult.assoc mult_1_right)

lemma djb_add_inject: "njs_djb_hash_add g v = njs_djb_hash_add h v \<longleftrightarrow> g = h"
proof -
  have "push_bit 5 x + x = x * 33" for x :: u32
    by (simp add: push_bit_eq_mult)
  moreover have "(33 :: u32) * 0x3E0F83E1 = 1" by simp
  ultimately have "push_bit 5 g + g = push_bit 5 h + h \<longleftrightarrow> g = h"
    by (simp only: mult_odd_inject)
  then show ?thesis by (simp only: njs_djb_hash_add_def xor_cancel)
qed

lemma djb_add_inject_byte: "njs_djb_hash_add h v = njs_djb_hash_add h w \<longleftrightarrow> v = w"
  unfolding njs_djb_hash_add_def xor_cancel by (simp add: u32_eq_iff unat_ucast_up u8_eq_iff)

lemma djb_loop_inject: "djb_hash_loop g p = djb_hash_loop h p \<longleftrightarrow> g = h"
  by (induction p arbitrary: g h) (auto simp: djb_add_inject)

text \<open>
  Two strings that differ in exactly one byte never have the same hash, and hashing
  with folding is hashing the folded string.
\<close>

theorem djb_hash_one_byte:
  "(njs_djb_hash (xs @ a # ys) = njs_djb_hash (xs @ b # ys)) = (a = b) \<and>
   njs_djb_hash_lowcase xs = njs_djb_hash (map njs_lower_case xs)"
  by (auto simp: njs_djb_hash_def njs_djb_hash_lowcase_def djb_loop_append djb_loop_inject
      djb_add_inject_byte djb_lowcase_loop)

section \<open>Properties of MurmurHash2\<close>

text \<open>Xor with a right shift of itself loses nothing: the top bits pass unchanged.\<close>

lemma xor_shift_inject:
  assumes "0 < n" and eq: "x XOR drop_bit n x = y XOR drop_bit n y"
  shows "x = (y :: 'a::len word)"
proof -
  have "bit x i = bit y i" for i
  proof (induction "LENGTH('a) - i" arbitrary: i rule: less_induct)
    case less
    show ?case
    proof (cases "i < LENGTH('a)")
      case True
      have "bit (x XOR drop_bit n x) i = bit (y XOR drop_bit n y) i" by (simp add: eq)
      moreover have "bit x (i + n) = bit y (i + n)"
        using less [of "i + n"] True assms(1) by auto
      ultimately show ?thesis
        by (cases "bit y (i + n)") (simp_all add: bit_xor_iff bit_drop_bit_eq add.commute)
    qed (auto dest: bit_imp_le_length)
  qed
  then show ?thesis by (simp add: bit_eq_iff)
qed

lemma xor_shift_iff: "0 < n \<Longrightarrow> x XOR drop_bit n x = y XOR drop_bit n y \<longleftrightarrow> x = y"
  for x y :: "'a::len word"
  using xor_shift_inject by blast

lemma murmur_m_inject: "x * murmur_m = y * murmur_m \<longleftrightarrow> x = y"
proof -
  have "murmur_m * 0xe59b19bd = 1" by (simp add: murmur_m_def)
  then show ?thesis by (rule mult_odd_inject)
qed

lemma murmur_final_inject: "murmur_final g = murmur_final h \<longleftrightarrow> g = h"
  by (simp add: murmur_final_def Let_def xor_shift_iff murmur_m_inject)

lemma murmur_k_inject:
  "murmur_k a b c d = murmur_k a' b' c' d' \<longleftrightarrow> a = a' \<and> b = b' \<and> c = c' \<and> d = d'"
  by (simp add: murmur_k_def Let_def xor_shift_iff murmur_m_inject load32_inject)

text \<open>
  On four bytes the short variant computes the general hash, and distinct words have
  distinct hashes.
\<close>

theorem murmur_hash2_uint32_eq:
  "njs_murmur_hash2_uint32 [a, b, c, d] = Some (njs_murmur_hash2 [a, b, c, d]) \<and>
   (njs_murmur_hash2 [a, b, c, d] = njs_murmur_hash2 [a', b', c', d']) =
     ([a, b, c, d] = [a', b', c', d'])"
  by (simp add: njs_murmur_hash2_def murmur_tail_def murmur_final_inject murmur_k_inject)

end
