(* ===== verification/Njs_Utf8.thy ===== *)
theory Njs_Utf8
  imports Njs_Prelude
begin

text \<open>
  The UTF-8 layer, \<open>src/src/njs_utf8.c\<close> and \<open>njs_utf8.h\<close>: encoder, strict and
  replacing decoders, the loops over whole strings and the cursor primitives.

  A cursor \<open>p\<close> into a buffer that ends at \<open>end\<close> is the list of the bytes from \<open>p\<close> up
  to \<open>end\<close>; advancing the cursor drops bytes from its front. A function that reads the
  byte under the cursor before it compares the cursor with \<open>end\<close> takes that byte and
  the bytes after it as two arguments, so that an empty range is no input of it. Where
  a read outside the range is possible, it is the value \<^const>\<open>None\<close>.
\<close>

section \<open>Encoder\<close>

definition njs_utf8_encode :: "u32 \<Rightarrow> bytes option" where
  "njs_utf8_encode u =
     (if u < 0x80 then
        Some [ucast (u AND 0xFF)]
      else if u < 0x0800 then
        Some [ucast (drop_bit 6 u OR 0xC0),
              ucast ((u AND 0x3F) OR 0x80)]
      else if u < 0x10000 then
        Some [ucast (drop_bit 12 u OR 0xE0),
              ucast ((drop_bit 6 u AND 0x3F) OR 0x80),
              ucast ((u AND 0x3F) OR 0x80)]
      else if u < 0x110000 then
        Some [ucast (drop_bit 18 u OR 0xF0),
              ucast ((drop_bit 12 u AND 0x3F) OR 0x80),
              ucast ((drop_bit 6 u AND 0x3F) OR 0x80),
              ucast ((u AND 0x3F) OR 0x80)]
      else None)"

definition njs_utf8_size :: "u32 \<Rightarrow> nat" where
  "njs_utf8_size u = (if u < 0x80 then 1 else if u < 0x0800 then 2 else if u < 0x10000 then 3 else 4)"

section \<open>Decoders\<close>

definition NJS_UTF8_REPLACEMENT :: u32 where
  "NJS_UTF8_REPLACEMENT = 0xFFFD"

text \<open>
  The lead byte gives the payload bits, the largest value a shorter sequence could
  have carried and the number of continuation bytes.
\<close>

definition utf8_lead :: "u32 \<Rightarrow> (u32 \<times> u32 \<times> nat) option" where
  "utf8_lead u =
     (if u \<ge> 0xE0 then
        if u \<ge> 0xF0 then
          if u > 0xF4 then None
          else Some (u AND 0x07, 0x00FFFF, 3)
        else Some (u AND 0x0F, 0x07FF, 2)
      else if u \<ge> 0xC2 then Some (u AND 0x1F, 0x007F, 1)
      else None)"

fun utf8_cont :: "nat \<Rightarrow> u32 \<Rightarrow> bytes \<Rightarrow> (u32 \<times> bytes) option" where
  "utf8_cont 0 u p = Some (u, p)"
| "utf8_cont (Suc n) u [] = None"
| "utf8_cont (Suc n) u (b # p) =
     (let c = b - 0x80
      in if c > 0x3F then None
         else utf8_cont n (push_bit 6 u OR ucast c) p)"

definition njs_utf8_decode2 :: "u8 \<Rightarrow> bytes \<Rightarrow> u32 \<times> bytes" where
  "njs_utf8_decode2 b p =
     (case utf8_lead (ucast b) of
        None \<Rightarrow> (0xFFFFFFFF, b # p)
      | Some (u, overlong, n) \<Rightarrow>
          if n \<le> length p then
            case utf8_cont n u p of
              None \<Rightarrow> (0xFFFFFFFF, b # p)
            | Some (u, p') \<Rightarrow>
                if overlong < u \<and> u < 0x110000 then (u, p') else (0xFFFFFFFF, b # p)
          else (0xFFFFFFFF, b # p))"

definition njs_utf8_decode :: "u8 \<Rightarrow> bytes \<Rightarrow> u32 \<times> bytes" where
  "njs_utf8_decode b p =
     (let u = ucast b :: u32
      in if u < 0x80 then (u, p) else njs_utf8_decode2 b p)"

text \<open>
  The replacing decoder stops at a byte that does not continue the sequence
  (\<^const>\<open>Inl\<close>, the cursor at that byte) or with the payload, the number of missing
  bytes and the cursor.
\<close>

fun utf8_safe_cont :: "nat \<Rightarrow> u32 \<Rightarrow> bytes \<Rightarrow> bytes + u32 \<times> nat \<times> bytes" where
  "utf8_safe_cont 0 u p = Inr (u, 0, p)"
| "utf8_safe_cont (Suc n) u [] = Inr (u, Suc n, [])"
| "utf8_safe_cont (Suc n) u (b # p) =
     (let c = b - 0x80
      in if c > 0x3F then Inl (b # p)
         else utf8_safe_cont n (push_bit 6 u OR ucast c) p)"

definition njs_utf8_safe_decode2 :: "u8 \<Rightarrow> bytes \<Rightarrow> u32 \<times> bytes" where
  "njs_utf8_safe_decode2 b p =
     (case utf8_lead (ucast b) of
        None \<Rightarrow> (NJS_UTF8_REPLACEMENT, p)
      | Some (u, overlong, n) \<Rightarrow>
          (case utf8_safe_cont n u p of
             Inl p' \<Rightarrow> (NJS_UTF8_REPLACEMENT, p')
           | Inr (u, n, p') \<Rightarrow>
               if n = 0 \<and> overlong < u \<and> u < 0x110000 then (u, p')
               else (NJS_UTF8_REPLACEMENT, p')))"

definition njs_utf8_safe_decode :: "u8 \<Rightarrow> bytes \<Rightarrow> u32 \<times> bytes" where
  "njs_utf8_safe_decode b p =
     (let u = ucast b :: u32
      in if u < 0x80 then (u, p) else njs_utf8_safe_decode2 b p)"

section \<open>Progress of the decoders\<close>

lemma utf8_cont_length: "utf8_cont n u p = Some (v, p') \<Longrightarrow> length p = n + length p'"
  by (induction n u p rule: utf8_cont.induct) (auto simp: Let_def split: if_splits)

lemma decode_progress:
  "njs_utf8_decode b p = (v, p') \<Longrightarrow> v \<noteq> 0xFFFFFFFF \<Longrightarrow> length p' \<le> length p"
  by (auto simp: njs_utf8_decode_def njs_utf8_decode2_def Let_def
      dest!: utf8_cont_length split: if_splits option.splits)

lemma utf8_safe_cont_Inr: "utf8_safe_cont n u p = Inr (v, m, p') \<Longrightarrow> length p' \<le> length p"
  by (induction n u p rule: utf8_safe_cont.induct) (auto simp: Let_def split: if_splits)

lemma utf8_safe_cont_Inl: "utf8_safe_cont n u p = Inl p' \<Longrightarrow> length p' \<le> length p"
  by (induction n u p rule: utf8_safe_cont.induct) (auto simp: Let_def split: if_splits)

lemma safe_decode_progress:
  "njs_utf8_safe_decode b p = (v, p') \<Longrightarrow> length p' \<le> length p"
  by (auto simp: njs_utf8_safe_decode_def njs_utf8_safe_decode2_def Let_def
      dest!: utf8_safe_cont_Inr utf8_safe_cont_Inl
      split: if_splits option.splits sum.splits)

section \<open>Whole strings\<close>

function utf8_length_loop :: "bytes \<Rightarrow> int \<Rightarrow> int" where
  "utf8_length_loop [] len = len"
| "utf8_length_loop (b # p) len =
     (case njs_utf8_decode b p of (u, p') \<Rightarrow>
        if u = 0xFFFFFFFF then -1 else utf8_length_loop p' (len + 1))"
  by pat_completeness auto
termination
  by (relation "measure (length \<circ> fst)") (auto dest!: decode_progress [OF sym])

definition njs_utf8_length :: "bytes \<Rightarrow> int" where
  "njs_utf8_length p = utf8_length_loop p 0"

function utf8_safe_length_loop :: "bytes \<Rightarrow> nat \<Rightarrow> nat \<Rightarrow> nat \<times> nat" where
  "utf8_safe_length_loop [] sz len = (len, sz)"
| "utf8_safe_length_loop (b # p) sz len =
     (case njs_utf8_safe_decode b p of (u, p') \<Rightarrow>
        utf8_safe_length_loop p' (sz + njs_utf8_size u) (len + 1))"
  by pat_completeness auto
termination
  by (relation "measure (length \<circ> fst)") (auto dest!: safe_decode_progress [OF sym])

text \<open>The result pairs the returned length with \<open>*out_size\<close>.\<close>

definition njs_utf8_safe_length :: "bytes \<Rightarrow> nat \<times> nat" where
  "njs_utf8_safe_length p = utf8_safe_length_loop p 0 0"

function njs_utf8_is_valid :: "bytes \<Rightarrow> bool" where
  "njs_utf8_is_valid [] = True"
| "njs_utf8_is_valid (b # p) =
     (case njs_utf8_decode b p of (u, p') \<Rightarrow>
        if u = 0xFFFFFFFF then False else njs_utf8_is_valid p')"
  by pat_completeness auto
termination
  by (relation "measure length") (auto dest!: decode_progress [OF sym])

section \<open>Case folding and comparison\<close>

text \<open>
  The case tables are generated data and an argument of the model: block 0 for the code
  points below 128 and the blocks of 128 code points, \<^const>\<open>None\<close> for a null block.
\<close>

record case_table =
  block_000 :: "u32 list"
  case_blocks :: "u32 list option list"

definition NJS_UNICODE_BLOCK_SIZE :: nat where
  "NJS_UNICODE_BLOCK_SIZE = 128"

definition NJS_UNICODE_MAX_LOWER_CASE :: u32 where
  "NJS_UNICODE_MAX_LOWER_CASE = 0x1e921"

definition NJS_UNICODE_MAX_UPPER_CASE :: u32 where
  "NJS_UNICODE_MAX_UPPER_CASE = 0x1e943"

definition njs_utf8_lower_case :: "case_table \<Rightarrow> u8 \<Rightarrow> bytes \<Rightarrow> u32 \<times> bytes" where
  "njs_utf8_lower_case lower b p =
     (let u = ucast b :: u32
      in if u < 0x80 then (block_000 lower ! unat u, p)
         else
           case njs_utf8_decode2 b p of (u, p') \<Rightarrow>
             if u \<le> NJS_UNICODE_MAX_LOWER_CASE then
               case case_blocks lower ! (unat u div NJS_UNICODE_BLOCK_SIZE) of
                 Some block \<Rightarrow> (block ! (unat u mod NJS_UNICODE_BLOCK_SIZE), p')
               | None \<Rightarrow> (u, p')
             else (u, p'))"

definition njs_utf8_upper_case :: "case_table \<Rightarrow> u8 \<Rightarrow> bytes \<Rightarrow> u32 \<times> bytes" where
  "njs_utf8_upper_case upper b p =
     (let u = ucast b :: u32
      in if u < 0x80 then (block_000 upper ! unat u, p)
         else
           case njs_utf8_decode2 b p of (u, p') \<Rightarrow>
             if u \<le> NJS_UNICODE_MAX_UPPER_CASE then
               case case_blocks upper ! (unat u div NJS_UNICODE_BLOCK_SIZE) of
                 Some block \<Rightarrow> (block ! (unat u mod NJS_UNICODE_BLOCK_SIZE), p')
               | None \<Rightarrow> (u, p')
             else (u, p'))"

lemma decode2_progress:
  "njs_utf8_decode2 b p = (v, p') \<Longrightarrow> v \<noteq> 0xFFFFFFFF \<Longrightarrow> length p' \<le> length p"
  by (auto simp: njs_utf8_decode2_def dest!: utf8_cont_length split: if_splits option.splits)

lemma lower_case_progress:
  "njs_utf8_lower_case t b p = (v, p') \<Longrightarrow> v \<noteq> 0xFFFFFFFF \<Longrightarrow> length p' \<le> length p"
  by (cases "njs_utf8_decode2 b p")
    (auto simp: njs_utf8_lower_case_def NJS_UNICODE_MAX_LOWER_CASE_def Let_def
      dest!: decode2_progress split: if_splits option.splits)

definition NJS_UTF8_SORT_INVALID :: int where
  "NJS_UTF8_SORT_INVALID = 0x0EEE0EEE"

text \<open>
  A character that does not decode folds to \<open>0xFFFFFFFF\<close>, so the test on the disjunction
  leaves the loop before a cursor that did not move is read again.
\<close>

function njs_utf8_casecmp :: "case_table \<Rightarrow> bytes \<Rightarrow> bytes \<Rightarrow> int" where
  "njs_utf8_casecmp lower [] q = 0"
| "njs_utf8_casecmp lower (b # p) [] = 0"
| "njs_utf8_casecmp lower (b # p) (c # q) =
     (case njs_utf8_lower_case lower b p of (u1, p') \<Rightarrow>
      case njs_utf8_lower_case lower c q of (u2, q') \<Rightarrow>
        if u1 OR u2 = 0xFFFFFFFF then NJS_UTF8_SORT_INVALID
        else let n = sint (u1 - u2)
             in if n \<noteq> 0 then n else njs_utf8_casecmp lower p' q')"
  by pat_completeness auto
termination
proof (relation "measure (\<lambda>(lower, p, q). length p)", goal_cases)
  case 1
  show ?case by simp
next
  case (2 lower b p c q u1 p' u2 q')
  from 2 have "u1 \<noteq> 0xFFFFFFFF"
    by auto
  with 2 show ?case
    using lower_case_progress [of lower b p u1 p'] by auto
qed

section \<open>Moving over a valid string\<close>

text \<open>
  The do-while loop of \<open>njs_utf8_next\<close> reads the byte under the cursor before it compares
  the cursor with \<open>end\<close>: the first read is out of range when a multi-byte lead is the
  last byte.
\<close>

fun utf8_skip_cont :: "bytes \<Rightarrow> bytes option" where
  "utf8_skip_cont [] = None"
| "utf8_skip_cont (c # p) =
     (if c AND 0xC0 \<noteq> 0x80 then Some (c # p)
      else if p = [] then Some []
      else utf8_skip_cont p)"

fun njs_utf8_next :: "bytes \<Rightarrow> bytes option" where
  "njs_utf8_next [] = None"
| "njs_utf8_next (c # p) = (if c AND 0x80 \<noteq> 0 then utf8_skip_cont p else Some p)"

text \<open>
  The bytes before the cursor are given last byte first; \<^const>\<open>None\<close> is a read in front
  of the buffer.
\<close>

fun njs_utf8_prev :: "bytes \<Rightarrow> bytes option" where
  "njs_utf8_prev [] = None"
| "njs_utf8_prev (c # before) =
     (if c AND 0xC0 = 0x80 then njs_utf8_prev before else Some before)"

text \<open>The bytes written at \<open>dst\<close> and the advanced source cursor.\<close>

fun utf8_copy_cont :: "bytes \<Rightarrow> (bytes \<times> bytes) option" where
  "utf8_copy_cont [] = None"
| "utf8_copy_cont (c # p) =
     (if c AND 0xC0 \<noteq> 0x80 then Some ([], c # p)
      else if p = [] then Some ([c], [])
      else map_option (apfst ((#) c)) (utf8_copy_cont p))"

fun njs_utf8_copy :: "bytes \<Rightarrow> (bytes \<times> bytes) option" where
  "njs_utf8_copy [] = None"
| "njs_utf8_copy (c # p) =
     (if c AND 0x80 \<noteq> 0 then map_option (apfst ((#) c)) (utf8_copy_cont p)
      else Some ([c], p))"

definition njs_utf8_is_whitespace :: "u32 \<Rightarrow> bool" where
  "njs_utf8_is_whitespace c \<longleftrightarrow>
     c \<in> {0x0009, 0x000A, 0x000B, 0x000C, 0x000D, 0x0020, 0x00A0, 0x1680,
          0x2000, 0x2001, 0x2002, 0x2003, 0x2004, 0x2005, 0x2006, 0x2007,
          0x2008, 0x2009, 0x200A, 0x2028, 0x2029, 0x202F, 0x205F, 0x3000, 0xFEFF}"

section \<open>The arithmetic of the encoding\<close>

text \<open>
  A reference definition of the encoding by division and remainder, and the decoder as
  its inverse: the bit operations of the code are shown to compute it, range by range.
\<close>

lemma sub_0x80: "unat (b - 0x80 :: u8) = (if 128 \<le> unat b then unat b - 128 else unat b + 128)"
  by (simp add: unat_sub_if' )

definition is_cont :: "u8 \<Rightarrow> bool" where
  "is_cont b \<longleftrightarrow> 128 \<le> unat b \<and> unat b < 192"

lemma cont_byte_iff: "b - 0x80 > (0x3F :: u8) \<longleftrightarrow> \<not> is_cont b"
  by (auto simp: is_cont_def word_less_nat_alt sub_0x80)

lemma shift_in:
  "is_cont b \<Longrightarrow> unat u < 2 ^ 26 \<Longrightarrow>
   unat (push_bit 6 u OR ucast (b - 0x80) :: u32) = unat u * 64 + (unat b - 128)"
  for u :: u32 and b :: u8
  by (subst unat_or_shift [of _ "unat u" 6]) (auto simp: is_cont_def unat_bits sub_0x80)

definition payload :: "nat \<Rightarrow> bytes \<Rightarrow> nat" where
  "payload u xs = foldl (\<lambda>a x. a * 64 + (unat x - 128)) u xs"

lemma payload_simps [simp]:
  "payload u [] = u"
  "payload u (x # xs) = payload (u * 64 + (unat x - 128)) xs"
  by (simp_all add: payload_def)

lemma utf8_cont_iff:
  "(unat u + 1) * 64 ^ n \<le> 2 ^ 32 \<Longrightarrow>
   utf8_cont n u p = Some (v, p') \<longleftrightarrow>
   (\<exists>xs. length xs = n \<and> list_all is_cont xs \<and> p = xs @ p' \<and> unat v = payload (unat u) xs)"
proof (induction n u p arbitrary: v rule: utf8_cont.induct)
  case (1 u p)
  then show ?case by (auto simp: u32_eq_iff)
next
  case (2 n u)
  then show ?case by (auto simp: Suc_length_conv)
next
  case (3 n u b p)
  show ?case
  proof (cases "is_cont b")
    case True
    let ?u = "push_bit 6 u OR ucast (b - 0x80) :: u32"
    have "(unat u + 1) * 64 * 1 \<le> (unat u + 1) * 64 * 64 ^ n" by (intro mult_le_mono) simp_all
    also have "\<dots> = (unat u + 1) * 64 ^ Suc n" by (simp only: power_Suc mult.assoc)
    also have "\<dots> \<le> 2 ^ 32" by (rule 3(2))
    finally have "unat u < 2 ^ 26" by simp
    then have u: "unat ?u = unat u * 64 + (unat b - 128)"
      using True by (intro shift_in) simp_all
    have "(unat ?u + 1) * 64 ^ n \<le> (unat u + 1) * 64 * 64 ^ n"
      unfolding u using True by (intro mult_le_mono) (auto simp: is_cont_def)
    also have "\<dots> = (unat u + 1) * 64 ^ Suc n" by (simp only: power_Suc mult.assoc)
    also have "\<dots> \<le> 2 ^ 32" by (rule 3(2))
    finally show ?thesis
      using 3(1) [OF refl, of v] True u
      by (auto simp: cont_byte_iff Let_def Cons_eq_append_conv Suc_length_conv)
  next
    case False
    then show ?thesis by (auto simp: cont_byte_iff Let_def Cons_eq_append_conv Suc_length_conv)
  qed
qed

definition utf8_nats :: "nat \<Rightarrow> nat list" where
  "utf8_nats u =
     (if u < 0x80 then [u]
      else if u < 0x800 then [192 + u div 64, 128 + u mod 64]
      else if u < 0x10000 then [224 + u div 4096, 128 + u div 64 mod 64, 128 + u mod 64]
      else [240 + u div 262144, 128 + u div 4096 mod 64, 128 + u div 64 mod 64, 128 + u mod 64])"

lemma unat_marked:
  "unat a < 64 \<Longrightarrow> unat (a OR 0x80) = 128 + unat a"
  "unat a < 32 \<Longrightarrow> unat (a OR 0xC0) = 192 + unat a"
  "unat a < 16 \<Longrightarrow> unat (a OR 0xE0) = 224 + unat a"
  "unat a < 8 \<Longrightarrow> unat (a OR 0xF0) = 240 + unat a"
  for a :: u32
  using unat_or_shift' [of "0x80 :: u32" 2 6 a] unat_or_shift' [of "0xC0 :: u32" 6 5 a]
    unat_or_shift' [of "0xE0 :: u32" 14 4 a] unat_or_shift' [of "0xF0 :: u32" 30 3 a]
  by (simp_all add: unat_ucast_u8)

lemma encode_nats:
  "map_option (map unat) (njs_utf8_encode u) =
     (if unat u < 0x110000 then Some (utf8_nats (unat u)) else None)"
  by (auto simp: njs_utf8_encode_def utf8_nats_def word_less_nat_alt unat_marked unat_bits)

lemma utf8_lead_nat:
  "utf8_lead (ucast b) =
     (if unat b < 194 then None
      else if unat b < 224 then Some (ucast b AND 0x1F, 0x007F, 1)
      else if unat b < 240 then Some (ucast b AND 0x0F, 0x07FF, 2)
      else if unat b < 245 then Some (ucast b AND 0x07, 0xFFFF, 3)
      else None)" for b :: u8
  by (auto simp: utf8_lead_def word_less_nat_alt word_le_nat_alt unat_ucast_up)

lemma decode2_iff:
  "njs_utf8_decode2 b p = (v, p') \<and> v \<noteq> 0xFFFFFFFF \<longleftrightarrow>
   (\<exists>u overlong n xs. utf8_lead (ucast b) = Some (u, overlong, n) \<and> length xs = n \<and>
      list_all is_cont xs \<and> p = xs @ p' \<and> unat v = payload (unat u) xs \<and>
      overlong < v \<and> v < 0x110000)"
proof (cases "utf8_lead (ucast b)")
  case None
  then show ?thesis by (auto simp: njs_utf8_decode2_def)
next
  case (Some l)
  obtain u overlong n where l: "l = (u, overlong, n)" by (metis prod_cases3)
  with Some have n: "n \<le> 3" "(unat u + 1) * 64 ^ n \<le> 2 ^ 32"
    by (auto simp: utf8_lead_nat unat_bits split: if_splits)
  have *: "utf8_cont n u p = Some (v, p') \<longleftrightarrow>
     (\<exists>xs. length xs = n \<and> list_all is_cont xs \<and> p = xs @ p' \<and> unat v = payload (unat u) xs)"
    using n(2) by (rule utf8_cont_iff)
  have "njs_utf8_decode2 b p = (v, p') \<and> v \<noteq> 0xFFFFFFFF \<longleftrightarrow>
      utf8_cont n u p = Some (v, p') \<and> overlong < v \<and> v < 0x110000"
    using Some l
    by (auto simp: njs_utf8_decode2_def split: option.splits dest: utf8_cont_length)
  with * Some l show ?thesis by auto
qed

lemma base64_digit: "v = q * 64 + y \<and> y < 64 \<longleftrightarrow> q = v div 64 \<and> y = v mod 64" for v q y :: nat
  by auto

lemma nat_digits:
  "v = (h * 64 + x) * 64 + y \<and> x < 64 \<and> y < 64 \<longleftrightarrow>
     h = v div 4096 \<and> x = v div 64 mod 64 \<and> y = v mod 64" (is ?two)
  "v = ((h * 64 + x) * 64 + y) * 64 + z \<and> x < 64 \<and> y < 64 \<and> z < 64 \<longleftrightarrow>
     h = v div 262144 \<and> x = v div 4096 mod 64 \<and> y = v div 64 mod 64 \<and> z = v mod 64" (is ?three)
  for v h x y z :: nat
proof -
  have d: "w div 64 div 64 = w div 4096" "w div 4096 div 64 = w div 262144" for w :: nat
    by (simp_all flip: div_mult2_eq)
  have two: "w = (h * 64 + x) * 64 + y \<and> x < 64 \<and> y < 64 \<longleftrightarrow>
     h = w div 4096 \<and> x = w div 64 mod 64 \<and> y = w mod 64" for w h x y :: nat
    using base64_digit [of w "h * 64 + x" y] base64_digit [of "w div 64" h x] d(1) by metis
  show ?two by (rule two)
  show ?three
    using base64_digit [of v "(h * 64 + x) * 64 + y" z] two [of "v div 64" h x y] d by metis
qed

lemma utf8_nats_head:
  assumes "utf8_nats v @ ns = h # hs" "v < 0x110000"
  shows "h < 194 \<longleftrightarrow> v < 0x80" "h < 224 \<longleftrightarrow> v < 0x800" "h < 240 \<longleftrightarrow> v < 0x10000" "h < 245"
proof -
  have h: "h = hd (utf8_nats v)"
    using assms(1) by (auto simp: utf8_nats_def split: if_splits)
  show "h < 194 \<longleftrightarrow> v < 0x80" "h < 224 \<longleftrightarrow> v < 0x800" "h < 240 \<longleftrightarrow> v < 0x10000" "h < 245"
    using assms(2) unfolding h utf8_nats_def by simp_all linarith+
qed

lemma length2: "length xs = 2 \<longleftrightarrow> (\<exists>x y. xs = [x, y])"
  by (auto simp: numeral_2_eq_2 length_Suc_conv)

lemma length3: "length xs = 3 \<longleftrightarrow> (\<exists>x y z. xs = [x, y, z])"
  by (auto simp: numeral_3_eq_3 length_Suc_conv)

lemma map_unat_eq [simp]: "map unat xs = map unat ys \<longleftrightarrow> xs = ys" for xs ys :: bytes
  by (rule inj_map_eq_map) (auto simp: inj_def u8_eq_iff)

lemma map_unat_append:
  "map unat xs = ns @ map unat ys \<longleftrightarrow> (\<exists>zs. xs = zs @ ys \<and> map unat zs = ns)" for xs ys :: bytes
  by (auto simp: map_eq_append_conv)

lemma is_cont_value: "is_cont x \<longleftrightarrow> (\<exists>k < 64. unat x = 128 + k)"
  by (auto simp: is_cont_def intro: exI [of _ "unat x - 128"])

lemma cont_digit: "is_cont x \<and> unat x - 128 = k \<longleftrightarrow> k < 64 \<and> unat x = 128 + k"
  by (auto simp: is_cont_def)

lemma cont_digits:
  "is_cont x \<and> v = h * 64 + (unat x - 128) \<longleftrightarrow> h = v div 64 \<and> unat x = 128 + v mod 64"
  "is_cont x \<and> is_cont y \<and> v = (h * 64 + (unat x - 128)) * 64 + (unat y - 128) \<longleftrightarrow>
     h = v div 4096 \<and> unat x = 128 + v div 64 mod 64 \<and> unat y = 128 + v mod 64"
  "is_cont x \<and> is_cont y \<and> is_cont z \<and>
     v = ((h * 64 + (unat x - 128)) * 64 + (unat y - 128)) * 64 + (unat z - 128) \<longleftrightarrow>
     h = v div 262144 \<and> unat x = 128 + v div 4096 mod 64 \<and> unat y = 128 + v div 64 mod 64 \<and>
     unat z = 128 + v mod 64"
proof -
  have c: "is_cont w \<longleftrightarrow> 128 \<le> unat w \<and> unat w - 128 < 64" for w
    by (auto simp: is_cont_def)
  have e: "unat w = 128 + k \<longleftrightarrow> 128 \<le> unat w \<and> unat w - 128 = k" for k and w :: u8
    by auto
  show "is_cont x \<and> v = h * 64 + (unat x - 128) \<longleftrightarrow> h = v div 64 \<and> unat x = 128 + v mod 64"
    using base64_digit [of v h "unat x - 128"] unfolding c e by metis
  show "is_cont x \<and> is_cont y \<and> v = (h * 64 + (unat x - 128)) * 64 + (unat y - 128) \<longleftrightarrow>
     h = v div 4096 \<and> unat x = 128 + v div 64 mod 64 \<and> unat y = 128 + v mod 64"
    using nat_digits(1) [of v h "unat x - 128" "unat y - 128"] unfolding c e by metis
  show "is_cont x \<and> is_cont y \<and> is_cont z \<and>
     v = ((h * 64 + (unat x - 128)) * 64 + (unat y - 128)) * 64 + (unat z - 128) \<longleftrightarrow>
     h = v div 262144 \<and> unat x = 128 + v div 4096 mod 64 \<and> unat y = 128 + v div 64 mod 64 \<and>
     unat z = 128 + v mod 64"
    using nat_digits(2) [of v h "unat x - 128" "unat y - 128" "unat z - 128"] unfolding c e by metis
qed


lemma dec_two:
  assumes "unat b = 192 + h" "2 \<le> h" "h < 32"
  shows "njs_utf8_decode2 b p = (v, p') \<and> v \<noteq> 0xFFFFFFFF \<longleftrightarrow>
    (\<exists>x. p = x # p' \<and> is_cont x \<and> unat v = h * 64 + (unat x - 128))"
proof -
  have "(192 + h) mod 32 = h" using assms(3) mod_mult_self1 [of h 6 32] by (simp add: add.commute)
  then have u: "utf8_lead (ucast b) = Some (ucast b AND 0x1F, 0x007F, 1)" "unat (ucast b AND 0x1F :: u32) = h"
    using assms by (simp_all add: utf8_lead_nat unat_bits)
  show ?thesis
    unfolding decode2_iff u using assms u(2)
    by (auto simp: length_Suc_conv word_less_nat_alt is_cont_def)
qed

lemma dec_three:
  assumes "unat b = 224 + h" "h < 16"
  shows "njs_utf8_decode2 b p = (v, p') \<and> v \<noteq> 0xFFFFFFFF \<longleftrightarrow>
    (\<exists>x y. p = x # y # p' \<and> is_cont x \<and> is_cont y \<and>
        unat v = (h * 64 + (unat x - 128)) * 64 + (unat y - 128)) \<and> 0x800 \<le> unat v"
proof -
  have "(224 + h) mod 16 = h" using assms(2) mod_mult_self1 [of h 14 16] by (simp add: add.commute)
  then have u: "utf8_lead (ucast b) = Some (ucast b AND 0x0F, 0x07FF, 2)" "unat (ucast b AND 0x0F :: u32) = h"
    using assms by (simp_all add: utf8_lead_nat unat_bits)
  have bound: "(h * 64 + (unat x - 128)) * 64 + (unat y - 128) < 0x110000" if "is_cont x" "is_cont y" for x y
    using assms(2) that by (auto simp: is_cont_def)
  show ?thesis
    unfolding decode2_iff u using assms u(2) bound
    by (auto simp: length2 word_less_nat_alt simp del: distrib_right_numeral distrib_left_numeral)
qed

lemma dec_four:
  assumes "unat b = 240 + h" "h < 5"
  shows "njs_utf8_decode2 b p = (v, p') \<and> v \<noteq> 0xFFFFFFFF \<longleftrightarrow>
    (\<exists>x y z. p = x # y # z # p' \<and> is_cont x \<and> is_cont y \<and> is_cont z \<and>
        unat v = ((h * 64 + (unat x - 128)) * 64 + (unat y - 128)) * 64 + (unat z - 128)) \<and>
    0x10000 \<le> unat v \<and> unat v < 0x110000"
proof -
  have "(240 + h) mod 8 = h" using assms(2) mod_mult_self1 [of h 30 8] by (simp add: add.commute)
  then have u: "utf8_lead (ucast b) = Some (ucast b AND 0x07, 0xFFFF, 3)" "unat (ucast b AND 0x07 :: u32) = h"
    using assms by (simp_all add: utf8_lead_nat unat_bits)
  show ?thesis
    unfolding decode2_iff u using assms u(2)
    by (auto simp: length3 word_less_nat_alt simp del: distrib_right_numeral distrib_left_numeral)
qed

lemma decode2_nats:
  "njs_utf8_decode2 b p = (v, p') \<and> v \<noteq> 0xFFFFFFFF \<longleftrightarrow>
   128 \<le> unat v \<and> unat v < 0x110000 \<and> map unat (b # p) = utf8_nats (unat v) @ map unat p'"
  (is "?dec \<longleftrightarrow> ?enc")
proof -
  have head: "?enc \<Longrightarrow> unat v < 0x110000 \<and> unat b \<ge> 194 \<and> (unat b < 224 \<longleftrightarrow> unat v < 0x800) \<and>
      (unat b < 240 \<longleftrightarrow> unat v < 0x10000) \<and> unat b < 245"
    using utf8_nats_head [of "unat v" "map unat p'" "unat b" "map unat p"] by auto
  consider "unat b < 194" | "194 \<le> unat b" "unat b < 224" | "224 \<le> unat b" "unat b < 240"
    | "240 \<le> unat b" "unat b < 245" | "245 \<le> unat b" by linarith
  then show ?thesis
  proof cases
    case 1
    then show ?thesis using head by (auto simp: decode2_iff utf8_lead_nat)
  next
    case 2
    define h where "h = unat b - 192"
    then have h: "unat b = 192 + h" "2 \<le> h" "h < 32" using 2 by simp_all
    show ?thesis
      unfolding dec_two [OF h] cont_digits(1)
    proof (rule iffI)
      assume ?enc
      with head h have "\<not> unat v < 0x80" "unat v < 0x800" by auto
      with \<open>?enc\<close> h show "(\<exists>x. p = x # p' \<and> h = unat v div 64 \<and> unat x = 128 + unat v mod 64)"
        by (auto simp: utf8_nats_def)
    qed (use h in \<open>auto simp: utf8_nats_def\<close>)
  next
    case 3
    define h where "h = unat b - 224"
    then have h: "unat b = 224 + h" "h < 16" using 3 by simp_all
    show ?thesis
      unfolding dec_three [OF h] cont_digits(2)
    proof (rule iffI)
      assume ?enc
      with head h have "\<not> unat v < 0x80" "\<not> unat v < 0x800" "unat v < 0x10000" by auto
      with \<open>?enc\<close> h show "(\<exists>x y. p = x # y # p' \<and> h = unat v div 4096 \<and> unat x = 128 + unat v div 64 mod 64 \<and> unat y = 128 + unat v mod 64) \<and> 0x800 \<le> unat v"
        by (auto simp: utf8_nats_def)
    qed (use h in \<open>auto simp: utf8_nats_def\<close>)
  next
    case 4
    define h where "h = unat b - 240"
    then have h: "unat b = 240 + h" "h < 5" using 4 by simp_all
    show ?thesis
      unfolding dec_four [OF h] cont_digits(3)
    proof (rule iffI)
      assume ?enc
      with head h have "\<not> unat v < 0x80" "\<not> unat v < 0x10000" "unat v < 0x110000" by auto
      with \<open>?enc\<close> h show "(\<exists>x y z. p = x # y # z # p' \<and> h = unat v div 262144 \<and> unat x = 128 + unat v div 4096 mod 64 \<and> unat y = 128 + unat v div 64 mod 64 \<and> unat z = 128 + unat v mod 64) \<and> 0x10000 \<le> unat v \<and> unat v < 0x110000"
        by (auto simp: utf8_nats_def)
    qed (use h in \<open>auto simp: utf8_nats_def\<close>)
  next
    case 5
    then show ?thesis using head by (auto simp: decode2_iff utf8_lead_nat)
  qed
qed

section \<open>Encoder and decoder are inverse\<close>

abbreviation utf8_scalar :: "u32 \<Rightarrow> bool" where
  "utf8_scalar u \<equiv> unat u < 0x110000"

lemma encode_Some_iff:
  "njs_utf8_encode u = Some e \<longleftrightarrow> utf8_scalar u \<and> map unat e = utf8_nats (unat u)"
proof -
  have "njs_utf8_encode u = Some e \<longleftrightarrow> map_option (map unat) (njs_utf8_encode u) = Some (map unat e)"
    by (cases "njs_utf8_encode u") auto
  then show ?thesis by (auto simp: encode_nats)
qed

lemma decode_nats:
  "njs_utf8_decode b p = (v, p') \<and> v \<noteq> 0xFFFFFFFF \<longleftrightarrow>
   utf8_scalar v \<and> map unat (b # p) = utf8_nats (unat v) @ map unat p'"
proof (cases "unat b < 128")
  case True
  then show ?thesis
    using utf8_nats_head(1) [of "unat v" "map unat p'" "unat b" "map unat p"]
    by (auto simp: njs_utf8_decode_def word_less_nat_alt unat_ucast_up u32_eq_iff utf8_nats_def)
next
  case False
  then have "njs_utf8_decode b p = njs_utf8_decode2 b p"
    by (simp add: njs_utf8_decode_def word_less_nat_alt unat_ucast_up)
  moreover have "map unat (b # p) = utf8_nats (unat v) @ map unat p' \<Longrightarrow> \<not> unat v < 128"
    using False by (auto simp: utf8_nats_def)
  ultimately show ?thesis
    using decode2_nats [of b p v p'] by auto
qed

lemma decode_iff_encode:
  "(njs_utf8_decode b p = (v, p') \<and> v \<noteq> 0xFFFFFFFF) = (\<exists>e. njs_utf8_encode v = Some e \<and> b # p = e @ p')"
proof -
  have "map unat (b # p) = utf8_nats (unat v) @ map unat p' \<longleftrightarrow>
    (\<exists>e. map unat e = utf8_nats (unat v) \<and> b # p = e @ p')"
    by (subst map_unat_append) auto
  then show ?thesis unfolding decode_nats encode_Some_iff by auto
qed

text \<open>
  C14. Decoding is exactly the inverse of encoding: the decoder succeeds with a character and
  a new cursor if and only if the bytes read are the encoding of that character. So it
  accepts what the encoder writes, consumes all of it, and rejects overlong, truncated
  and out-of-range sequences.
\<close>

theorem utf8_decode_iff_encode:
  "(njs_utf8_decode b p = (v, p') \<and> v \<noteq> 0xFFFFFFFF) = (\<exists>e. njs_utf8_encode v = Some e \<and> b # p = e @ p')"
  by (rule decode_iff_encode)

lemma encode_decode:
  "njs_utf8_encode v = Some (b # e) \<Longrightarrow> njs_utf8_decode b (e @ p) = (v, p) \<and> v \<noteq> 0xFFFFFFFF"
  using decode_nats [of b "e @ p" v p] by (simp add: encode_Some_iff)

lemma encode_nonempty: "njs_utf8_encode v = Some e \<Longrightarrow> e \<noteq> []"
  by (auto simp: encode_Some_iff utf8_nats_def split: if_splits)

definition utf8_text :: "u32 list \<Rightarrow> bytes" where
  "utf8_text us = concat (map (\<lambda>u. the (njs_utf8_encode u)) us)"

lemma utf8_text_simps [simp]:
  "utf8_text [] = []"
  "utf8_text (u # us) = the (njs_utf8_encode u) @ utf8_text us"
  by (simp_all add: utf8_text_def)

lemma scalar_encode:
  assumes "utf8_scalar u"
  obtains b e where "njs_utf8_encode u = Some (b # e)"
proof -
  from assms have "njs_utf8_encode u \<noteq> None"
    using encode_nats [of u] by auto
  then show thesis using that encode_nonempty by (metis list.exhaust not_None_eq)
qed

lemma decode_cases:
  obtains (invalid) p' where "njs_utf8_decode b p = (0xFFFFFFFF, p')"
          "\<nexists>v e p'. utf8_scalar v \<and> njs_utf8_encode v = Some e \<and> b # p = e @ p'"
  | (valid) v p' e where "njs_utf8_decode b p = (v, p')" "v \<noteq> 0xFFFFFFFF" "utf8_scalar v"
      "njs_utf8_encode v = Some (b # e)" "p = e @ p'"
proof -
  obtain v p' where d: "njs_utf8_decode b p = (v, p')" by fastforce
  show thesis
  proof (cases "v = 0xFFFFFFFF")
    case True
    with d show ?thesis
      using invalid decode_iff_encode [of b p] by (metis prod.inject)
  next
    case False
    with d obtain e where "njs_utf8_encode v = Some e" "b # p = e @ p'"
      using decode_iff_encode by metis
    with d False show ?thesis
      using valid [of v p'] encode_nonempty [of v e]
      by (auto simp: Cons_eq_append_conv encode_Some_iff)
  qed
qed

lemma is_valid_text: "list_all utf8_scalar us \<Longrightarrow> njs_utf8_is_valid (utf8_text us)"
  by (induction us) (auto elim!: scalar_encode simp: encode_decode)

lemma length_loop_text:
  "list_all utf8_scalar us \<Longrightarrow> utf8_length_loop (utf8_text us) n = n + int (length us)"
  by (induction us arbitrary: n) (auto elim!: scalar_encode simp: encode_decode)

lemma valid_is_text: "njs_utf8_is_valid p \<Longrightarrow> \<exists>us. list_all utf8_scalar us \<and> p = utf8_text us"
proof (induction p rule: njs_utf8_is_valid.induct)
  case (2 b p)
  show ?case
  proof (cases b p rule: decode_cases)
    case invalid
    with 2(2) show ?thesis by simp
  next
    case (valid v p' e)
    with 2 obtain us where "list_all utf8_scalar us" "p' = utf8_text us" by auto
    with valid show ?thesis by (intro exI [of _ "v # us"]) simp
  qed
qed (auto intro: exI [of _ "[]"])

lemma length_loop_invalid: "\<not> njs_utf8_is_valid p \<Longrightarrow> utf8_length_loop p n = -1"
  by (induction p n rule: utf8_length_loop.induct) (auto split: prod.splits if_splits)

text \<open>
  C15. The validity test accepts exactly the concatenations of encoded characters.
\<close>

theorem utf8_is_valid_iff:
  "njs_utf8_is_valid p = (\<exists>us. list_all utf8_scalar us \<and> p = utf8_text us)"
  using is_valid_text valid_is_text by blast

text \<open>
  The length is the number of characters of a valid string and -1 for an invalid one.
\<close>

theorem utf8_length_correct:
  "njs_utf8_length p = n \<longleftrightarrow>
   (n = -1 \<and> \<not> njs_utf8_is_valid p) \<or>
   (\<exists>us. list_all utf8_scalar us \<and> p = utf8_text us \<and> n = int (length us))"
proof (cases "njs_utf8_is_valid p")
  case True
  then obtain us where us: "list_all utf8_scalar us" "p = utf8_text us"
    using valid_is_text by blast
  have "njs_utf8_length (utf8_text vs) = int (length vs)" if "list_all utf8_scalar vs" for vs
    using length_loop_text [OF that, of 0] by (simp add: njs_utf8_length_def)
  with us True show ?thesis by metis
next
  case False
  then show ?thesis
    using is_valid_text by (auto simp: njs_utf8_length_def length_loop_invalid)
qed

section \<open>The replacing decoder\<close>

lemma safe_cont_eq:
  "utf8_cont n u p = Some (v, p') \<Longrightarrow> utf8_safe_cont n u p = Inr (v, 0, p')"
  by (induction n u p rule: utf8_cont.induct) (auto simp: Let_def split: if_splits)

lemma safe_cont_complete:
  "utf8_safe_cont n u p = Inr (v, 0, p') \<Longrightarrow> utf8_cont n u p = Some (v, p') \<and> n \<le> length p"
  by (induction n u p rule: utf8_cont.induct) (auto simp: Let_def split: if_splits)

lemma safe_decode_eq:
  assumes "njs_utf8_decode b p = (v, p')" "v \<noteq> 0xFFFFFFFF"
  shows "njs_utf8_safe_decode b p = (v, p')"
  using assms
  by (auto simp: njs_utf8_decode_def njs_utf8_decode2_def njs_utf8_safe_decode_def
      njs_utf8_safe_decode2_def Let_def dest!: safe_cont_eq
      split: if_splits option.splits)

lemma safe_decode_replaces:
  assumes "njs_utf8_decode b p = (0xFFFFFFFF, q)"
  shows "fst (njs_utf8_safe_decode b p) = NJS_UTF8_REPLACEMENT"
proof -
  from unat_u8_less [of b] have "unat b \<noteq> 0xFFFFFFFF" by linarith
  then have "\<not> (ucast b :: u32) = 0xFFFFFFFF"
    unfolding u32_eq_iff by (simp add: unat_ucast_up)
  with assms show ?thesis
    by (auto simp: njs_utf8_decode_def njs_utf8_decode2_def njs_utf8_safe_decode_def
        njs_utf8_safe_decode2_def Let_def dest!: safe_cont_complete
        split: if_splits option.splits sum.splits)
qed

function utf8_safe_chars :: "bytes \<Rightarrow> u32 list" where
  "utf8_safe_chars [] = []"
| "utf8_safe_chars (b # p) = (case njs_utf8_safe_decode b p of (u, p') \<Rightarrow> u # utf8_safe_chars p')"
  by pat_completeness auto
termination
  by (relation "measure length") (auto dest!: safe_decode_progress [OF sym])

lemma safe_decode_scalar: "njs_utf8_safe_decode b p = (v, p') \<Longrightarrow> utf8_scalar v"
proof (cases b p rule: decode_cases)
  case invalid
  assume "njs_utf8_safe_decode b p = (v, p')"
  with safe_decode_replaces [OF invalid(1)] show ?thesis
    by (simp add: NJS_UTF8_REPLACEMENT_def)
next
  case (valid w q e)
  assume "njs_utf8_safe_decode b p = (v, p')"
  with safe_decode_eq [OF valid(1,2)] valid(3) show ?thesis by simp
qed

lemma safe_chars_scalar: "list_all utf8_scalar (utf8_safe_chars p)"
  by (induction p rule: utf8_safe_chars.induct) (auto dest: safe_decode_scalar split: prod.splits)

lemma encode_length: "njs_utf8_encode u = Some e \<Longrightarrow> length e = njs_utf8_size u"
  by (auto simp: njs_utf8_encode_def njs_utf8_size_def split: if_splits)

lemma safe_length_loop_eq:
  "utf8_safe_length_loop p n k =
     (k + length (utf8_safe_chars p), n + length (utf8_text (utf8_safe_chars p)))"
proof (induction p n k rule: utf8_safe_length_loop.induct)
  case (2 b p sz len)
  obtain u p' where d: "njs_utf8_safe_decode b p = (u, p')" by fastforce
  then obtain e where "njs_utf8_encode u = Some e"
    using safe_decode_scalar scalar_encode by metis
  with 2 d show ?case by (simp add: encode_length)
qed simp

lemma safe_chars_valid: "njs_utf8_is_valid p \<Longrightarrow> utf8_text (utf8_safe_chars p) = p"
proof (induction p rule: njs_utf8_is_valid.induct)
  case (2 b p)
  show ?case
  proof (cases b p rule: decode_cases)
    case (valid v p' e)
    with 2 show ?thesis by (simp add: safe_decode_eq)
  qed (use 2 in simp)
qed simp

text \<open>
  The replacing decoder turns any bytes into characters that can be encoded again: the
  returned length is their number, the size written to \<open>out_size\<close> the length of their
  encoding, which is valid; the string is unchanged by it exactly when it was valid.
\<close>

theorem utf8_safe_length_correct:
  "njs_utf8_safe_length p = (length (utf8_safe_chars p), length (utf8_text (utf8_safe_chars p))) \<and>
   njs_utf8_is_valid (utf8_text (utf8_safe_chars p)) \<and>
   njs_utf8_is_valid p = (utf8_text (utf8_safe_chars p) = p)"
  using safe_chars_valid is_valid_text [OF safe_chars_scalar, of p]
  by (auto simp: njs_utf8_safe_length_def safe_length_loop_eq)

section \<open>Cursor movement over characters\<close>

lemma and_high_bits:
  "unat (c AND 0xC0) = unat c div 64 * 64" "unat (c AND 0x80) = unat c div 128 * 128" for c :: u8
proof -
  have m: "(0xC0 :: u8) = NOT (mask 6)" "(0x80 :: u8) = NOT (mask 7)"
    by (simp_all add: mask_eq_exp_minus_1)
  have "c AND NOT (mask n) = push_bit n (drop_bit n c)" for n
    by (rule bit_eqI) (auto simp: bit_simps)
  moreover have "unat c div 2 ^ n * 2 ^ n < 2 ^ LENGTH(8)" for n
    using order.strict_trans1 [OF div_times_less_eq_dividend unat_u8_less [of c]] by simp
  ultimately have "unat (c AND NOT (mask n)) = unat c div 2 ^ n * 2 ^ n" for n
    by (simp add: unat_shl unat_shr)
  from this [of 6] this [of 7]
  show "unat (c AND 0xC0) = unat c div 64 * 64" "unat (c AND 0x80) = unat c div 128 * 128"
    unfolding m by simp_all
qed

lemma cont_mask [simp]: "c AND 0xC0 = 0x80 \<longleftrightarrow> is_cont c"
  unfolding u8_eq_iff is_cont_def and_high_bits by simp linarith

lemma ascii_mask [simp]: "c AND 0x80 = 0 \<longleftrightarrow> unat c < 128" for c :: u8
proof -
  have "c AND 0x80 = 0 \<longleftrightarrow> unat (c AND 0x80) = 0" by (rule unsigned_eq_0_iff [symmetric])
  also have "\<dots> \<longleftrightarrow> unat c < 128" unfolding and_high_bits by (simp add: div_eq_0_iff)
  finally show ?thesis .
qed

lemma encode_shape:
  assumes "njs_utf8_encode u = Some e"
  obtains b cs where "e = b # cs" "\<not> is_cont b" "list_all is_cont cs" "cs = [] \<longleftrightarrow> unat b < 128"
proof -
  obtain b cs where e: "e = b # cs" using encode_nonempty [OF assms] by (cases e) auto
  show thesis
    by (rule that [OF e]) (use assms e in \<open>auto simp: encode_Some_iff utf8_nats_def is_cont_def
      map_eq_Cons_conv split: if_splits\<close>)
qed

definition char_boundary :: "bytes \<Rightarrow> bool" where
  "char_boundary p \<longleftrightarrow> (p = [] \<or> \<not> is_cont (hd p))"

lemma skip_cont_boundary:
  "list_all is_cont cs \<Longrightarrow> cs \<noteq> [] \<Longrightarrow> char_boundary p \<Longrightarrow> utf8_skip_cont (cs @ p) = Some p"
proof (induction cs)
  case (Cons c cs)
  then show ?case by (cases p; cases cs) (auto simp: char_boundary_def)
qed simp

lemma copy_cont_boundary:
  "list_all is_cont cs \<Longrightarrow> cs \<noteq> [] \<Longrightarrow> char_boundary p \<Longrightarrow> utf8_copy_cont (cs @ p) = Some (cs, p)"
proof (induction cs)
  case (Cons c cs)
  then show ?case by (cases p; cases cs) (auto simp: char_boundary_def)
qed simp

lemma prev_cont: "list_all is_cont cs \<Longrightarrow> njs_utf8_prev (rev cs @ p) = njs_utf8_prev p"
  by (induction cs arbitrary: p) auto

lemma text_boundary: "list_all utf8_scalar us \<Longrightarrow> char_boundary (utf8_text us)"
proof (cases us)
  case (Cons u vs)
  assume "list_all utf8_scalar us"
  with Cons obtain e where "njs_utf8_encode u = Some e" by (auto elim: scalar_encode)
  with Cons show ?thesis by (auto simp: char_boundary_def elim: encode_shape)
qed (simp add: char_boundary_def)

text \<open>
  On a character followed by a valid string, \<open>njs_utf8_next\<close> and \<open>njs_utf8_copy\<close> stop at
  the next character without reading past the end, and \<open>njs_utf8_prev\<close> steps back over
  it.
\<close>

theorem utf8_cursor_moves:
  assumes "njs_utf8_encode u = Some e" "njs_utf8_is_valid p"
  shows "njs_utf8_next (e @ p) = Some p \<and> njs_utf8_copy (e @ p) = Some (e, p) \<and>
    njs_utf8_prev (rev e @ before) = Some before"
proof -
  obtain us where "list_all utf8_scalar us" "p = utf8_text us"
    using valid_is_text [OF assms(2)] by blast
  then have p: "char_boundary p" by (simp add: text_boundary)
  obtain b cs where e: "e = b # cs" "\<not> is_cont b" "list_all is_cont cs" "cs = [] \<longleftrightarrow> unat b < 128"
    using assms(1) by (rule encode_shape)
  then show ?thesis
    using p by (cases "cs = []") (auto simp: skip_cont_boundary copy_cont_boundary prev_cont)
qed

lemma utf8_cursor_moves_witness:
  "njs_utf8_next [0xE2, 0x82, 0xAC, 0x61] = Some [0x61] \<and>
   njs_utf8_copy [0xE2, 0x82, 0xAC, 0x61] = Some ([0xE2, 0x82, 0xAC], [0x61]) \<and>
   njs_utf8_prev [0xAC, 0x82, 0xE2, 0x62] = Some [0x62]"
proof -
  have e: "njs_utf8_encode 0x20AC = Some [0xE2, 0x82, 0xAC]" by (simp add: njs_utf8_encode_def)
  have v: "njs_utf8_is_valid [0x61]" by (simp add: njs_utf8_decode_def Let_def)
  show ?thesis using utf8_cursor_moves [OF e v, of "[0x62]"] by simp
qed

section \<open>Case-insensitive comparison\<close>

text \<open>What the lookup in the tables gives for a decoded character.\<close>

definition lower_of :: "case_table \<Rightarrow> u32 \<Rightarrow> u32" where
  "lower_of t u =
     (if u < 0x80 then block_000 t ! unat u
      else if u \<le> NJS_UNICODE_MAX_LOWER_CASE then
        (case case_blocks t ! (unat u div NJS_UNICODE_BLOCK_SIZE) of
           Some block \<Rightarrow> block ! (unat u mod NJS_UNICODE_BLOCK_SIZE)
         | None \<Rightarrow> u)
      else u)"

definition first_difference :: "(u32 \<Rightarrow> u32) \<Rightarrow> u32 list \<Rightarrow> u32 list \<Rightarrow> int" where
  "first_difference f us vs =
     (case dropWhile (\<lambda>(u, v). f u = f v) (zip us vs) of
        [] \<Rightarrow> 0
      | (u, v) # _ \<Rightarrow> uint (f u) - uint (f v))"

lemma lower_case_encoded:
  assumes "njs_utf8_encode v = Some (b # e)"
  shows "njs_utf8_lower_case t b (e @ p) = (lower_of t v, p)"
proof -
  have d: "njs_utf8_decode b (e @ p) = (v, p)" using encode_decode [OF assms] by simp
  show ?thesis
  proof (cases "unat b < 128")
    case True
    with d have "v = ucast b" "e = []"
      by (auto simp: njs_utf8_decode_def Let_def word_less_nat_alt unat_ucast_up)
    with True show ?thesis
      by (simp add: njs_utf8_lower_case_def lower_of_def Let_def word_less_nat_alt unat_ucast_up)
  next
    case False
    with d have d2: "njs_utf8_decode2 b (e @ p) = (v, p)"
      by (auto simp: njs_utf8_decode_def Let_def word_less_nat_alt unat_ucast_up)
    moreover have "\<not> v < 0x80"
      using decode2_nats [of b "e @ p" v p] d2 encode_decode [OF assms, of p]
      by (auto simp: word_less_nat_alt)
    ultimately show ?thesis
      using False
      by (simp add: njs_utf8_lower_case_def lower_of_def Let_def word_less_nat_alt unat_ucast_up
          split: option.splits)
  qed
qed

lemma uint_scalar: "unat w < 0x110000 \<Longrightarrow> uint w < 0x110000" for w :: u32
  by (simp add: nat_less_iff flip: nat_uint_eq)

lemma sint_diff_scalar:
  assumes "unat u < 0x110000" "unat v < 0x110000"
  shows "sint (u - v :: u32) = uint u - uint v"
proof -
  have small: "signed_take_bit 31 k = k" if "-0x110000 \<le> k" "k < 0x110000" for k :: int
    using that by (simp add: signed_take_bit_int_eq_self_iff)
  have "0 \<le> uint u" "uint u < 0x110000" "0 \<le> uint v" "uint v < 0x110000"
    using assms uint_scalar by auto
  then have "signed_take_bit 31 (uint u) = uint u" "signed_take_bit 31 (uint v) = uint v"
    "signed_take_bit 31 (uint u - uint v) = uint u - uint v"
    by (intro small; linarith)+
  moreover from this have "sint u = uint u" "sint v = uint v" by (simp_all add: sint_uint)
  ultimately show ?thesis by (simp add: sint_word_ariths)
qed

lemma or_scalar:
  assumes "unat u < 0x110000" "unat v < 0x110000"
  shows "(u OR v :: u32) \<noteq> 0xFFFFFFFF"
proof -
  have "take_bit 21 w = w" if "unat w < 0x110000" for w :: u32
    using that by (simp add: word_unat_eq_iff unsigned_take_bit_eq take_bit_nat_eq_self)
  with assms have "take_bit 21 (u OR v) = u OR v" by (simp add: take_bit_or)
  moreover have "take_bit 21 (0xFFFFFFFF :: u32) \<noteq> 0xFFFFFFFF" by simp
  ultimately show ?thesis by metis
qed

lemma first_difference_simps [simp]:
  "first_difference f [] vs = 0" "first_difference f us [] = 0"
  "first_difference f (u # us) (v # vs) =
     (if f u = f v then first_difference f us vs else uint (f u) - uint (f v))"
  by (simp_all add: first_difference_def)

text \<open>
  C16. Case-insensitive comparison of two valid strings is the first difference between
  their folded characters, and no difference is mistaken for the error value, when
  the case table maps characters to characters.
\<close>

theorem utf8_casecmp_text:
  assumes scalar: "\<And>u. utf8_scalar u \<Longrightarrow> utf8_scalar (lower_of t u)"
    and us: "list_all utf8_scalar us" and vs: "list_all utf8_scalar vs"
  shows "njs_utf8_casecmp t (utf8_text us) (utf8_text vs) = first_difference (lower_of t) us vs \<and>
    njs_utf8_casecmp t (utf8_text us) (utf8_text vs) \<noteq> NJS_UTF8_SORT_INVALID"
  using us vs
proof (induction us arbitrary: vs)
  case Nil
  show ?case by (simp add: NJS_UTF8_SORT_INVALID_def)
next
  case (Cons u us)
  show ?case
  proof (cases vs)
    case Nil
    then show ?thesis
      by (cases "utf8_text (u # us)") (simp_all add: NJS_UTF8_SORT_INVALID_def)
  next
    case vs: (Cons v vs')
    with Cons.prems have sc: "utf8_scalar u" "utf8_scalar v" by simp_all
    then obtain b e c f where "njs_utf8_encode u = Some (b # e)" "njs_utf8_encode v = Some (c # f)"
      by (metis scalar_encode)
    then have enc: "the (njs_utf8_encode u) = b # e" "the (njs_utf8_encode v) = c # f"
      "njs_utf8_lower_case t b (e @ utf8_text us) = (lower_of t u, utf8_text us)"
      "njs_utf8_lower_case t c (f @ utf8_text vs') = (lower_of t v, utf8_text vs')"
      by (simp_all add: lower_case_encoded)
    let ?u = "lower_of t u" and ?v = "lower_of t v"
    have "?u OR ?v \<noteq> 0xFFFFFFFF" "sint (?u - ?v) = uint ?u - uint ?v"
      using scalar [OF sc(1)] scalar [OF sc(2)] or_scalar sint_diff_scalar by auto
    moreover have "uint ?u - uint ?v \<noteq> 0x0EEE0EEE"
      using uint_scalar [OF scalar [OF sc(1)]] uint_ge_0 [of ?v] by linarith
    ultimately show ?thesis
      using Cons.IH [of vs'] Cons.prems vs
      by (auto simp: enc NJS_UTF8_SORT_INVALID_def word_uint_eq_iff)
  qed
qed

lemma utf8_casecmp_text_witness:
  "njs_utf8_casecmp \<lparr>block_000 = map of_nat [0..<128], case_blocks = replicate 979 None\<rparr>
     (utf8_text [0x61, 0x20AC]) (utf8_text [0x61, 0x62]) = 0x20AC - 0x62"
proof -
  let ?t = "\<lparr>block_000 = map of_nat [0..<128], case_blocks = replicate 979 None\<rparr> :: case_table"
  have id: "lower_of ?t u = u" if "utf8_scalar u" for u
  proof (cases "u < 0x80")
    case True
    then show ?thesis by (simp add: lower_of_def word_less_nat_alt)
  next
    case False
    have "unat u div 128 < 979" if "u \<le> NJS_UNICODE_MAX_LOWER_CASE"
      using that by (simp add: NJS_UNICODE_MAX_LOWER_CASE_def word_le_nat_alt)
    with False show ?thesis by (simp add: lower_of_def NJS_UNICODE_BLOCK_SIZE_def)
  qed
  have "first_difference (lower_of ?t) [0x61, 0x20AC] [0x61, 0x62] = 0x20AC - 0x62"
    by (simp add: id)
  then show ?thesis
    using utf8_casecmp_text [of ?t "[0x61, 0x20AC]" "[0x61, 0x62]"] id by simp
qed

end
