(* ===== verification/Njs_String.thy ===== *)
theory Njs_String
  imports Njs_Utf8
begin

text \<open>
  String values (\<open>src/src/njs_string.h\<close> and the first part of \<open>src/src/njs_string.c\<close>): a string
  is its bytes and its length in characters, zero for a byte string; a long string of more
  than 32 characters that is not plain ASCII has a map of the byte offsets of every 32nd
  character behind its bytes. Modelled are the allocation, the computation of the length, the
  map, and the two conversions between character positions and byte offsets that use it.

  An allocation that fails for lack of memory is not modelled.
\<close>

section \<open>Values and allocation\<close>

text \<open>
  \<open>str_map\<close> holds the words that are allocated behind the bytes: none for a short string
  and for a string that was allocated without a map.
\<close>

record njs_string =
  str_start :: bytes
  str_length :: nat
  str_map :: "u32 list"

abbreviation str_size :: "njs_string \<Rightarrow> nat" where
  "str_size s \<equiv> length (str_start s)"

definition NJS_STRING_MAX_LENGTH :: nat where
  "NJS_STRING_MAX_LENGTH = 0x7fffffff"

definition NJS_STRING_SHORT :: nat where
  "NJS_STRING_SHORT = 14"

definition NJS_STRING_MAP_STRIDE :: nat where
  "NJS_STRING_MAP_STRIDE = 32"

text \<open>The macro counts bytes; here the words.\<close>

definition njs_string_map_size :: "nat \<Rightarrow> nat" where
  "njs_string_map_size len = (len - 1) div NJS_STRING_MAP_STRIDE"

text \<open>
  The new value, its bytes still to be written by the caller. Of a new map only the first
  word is set.
\<close>

definition njs_string_alloc :: "nat \<Rightarrow> nat \<Rightarrow> njs_error + njs_string" where
  "njs_string_alloc sz len =
     (if sz > NJS_STRING_MAX_LENGTH then Inl (Range_error (ascii ''invalid string length''))
      else if sz \<le> NJS_STRING_SHORT then
        Inr \<lparr>str_start = replicate sz 0, str_length = len, str_map = []\<rparr>
      else if sz \<noteq> len \<and> len > NJS_STRING_MAP_STRIDE then
        Inr \<lparr>str_start = replicate sz 0, str_length = len,
             str_map = replicate (njs_string_map_size len) 0\<rparr>
      else Inr \<lparr>str_start = replicate sz 0, str_length = len, str_map = []\<rparr>)"

definition njs_string_new :: "bytes \<Rightarrow> nat \<Rightarrow> njs_error + njs_string" where
  "njs_string_new start len =
     (case njs_string_alloc (length start) len of
        Inl e \<Rightarrow> Inl e
      | Inr s \<Rightarrow> Inr (s\<lparr>str_start := start\<rparr>))"

datatype njs_utf8_t = NJS_STRING_BYTE | NJS_STRING_ASCII | NJS_STRING_UTF8

definition njs_string_calc_length :: "njs_utf8_t \<Rightarrow> bytes \<Rightarrow> nat" where
  "njs_string_calc_length utf8 start =
     (case utf8 of
        NJS_STRING_BYTE \<Rightarrow> 0
      | NJS_STRING_ASCII \<Rightarrow> length start
      | NJS_STRING_UTF8 \<Rightarrow> let len = njs_utf8_length start in if len \<ge> 0 then nat len else 0)"

definition njs_string_length :: "njs_string \<Rightarrow> nat" where
  "njs_string_length s = (if str_length s = 0 then str_size s else str_length s)"

text \<open>
  \<open>njs_string_validate\<close>: the length of the value, computed and stored when it is not known
  yet, or a negative result; a long string is copied to get room for its map.
\<close>

definition njs_string_validate :: "njs_string \<Rightarrow> int \<times> njs_string" where
  "njs_string_validate s =
     (let sz = str_size s; len = str_length s
      in if sz \<le> NJS_STRING_SHORT then
           if len = 0 \<and> len \<noteq> sz then
             let len = njs_utf8_length (str_start s)
             in if len < 0 then (len, s) else (len, s\<lparr>str_length := nat len\<rparr>)
           else (int len, s)
         else
           if len = 0 \<and> len \<noteq> sz then
             let len = njs_utf8_length (str_start s)
             in if len \<noteq> int sz then
                  if len < 0 then (len, s)
                  else if len > int NJS_STRING_MAP_STRIDE then
                    (len, s\<lparr>str_map := replicate (njs_string_map_size (nat len)) 0,
                               str_length := nat len\<rparr>)
                  else (len, s\<lparr>str_length := nat len\<rparr>)
                else (len, s\<lparr>str_length := nat len\<rparr>)
           else (int len, s))"

section \<open>The offset map\<close>

text \<open>
  \<open>njs_string_offset_map_init\<close> writes into the words behind the string; a store past the
  last one, and a step of the cursor past the end, is \<^const>\<open>None\<close>. \<open>pos\<close> is \<open>p - start\<close>.
\<close>

function offset_map_loop :: "bytes \<Rightarrow> nat \<Rightarrow> nat \<Rightarrow> nat \<Rightarrow> u32 list \<Rightarrow> u32 list option" where
  "offset_map_loop p pos offset n m =
     (if offset = 0 \<and> n \<ge> length m then None
      else let (n, m, offset) =
             (if offset = 0 then (n + 1, m[n := of_nat pos], NJS_STRING_MAP_STRIDE) else (n, m, offset))
           in case njs_utf8_next p of
                None \<Rightarrow> None
              | Some p' \<Rightarrow>
                  if p' = [] then Some m
                  else offset_map_loop p' (pos + (length p - length p')) (offset - 1) n m)"
  by pat_completeness auto

lemma skip_cont_length: "utf8_skip_cont p = Some p' \<Longrightarrow> length p' \<le> length p"
  by (induction p rule: utf8_skip_cont.induct) (auto split: if_splits)

lemma next_length: "njs_utf8_next p = Some p' \<Longrightarrow> length p' < length p"
  by (induction p rule: njs_utf8_next.induct) (auto dest: skip_cont_length split: if_splits)

termination offset_map_loop
  by (relation "measure (\<lambda>(p, _). length p)") (auto dest!: next_length)

declare offset_map_loop.simps [simp del]

definition njs_string_offset_map_init :: "bytes \<Rightarrow> u32 list \<Rightarrow> u32 list option" where
  "njs_string_offset_map_init start m = offset_map_loop start 0 NJS_STRING_MAP_STRIDE 0 m"

text \<open>The map as both users get it: checked by its first word, filled on demand.\<close>

definition offset_map :: "njs_string \<Rightarrow> u32 list option" where
  "offset_map s =
     (case str_map s of
        [] \<Rightarrow> None
      | w # _ \<Rightarrow> if w = 0 then njs_string_offset_map_init (str_start s) (str_map s) else Some (str_map s))"

fun skip_chars :: "nat \<Rightarrow> bytes \<Rightarrow> bytes option" where
  "skip_chars 0 p = Some p"
| "skip_chars (Suc skip) p =
     (case njs_utf8_next p of None \<Rightarrow> None | Some p' \<Rightarrow> skip_chars skip p')"

text \<open>The bytes from the returned position on.\<close>

definition njs_string_offset :: "njs_string \<Rightarrow> nat \<Rightarrow> bytes option" where
  "njs_string_offset s index =
     (if index \<ge> NJS_STRING_MAP_STRIDE then
        case offset_map s of
          None \<Rightarrow> None
        | Some m \<Rightarrow>
            if index div NJS_STRING_MAP_STRIDE - 1 < length m then
              skip_chars (index mod NJS_STRING_MAP_STRIDE)
                (drop (unat (m ! (index div NJS_STRING_MAP_STRIDE - 1))) (str_start s))
            else None
      else skip_chars (index mod NJS_STRING_MAP_STRIDE) (str_start s))"

text \<open>
  The two loops of \<open>njs_string_index\<close>: over the words of the map, then over the characters
  up to \<open>offset\<close>.
\<close>

fun index_map_loop :: "nat \<Rightarrow> nat \<Rightarrow> u32 list \<Rightarrow> nat \<Rightarrow> nat \<Rightarrow> (nat \<times> nat) option" where
  "index_map_loop len offset m lst index =
     (if index + NJS_STRING_MAP_STRIDE < len then
        case m of
          [] \<Rightarrow> None
        | w # m' \<Rightarrow>
            if unat w \<le> offset then index_map_loop len offset m' (unat w) (index + NJS_STRING_MAP_STRIDE)
            else Some (lst, index)
      else Some (lst, index))"

function index_char_loop :: "bytes \<Rightarrow> nat \<Rightarrow> nat \<Rightarrow> nat \<Rightarrow> nat option" where
  "index_char_loop p pos start index =
     (if pos < start then
        case njs_utf8_next p of
          None \<Rightarrow> None
        | Some p' \<Rightarrow> index_char_loop p' (pos + (length p - length p')) start (index + 1)
      else Some index)"
  by pat_completeness auto
termination
  by (relation "measure (\<lambda>(p, _). length p)") (auto dest!: next_length)

declare index_map_loop.simps [simp del] index_char_loop.simps [simp del]

definition njs_string_index :: "njs_string \<Rightarrow> nat \<Rightarrow> nat option" where
  "njs_string_index s offset =
     (if str_size s = str_length s then Some offset
      else if str_length s \<ge> NJS_STRING_MAP_STRIDE then
        case offset_map s of
          None \<Rightarrow> None
        | Some m \<Rightarrow>
            (case index_map_loop (str_length s) offset m 0 0 of
               None \<Rightarrow> None
             | Some (lst, index) \<Rightarrow> index_char_loop (drop lst (str_start s)) lst offset index)
      else index_char_loop (str_start s) 0 offset 0)"

section \<open>Characters and offsets\<close>

lemma next_text:
  "utf8_scalar u \<Longrightarrow> list_all utf8_scalar us \<Longrightarrow> njs_utf8_next (utf8_text (u # us)) = Some (utf8_text us)"
proof -
  assume "utf8_scalar u" and us: "list_all utf8_scalar us"
  then obtain e where enc: "njs_utf8_encode u = Some e" by (metis scalar_encode)
  then obtain b cs where "e = b # cs" "\<not> is_cont b" "list_all is_cont cs" "cs = [] \<longleftrightarrow> unat b < 128"
    by (rule encode_shape)
  with enc text_boundary [OF us] show ?thesis
    by (cases "cs = []") (auto simp: skip_cont_boundary)
qed

text \<open>The byte offset of the \<open>k\<close>-th character.\<close>

definition char_offset :: "u32 list \<Rightarrow> nat \<Rightarrow> nat" where
  "char_offset us k = length (utf8_text (take k us))"

lemma utf8_text_append: "utf8_text (us @ vs) = utf8_text us @ utf8_text vs"
  by (simp add: utf8_text_def)

lemma text_empty [simp]: "list_all utf8_scalar us \<Longrightarrow> utf8_text us = [] \<longleftrightarrow> us = []"
  by (cases us) (auto elim!: scalar_encode)

lemma text_split: "utf8_text us = utf8_text (take k us) @ utf8_text (drop k us)"
  by (simp flip: utf8_text_append)

lemma drop_char_offset: "drop (char_offset us k) (utf8_text us) = utf8_text (drop k us)"
  by (subst text_split [of us k]) (simp add: char_offset_def)

lemma scalars_drop: "list_all utf8_scalar us \<Longrightarrow> list_all utf8_scalar (drop k us)"
  by (auto simp: list_all_iff dest: in_set_dropD)

lemma char_offset_0 [simp]: "char_offset us 0 = 0" by (simp add: char_offset_def)

lemma char_offset_Suc:
  "k < length us \<Longrightarrow> length (utf8_text (drop k us)) = length (utf8_text (drop (Suc k) us)) + (char_offset us (Suc k) - char_offset us k)
   \<and> char_offset us k \<le> char_offset us (Suc k)"
  by (simp add: char_offset_def take_Suc_conv_app_nth utf8_text_append flip: Cons_nth_drop_Suc)

lemma char_offset_step:
  "k < length us \<Longrightarrow> char_offset us k + (length (utf8_text (drop k us)) - length (utf8_text (drop (Suc k) us))) =
     char_offset us (Suc k)"
  using char_offset_Suc [of k us] by simp

lemma char_offset_less:
  assumes "list_all utf8_scalar us" "k < length us"
  shows "char_offset us k < char_offset us (Suc k)"
proof -
  have "utf8_scalar (us ! k)" using assms by (simp add: list_all_length)
  then have "the (njs_utf8_encode (us ! k)) \<noteq> []" by (auto elim!: scalar_encode)
  with assms show ?thesis
    by (simp add: char_offset_def take_Suc_conv_app_nth utf8_text_append)
qed

lemma char_offset_mono:
  assumes "list_all utf8_scalar us" "i < j" "j \<le> length us"
  shows "char_offset us i < char_offset us j"
  using assms(2,3)
proof (induction j)
  case (Suc j)
  then show ?case using char_offset_less [OF assms(1), of j]
    by (cases "i = j") (auto intro: less_trans)
qed simp

lemma char_offset_le_iff:
  "list_all utf8_scalar us \<Longrightarrow> i \<le> length us \<Longrightarrow> j \<le> length us \<Longrightarrow> char_offset us i \<le> char_offset us j \<longleftrightarrow> i \<le> j"
  using char_offset_mono [of us i j] char_offset_mono [of us j i]
  by (cases i j rule: linorder_cases) auto

lemma char_offset_size: "char_offset us k \<le> length (utf8_text us)"
  by (subst text_split [of us k]) (simp add: char_offset_def)

lemma next_drop:
  assumes "list_all utf8_scalar us" "k < length us"
  shows "njs_utf8_next (utf8_text (drop k us)) = Some (utf8_text (drop (Suc k) us))"
proof -
  have "utf8_scalar (us ! k)" using assms by (simp add: list_all_length)
  moreover have "drop k us = us ! k # drop (Suc k) us" using assms(2) by (simp add: Cons_nth_drop_Suc)
  ultimately show ?thesis using next_text scalars_drop [OF assms(1)] by metis
qed

lemma skip_chars_text:
  "list_all utf8_scalar us \<Longrightarrow> k \<le> length us \<Longrightarrow> skip_chars k (utf8_text us) = Some (utf8_text (drop k us))"
proof (induction k arbitrary: us)
  case (Suc k)
  then obtain u vs where "us = u # vs" by (cases us) auto
  with Suc show ?case using next_text [of u vs] by (simp del: utf8_text_simps(2))
qed simp

lemma text_length_ge: "list_all utf8_scalar us \<Longrightarrow> length us \<le> length (utf8_text us)"
proof (induction us)
  case (Cons u us)
  then obtain b e where "njs_utf8_encode u = Some (b # e)" by (auto elim: scalar_encode)
  with Cons show ?case by simp
qed simp

lemma ascii_text_offset:
  assumes us: "list_all utf8_scalar us" and len: "length (utf8_text us) = length us" and k: "k \<le> length us"
  shows "char_offset us k = k"
proof -
  have "list_all utf8_scalar (take k us)" using us by (auto simp: list_all_iff dest: in_set_takeD)
  then have "k \<le> char_offset us k" using text_length_ge [of "take k us"] k by (simp add: char_offset_def)
  moreover have "length us = char_offset us k + length (utf8_text (drop k us))"
    using len by (subst (asm) text_split [of us k]) (simp add: char_offset_def)
  moreover have "length us - k \<le> length (utf8_text (drop k us))"
    using text_length_ge [OF scalars_drop [OF us]] by simp
  ultimately show ?thesis using k by linarith
qed

section \<open>The map of a text\<close>

definition char_map :: "u32 list \<Rightarrow> u32 list" where
  "char_map us = map (\<lambda>k. of_nat (char_offset us (32 * (k + 1)))) [0..<njs_string_map_size (length us)]"

lemma length_char_map [simp]: "length (char_map us) = (length us - 1) div 32"
  by (simp add: char_map_def njs_string_map_size_def NJS_STRING_MAP_STRIDE_def)

lemma char_map_nth: "k < (length us - 1) div 32 \<Longrightarrow> char_map us ! k = of_nat (char_offset us (32 * (k + 1)))"
  by (simp add: char_map_def njs_string_map_size_def NJS_STRING_MAP_STRIDE_def)

lemma offset_map_loop_text:
  assumes us: "list_all utf8_scalar us" and i: "i < length us" and n: "n = (i - 1) div 32"
    and m: "length m = (length us - 1) div 32" "take n m = take n (char_map us)"
  shows "offset_map_loop (utf8_text (drop i us)) (char_offset us i) (32 - (i - 32 * n)) n m = Some (char_map us)"
  using i n m
proof (induction "length us - i" arbitrary: i n m rule: less_induct)
  case less
  let ?p' = "utf8_text (drop (Suc i) us)"
  have nxt: "njs_utf8_next (utf8_text (drop i us)) = Some ?p'" by (rule next_drop [OF us less.prems(1)])
  have pos: "char_offset us i + (length (utf8_text (drop i us)) - length ?p') = char_offset us (Suc i)"
    using less.prems(1) by (rule char_offset_step)
  have done': "?p' = [] \<longleftrightarrow> length us = Suc i"
    using us less.prems(1) by (simp add: scalars_drop) arith
  show ?case
  proof (cases "i = 32 * (n + 1)")
    case True
    let ?m = "m[n := of_nat (char_offset us i)]"
    have nl: "n < length m" using less.prems(1,3) True by simp
    have "take (n + 1) ?m = take n m @ [of_nat (char_offset us i)]"
      using nl by (simp add: take_Suc_conv_app_nth)
    also have "\<dots> = take (n + 1) (char_map us)"
      using nl less.prems(3,4) True by (simp add: take_Suc_conv_app_nth char_map_nth)
    finally have m': "take (n + 1) ?m = take (n + 1) (char_map us)" .
    have "offset_map_loop (utf8_text (drop i us)) (char_offset us i) (32 - (i - 32 * n)) n m =
        (if ?p' = [] then Some ?m else offset_map_loop ?p' (char_offset us (Suc i)) (32 - (Suc i - 32 * (n + 1))) (n + 1) ?m)"
    proof -
      have "32 - (i - 32 * n) = 0" "32 - (Suc i - 32 * (n + 1)) = 31" using True by simp_all
      then show ?thesis
        using nl by (subst offset_map_loop.simps) (simp add: nxt pos NJS_STRING_MAP_STRIDE_def)
    qed
    also have "\<dots> = Some (char_map us)"
    proof (cases "length us = Suc i")
      case l: True
      then have "n + 1 = (length us - 1) div 32" using True by simp
      with m' less.prems(3) have "?m = char_map us" by (metis length_char_map length_list_update take_all_iff order_refl)
      with l done' show ?thesis by simp
    next
      case False
      have "offset_map_loop ?p' (char_offset us (Suc i)) (32 - (Suc i - 32 * (n + 1))) (n + 1) ?m = Some (char_map us)"
      proof (rule less.hyps)
        show "length us - Suc i < length us - i" "Suc i < length us" using less.prems(1) False by simp_all
        show "n + 1 = (Suc i - 1) div 32" using True by (simp only: diff_Suc_1 nonzero_mult_div_cancel_left)
        show "length ?m = (length us - 1) div 32" using less.prems(3) by simp
      qed (rule m')
      with False done' show ?thesis by simp
    qed
    finally show ?thesis .
  next
    case False
    have "i - 1 = 32 * n + (i - 1) mod 32" "(i - 1) mod 32 < 32" using less.prems(2) by simp_all
    then obtain r where "i - 1 = 32 * n + r" "r < 32" by blast
    then have "32 * n \<le> i" "i \<le> 32 * n + 32" by linarith+
    with False have i32: "32 * n \<le> i" "i < 32 * Suc n" by simp_all
    then have nz: "32 - (i - 32 * n) \<noteq> 0" "i - 32 * n < 32" "n = (Suc i - 1) div 32"
      by (simp_all add: div_nat_eqI)
    have step: "31 - (i - 32 * n) = 32 - (Suc i - 32 * n)" using i32(1) by (simp add: Suc_diff_le)
    have "offset_map_loop (utf8_text (drop i us)) (char_offset us i) (32 - (i - 32 * n)) n m =
        (if ?p' = [] then Some m else offset_map_loop ?p' (char_offset us (Suc i)) (32 - (Suc i - 32 * n)) n m)"
      using nz(1) by (subst offset_map_loop.simps) (simp add: nxt pos step)
    also have "\<dots> = Some (char_map us)"
    proof (cases "length us = Suc i")
      case l: True
      then have "n = (length us - 1) div 32" using nz by simp
      with less.prems(3,4) have "m = char_map us" by (metis length_char_map take_all_iff order_refl)
      with l done' show ?thesis by simp
    next
      case False
      then have "offset_map_loop ?p' (char_offset us (Suc i)) (32 - (Suc i - 32 * n)) n m = Some (char_map us)"
        using less.prems(1) False less.prems(3,4) nz(3) by (intro less.hyps) simp_all
      with False done' show ?thesis by simp
    qed
    finally show ?thesis .
  qed
qed

lemma map_init_text:
  assumes "list_all utf8_scalar us" "us \<noteq> []" "length m = njs_string_map_size (length us)"
  shows "njs_string_offset_map_init (utf8_text us) m = Some (char_map us)"
  using offset_map_loop_text [of us 0 0 m] assms
  by (simp add: njs_string_offset_map_init_def NJS_STRING_MAP_STRIDE_def njs_string_map_size_def)


text \<open>
  A string value that holds a text: its length is known, and it has room for a map, filled
  or not, when the functions of this section may need one.
\<close>

definition holds_text :: "njs_string \<Rightarrow> u32 list \<Rightarrow> bool" where
  "holds_text s us \<longleftrightarrow>
     list_all utf8_scalar us \<and> str_start s = utf8_text us \<and> str_length s = length us \<and>
     str_size s \<le> NJS_STRING_MAX_LENGTH \<and>
     (if str_size s \<noteq> length us \<and> length us > NJS_STRING_MAP_STRIDE
      then str_map s = char_map us \<or>
        length (str_map s) = njs_string_map_size (length us) \<and> hd (str_map s) = 0
      else str_map s = [])"

lemma unat_char_offset:
  assumes "holds_text s us"
  shows "unat (of_nat (char_offset us k) :: u32) = char_offset us k"
proof -
  have "char_offset us k < 2 ^ 32"
  proof -
    have "length (utf8_text us) \<le> 0x7fffffff"
      using assms by (auto simp: holds_text_def NJS_STRING_MAX_LENGTH_def)
    with char_offset_size [of us k] show ?thesis by simp
  qed
  then show ?thesis by (simp add: unat_of_nat)
qed

lemma offset_map_text:
  assumes s: "holds_text s us" and len: "str_size s \<noteq> length us" "length us > 32"
  shows "offset_map s = Some (char_map us)"
proof -
  have us: "list_all utf8_scalar us" "us \<noteq> []" using s len(2) by (auto simp: holds_text_def)
  have map: "str_map s = char_map us \<or> length (str_map s) = njs_string_map_size (length us) \<and> hd (str_map s) = 0"
    using s len by (simp add: holds_text_def NJS_STRING_MAP_STRIDE_def)
  then have "length (str_map s) = njs_string_map_size (length us)"
    by (auto simp: njs_string_map_size_def NJS_STRING_MAP_STRIDE_def)
  then have init: "njs_string_offset_map_init (str_start s) (str_map s) = Some (char_map us)"
    using map_init_text [OF us] s by (simp add: holds_text_def)
  have "0 < (length us - 1) div 32" using len(2) by (simp add: div_greater_zero_iff)
  then have "str_map s \<noteq> []" using \<open>length (str_map s) = _\<close>
    by (auto simp: njs_string_map_size_def NJS_STRING_MAP_STRIDE_def)
  then show ?thesis using map init by (cases "str_map s") (auto simp: offset_map_def)
qed

text \<open>
  C20. A value made from a text by \<open>njs_string_new\<close> holds it, with its length in characters
  and room for its map, unless the text is too long, which is an exception.
\<close>

theorem string_new_holds:
  assumes "list_all utf8_scalar us"
  shows "if length (utf8_text us) > NJS_STRING_MAX_LENGTH
    then njs_string_new (utf8_text us) (length us) = Inl (Range_error (ascii ''invalid string length''))
    else \<exists>s. njs_string_new (utf8_text us) (length us) = Inr s \<and> holds_text s us \<and>
           njs_string_length s = length us"
proof -
  have "length us \<le> length (utf8_text us)" using assms by (rule text_length_ge)
  moreover have "hd (replicate (njs_string_map_size (length us)) 0) = (0 :: u32)"
    if "length us > NJS_STRING_MAP_STRIDE"
  proof -
    have "njs_string_map_size (length us) > 0"
      using that by (simp add: njs_string_map_size_def NJS_STRING_MAP_STRIDE_def div_greater_zero_iff)
    then show ?thesis by (cases "njs_string_map_size (length us)") simp_all
  qed
  ultimately show ?thesis
    using assms
    by (auto simp: njs_string_new_def njs_string_alloc_def holds_text_def njs_string_length_def
        NJS_STRING_SHORT_def NJS_STRING_MAP_STRIDE_def)
qed

theorem string_new_holds_witness:
  "\<exists>s. njs_string_new (utf8_text [0x20AC, 0x61]) (length [0x20AC :: u32, 0x61]) = Inr s \<and> holds_text s [0x20AC, 0x61]"
proof -
  have enc: "njs_utf8_encode 0x20AC = Some [0xE2, 0x82, 0xAC]" "njs_utf8_encode 0x61 = Some [0x61]"
    by (simp_all add: njs_utf8_encode_def)
  have "list_all utf8_scalar [0x20AC, 0x61]" by simp
  from string_new_holds [OF this] show ?thesis
    by (auto simp: enc NJS_STRING_MAX_LENGTH_def)
qed

text \<open>
  C21. \<open>njs_string_validate\<close> on a value of unknown length decides whether its bytes are valid:
  it returns the number of characters and leaves a value that holds them, or returns a
  negative result and leaves the value alone.
\<close>

theorem string_validate_correct:
  assumes "str_length s = 0" "str_map s = []" "str_size s \<le> NJS_STRING_MAX_LENGTH"
  shows "if njs_utf8_is_valid (str_start s)
    then \<exists>us s'. njs_string_validate s = (int (length us), s') \<and> holds_text s' us \<and> str_start s' = str_start s
    else njs_string_validate s = (-1, s)"
proof (cases "njs_utf8_is_valid (str_start s)")
  case False
  then have "njs_utf8_length (str_start s) = -1"
    by (simp add: njs_utf8_length_def length_loop_invalid)
  moreover from False have "str_start s \<noteq> []" by auto
  ultimately show ?thesis
    using False assms by (simp add: njs_string_validate_def Let_def)
next
  case True
  then obtain us where us: "list_all utf8_scalar us" "str_start s = utf8_text us"
    using valid_is_text by blast
  then have len: "njs_utf8_length (str_start s) = int (length us)"
    using length_loop_text [of us 0] by (simp add: njs_utf8_length_def)
  have ge: "length us \<le> length (utf8_text us)" using us(1) by (rule text_length_ge)
  have hd0: "hd (replicate (njs_string_map_size (length us)) 0) = (0 :: u32)" if "length us > 32"
    using that by (intro hd_replicate) (simp add: njs_string_map_size_def NJS_STRING_MAP_STRIDE_def div_eq_0_iff)
  have "holds_text (snd (njs_string_validate s)) us \<and> fst (njs_string_validate s) = int (length us) \<and>
      str_start (snd (njs_string_validate s)) = str_start s"
    using assms us len ge hd0
    by (auto simp: njs_string_validate_def Let_def holds_text_def NJS_STRING_SHORT_def
        NJS_STRING_MAP_STRIDE_def)
  with True show ?thesis
    by (auto intro!: exI [of _ us] exI [of _ "snd (njs_string_validate s)"] simp: prod_eq_iff)
qed

theorem string_validate_correct_witness:
  "\<exists>us s'. njs_string_validate \<lparr>str_start = [0x61, 0x62], str_length = 0, str_map = []\<rparr> = (int (length us), s') \<and>
     holds_text s' us \<and> str_start s' = [0x61, 0x62]"
proof -
  have "njs_utf8_is_valid [0x61, 0x62]" by (simp add: njs_utf8_decode_def Let_def)
  then show ?thesis
    using string_validate_correct [of "\<lparr>str_start = [0x61, 0x62], str_length = 0, str_map = []\<rparr>"]
    by (simp add: NJS_STRING_MAX_LENGTH_def)
qed

definition long_text :: "u32 list" where
  "long_text = replicate 40 0x20AC"

lemma long_text_bytes: "utf8_text long_text = concat (replicate 40 [0xE2, 0x82, 0xAC])"
proof -
  have enc: "njs_utf8_encode 0x20AC = Some [0xE2, 0x82, 0xAC]" by (simp add: njs_utf8_encode_def)
  show ?thesis by (simp add: utf8_text_def long_text_def enc)
qed

lemma holds_long_text:
  "holds_text \<lparr>str_start = utf8_text long_text, str_length = 40, str_map = [0]\<rparr> long_text"
proof -
  have len: "length (utf8_text long_text) = 120" unfolding long_text_bytes by (simp add: length_concat sum_list_replicate)
  then show ?thesis
    by (simp add: holds_text_def NJS_STRING_MAX_LENGTH_def NJS_STRING_MAP_STRIDE_def
        njs_string_map_size_def long_text_def list_all_iff)
qed

lemma size_long_text: "length (utf8_text long_text) = 120"
  unfolding long_text_bytes by (simp add: length_concat sum_list_replicate)

text \<open>
  C22. In a string value with characters of several bytes, \<open>njs_string_offset\<close> finds the
  position of any character: it never reads or writes outside the bytes and the map of
  the value, whether the map was filled before or not.
\<close>

theorem string_offset_correct:
  assumes "holds_text s us" "str_size s \<noteq> str_length s" "index < length us"
  shows "njs_string_offset s index = Some (utf8_text (drop index us))"
proof -
  have us: "list_all utf8_scalar us" and start: "str_start s = utf8_text us"
    and ne: "str_size s \<noteq> length us"
    using assms by (simp_all add: holds_text_def)
  show ?thesis
  proof (cases "32 \<le> index")
    case False
    with assms(3) us show ?thesis
      by (simp add: njs_string_offset_def NJS_STRING_MAP_STRIDE_def start skip_chars_text)
  next
    case True
    let ?q = "index div 32"
    have q: "?q - 1 < (length us - 1) div 32" "?q \<ge> 1"
    proof -
      show "?q \<ge> 1" using div_le_mono [OF True, of 32] by simp
      have "?q \<le> (length us - 1) div 32" using assms(3) by (intro div_le_mono) simp
      with \<open>?q \<ge> 1\<close> show "?q - 1 < (length us - 1) div 32" by linarith
    qed
    have "drop (unat (char_map us ! (?q - 1))) (str_start s) = utf8_text (drop (32 * ?q) us)"
      using q unat_char_offset [OF assms(1)] by (simp add: char_map_nth start drop_char_offset)
    moreover have "32 * ?q + index mod 32 = index" by (rule mult_div_mod_eq)
    moreover from this have "index mod 32 \<le> length (drop (32 * ?q) us)"
      using assms(3) unfolding length_drop by linarith
    ultimately have "skip_chars (index mod 32) (drop (unat (char_map us ! (?q - 1))) (str_start s)) =
        Some (utf8_text (drop index us))"
      using skip_chars_text [OF scalars_drop [OF us], of "index mod 32" "32 * ?q"]
      by (simp add: add.commute)
    with True q show ?thesis
      using offset_map_text [OF assms(1) ne] assms(3)
      by (simp add: njs_string_offset_def NJS_STRING_MAP_STRIDE_def)
  qed
qed

theorem string_offset_correct_witness:
  "njs_string_offset \<lparr>str_start = utf8_text long_text, str_length = 40, str_map = [0]\<rparr> 35 =
     Some (utf8_text (drop 35 long_text))"
  by (rule string_offset_correct [OF holds_long_text]) (simp_all add: size_long_text, simp add: long_text_def)

lemma index_map_loop_text:
  assumes s: "holds_text s us" and k: "k \<le> length us" and q: "32 * q \<le> k"
  shows "\<exists>q'. index_map_loop (length us) (char_offset us k) (drop q (char_map us)) (char_offset us (32 * q)) (32 * q) =
    Some (char_offset us (32 * q'), 32 * q') \<and> 32 * q' \<le> k"
  using q
proof (induction "length us - q" arbitrary: q rule: less_induct)
  case less
  have us: "list_all utf8_scalar us" using s by (simp add: holds_text_def)
  show ?case
  proof (cases "32 * q + 32 < length us")
    case True
    then have "(32 * Suc q) div 32 \<le> (length us - 1) div 32" by (intro div_le_mono) simp
    then have ql: "q < (length us - 1) div 32" by simp
    have cm: "drop q (char_map us) = char_map us ! q # drop (Suc q) (char_map us)"
      using ql by (simp add: Cons_nth_drop_Suc)
    have w: "unat (char_map us ! q) = char_offset us (32 * Suc q)"
      using ql unat_char_offset [OF s] by (simp add: char_map_nth)
    have le: "char_offset us (32 * Suc q) \<le> char_offset us k \<longleftrightarrow> 32 * Suc q \<le> k"
      using us k True by (intro char_offset_le_iff) simp_all
    show ?thesis
    proof (cases "32 * Suc q \<le> k")
      case t: True
      have "index_map_loop (length us) (char_offset us k) (drop q (char_map us)) (char_offset us (32 * q)) (32 * q) =
          index_map_loop (length us) (char_offset us k) (drop (Suc q) (char_map us)) (char_offset us (32 * Suc q)) (32 * Suc q)"
        using True t le w cm by (subst index_map_loop.simps) (simp add: NJS_STRING_MAP_STRIDE_def add.commute)
      moreover have "length us - Suc q < length us - q" using True by linarith
      ultimately show ?thesis using less.hyps [of "Suc q"] t by simp
    next
      case False
      then show ?thesis
        using True le w cm less.prems
        by (subst index_map_loop.simps) (auto simp: NJS_STRING_MAP_STRIDE_def intro!: exI [of _ q])
    qed
  next
    case False
    then show ?thesis using less.prems
      by (subst index_map_loop.simps) (auto simp: NJS_STRING_MAP_STRIDE_def intro!: exI [of _ q])
  qed
qed

lemma index_char_loop_text:
  assumes us: "list_all utf8_scalar us" and k: "k \<le> length us" and j: "j \<le> k"
  shows "index_char_loop (utf8_text (drop j us)) (char_offset us j) (char_offset us k) j = Some k"
  using j
proof (induction "k - j" arbitrary: j)
  case 0
  then show ?case by (subst index_char_loop.simps) simp
next
  case (Suc d)
  then have j: "j < length us" "j < k" using k by simp_all
  have "index_char_loop (utf8_text (drop (Suc j) us)) (char_offset us (Suc j)) (char_offset us k) (Suc j) = Some k"
    using Suc by (intro Suc.hyps) simp_all
  with j char_offset_mono [OF us j(2) k] show ?case
    by (subst index_char_loop.simps) (simp add: next_drop [OF us] char_offset_step)
qed

text \<open>
  C23. \<open>njs_string_index\<close> inverts the character offset: the byte offset of the \<open>k\<close>-th
  character is mapped back to \<open>k\<close>, for every length but one. A string of exactly 32
  characters that is not ASCII has no map, since \<open>njs_string_alloc\<close> provides one for
  longer strings only, but \<open>njs_string_index\<close> reads its first word all the same.
\<close>

theorem string_index_correct:
  assumes "holds_text s us" "k \<le> length us"
  shows "njs_string_index s (char_offset us k) =
    (if str_size s \<noteq> 32 \<and> length us = 32 then None else Some k)"
proof -
  have us: "list_all utf8_scalar us" and start: "str_start s = utf8_text us"
    and len: "str_length s = length us"
    using assms by (simp_all add: holds_text_def)
  have drop: "drop (char_offset us j) (str_start s) = utf8_text (drop j us)" for j
    by (simp add: start drop_char_offset)
  consider (ascii) "str_size s = length us" | (short) "str_size s \<noteq> length us" "length us < 32"
    | (edge) "str_size s \<noteq> length us" "length us = 32" | (long) "str_size s \<noteq> length us" "length us > 32"
    by linarith
  then show ?thesis
  proof cases
    case ascii
    have "char_offset us k = k"
      using ascii_text_offset [OF us] ascii assms(2) by (simp add: start)
    with ascii show ?thesis by (simp add: njs_string_index_def len)
  next
    case short
    then show ?thesis
      using index_char_loop_text [OF us assms(2), of 0]
      by (simp add: njs_string_index_def len NJS_STRING_MAP_STRIDE_def start)
  next
    case edge
    then have "str_map s = []" using assms by (simp add: holds_text_def NJS_STRING_MAP_STRIDE_def)
    with edge show ?thesis
      by (simp add: njs_string_index_def len NJS_STRING_MAP_STRIDE_def offset_map_def)
  next
    case long
    obtain q where "index_map_loop (length us) (char_offset us k) (char_map us) 0 0 =
        Some (char_offset us (32 * q), 32 * q)" "32 * q \<le> k"
      using index_map_loop_text [OF assms, of 0] by auto
    with long show ?thesis
      using index_char_loop_text [OF us assms(2), of "32 * q"] offset_map_text [OF assms(1)]
      by (simp add: njs_string_index_def len NJS_STRING_MAP_STRIDE_def drop)
  qed
qed

theorem string_index_correct_witness:
  "njs_string_index \<lparr>str_start = utf8_text long_text, str_length = 40, str_map = [0]\<rparr> (char_offset long_text 35) =
     Some 35"
proof -
  have "length long_text = 40" by (simp add: long_text_def)
  then show ?thesis
    using string_index_correct [OF holds_long_text, of 35] by simp
qed

end
