(* ===== verification/Njs_Codec.thy ===== *)
theory Njs_Codec
  imports Njs_String
begin

text \<open>
  The byte encodings of \<open>src/src/njs_string.c\<close>: hexadecimal, base64 and base64url, both ways, and
  \<open>String.bytesFrom\<close> on a string.
\<close>

section \<open>Encoders\<close>

definition fill :: "njs_error + njs_string \<Rightarrow> bytes \<Rightarrow> njs_error + njs_string" where
  "fill r bs = (case r of Inl e \<Rightarrow> Inl e | Inr s \<Rightarrow> Inr (s\<lparr>str_start := bs\<rparr>))"

lemma fill_simps [simp]: "fill (Inl e) bs = Inl e" "fill (Inr s) bs = Inr (s\<lparr>str_start := bs\<rparr>)"
  by (simp_all add: fill_def)

definition hex_digits :: bytes where
  "hex_digits = ascii ''0123456789abcdef''"

definition njs_string_hex :: "bytes \<Rightarrow> njs_error + njs_string" where
  "njs_string_hex src =
     fill (njs_string_alloc (length src * 2) (length src * 2))
       (concat (map (\<lambda>c. [hex_digits ! unat (drop_bit 4 c), hex_digits ! unat (c AND 0x0f)]) src))"

fun njs_encode_base64_core :: "bytes \<Rightarrow> bool \<Rightarrow> bytes \<Rightarrow> bytes" where
  "njs_encode_base64_core basis padding (c0 # c1 # c2 # s) =
     [basis ! unat (drop_bit 2 c0),
      basis ! unat (push_bit 4 (c0 AND 0x03) OR drop_bit 4 c1),
      basis ! unat (push_bit 2 (c1 AND 0x0f) OR drop_bit 6 c2),
      basis ! unat (c2 AND 0x3f)] @ njs_encode_base64_core basis padding s"
| "njs_encode_base64_core basis padding [c0] =
     [basis ! unat (drop_bit 2 c0), basis ! unat (push_bit 4 (c0 AND 0x03))] @
     (if padding then ascii ''=='' else [])"
| "njs_encode_base64_core basis padding [c0, c1] =
     [basis ! unat (drop_bit 2 c0),
      basis ! unat (push_bit 4 (c0 AND 0x03) OR drop_bit 4 c1),
      basis ! unat (push_bit 2 (c1 AND 0x0f))] @ (if padding then ascii ''='' else [])"
| "njs_encode_base64_core basis padding [] = []"

definition basis64_enc :: bytes where
  "basis64_enc = ascii ''ABCDEFGHIJKLMNOPQRSTUVWXYZabcdefghijklmnopqrstuvwxyz0123456789+/''"

definition basis64url_enc :: bytes where
  "basis64url_enc = ascii ''ABCDEFGHIJKLMNOPQRSTUVWXYZabcdefghijklmnopqrstuvwxyz0123456789-_''"

definition njs_encode_base64 :: "bytes \<Rightarrow> bytes" where
  "njs_encode_base64 src = njs_encode_base64_core basis64_enc True src"

definition njs_encode_base64url :: "bytes \<Rightarrow> bytes" where
  "njs_encode_base64url src = njs_encode_base64_core basis64url_enc False src"

definition njs_base64_encoded_length :: "nat \<Rightarrow> nat" where
  "njs_base64_encoded_length len = (len + 2) div 3 * 4"

definition njs_base64_decoded_length :: "nat \<Rightarrow> nat" where
  "njs_base64_decoded_length len = (len + 3) div 4 * 3"

definition njs_string_empty :: njs_string where
  "njs_string_empty = \<lparr>str_start = [], str_length = 0, str_map = []\<rparr>"

definition njs_string_base64 :: "bytes \<Rightarrow> njs_error + njs_string" where
  "njs_string_base64 src =
     (if src = [] then Inr njs_string_empty
      else let len = njs_base64_encoded_length (length src)
           in fill (njs_string_alloc len len) (njs_encode_base64 src))"

definition njs_string_base64url :: "bytes \<Rightarrow> njs_error + njs_string" where
  "njs_string_base64url src =
     (if src = [] then Inr njs_string_empty
      else let padding = length src mod 3;
               padding = unat (drop_bit padding (4 :: u64) AND 0x03);
               len = njs_base64_encoded_length (length src) - padding
           in fill (njs_string_alloc len len) (njs_encode_base64url src))"

section \<open>Decoders\<close>

definition njs_char_to_hex :: "u8 \<Rightarrow> int" where
  "njs_char_to_hex c =
     (let c = c OR 0x20; c = c - 0x30
      in if c > 9 then
           let c = c - (0x61 - 0x30) in if c > 5 then -1 else uint (c + 10)
         else uint c)"

text \<open>
  The bytes written by the loop of \<open>njs_string_decode_hex\<close>: it stops at the first byte that
  is no digit; \<open>i\<close> counts the digits read, \<open>n\<close> holds the digit that waits for its second
  half.
\<close>

fun decode_hex_loop :: "bytes \<Rightarrow> nat \<Rightarrow> u64 \<Rightarrow> bytes" where
  "decode_hex_loop [] i n = []"
| "decode_hex_loop (b # p) i n =
     (let c = njs_char_to_hex b
      in if c < 0 then []
         else let n = n * 16 + of_int c
              in if odd i then ucast n # decode_hex_loop p (i + 1) 0
                 else decode_hex_loop p (i + 1) n)"

text \<open>The value shortened to the bytes in fact written.\<close>

definition njs_string_truncate :: "njs_string \<Rightarrow> nat \<Rightarrow> njs_string" where
  "njs_string_truncate s n = s\<lparr>str_start := take n (str_start s)\<rparr>"

definition njs_string_decode_hex :: "bytes \<Rightarrow> njs_error + njs_string" where
  "njs_string_decode_hex src =
     (if src = [] then Inr njs_string_empty
      else case njs_string_alloc (length src div 2) 0 of
        Inl e \<Rightarrow> Inl e
      | Inr s \<Rightarrow>
          let out = decode_hex_loop src 0 0;
              s = s\<lparr>str_start := memcpy_at (str_start s) 0 out\<rparr>
          in Inr (if length out \<noteq> length src div 2 then njs_string_truncate s (length out) else s))"

definition basis64_dec :: bytes where
  "basis64_dec =
  [77, 77, 77, 77, 77, 77, 77, 77, 77, 77, 77, 77, 77, 77, 77, 77,
   77, 77, 77, 77, 77, 77, 77, 77, 77, 77, 77, 77, 77, 77, 77, 77,
   77, 77, 77, 77, 77, 77, 77, 77, 77, 77, 77, 62, 77, 77, 77, 63,
   52, 53, 54, 55, 56, 57, 58, 59, 60, 61, 77, 77, 77, 77, 77, 77,
   77, 0, 1, 2, 3, 4, 5, 6, 7, 8, 9, 10, 11, 12, 13, 14,
   15, 16, 17, 18, 19, 20, 21, 22, 23, 24, 25, 77, 77, 77, 77, 77,
   77, 26, 27, 28, 29, 30, 31, 32, 33, 34, 35, 36, 37, 38, 39, 40,
   41, 42, 43, 44, 45, 46, 47, 48, 49, 50, 51, 77, 77, 77, 77, 77,
   77, 77, 77, 77, 77, 77, 77, 77, 77, 77, 77, 77, 77, 77, 77, 77,
   77, 77, 77, 77, 77, 77, 77, 77, 77, 77, 77, 77, 77, 77, 77, 77,
   77, 77, 77, 77, 77, 77, 77, 77, 77, 77, 77, 77, 77, 77, 77, 77,
   77, 77, 77, 77, 77, 77, 77, 77, 77, 77, 77, 77, 77, 77, 77, 77,
   77, 77, 77, 77, 77, 77, 77, 77, 77, 77, 77, 77, 77, 77, 77, 77,
   77, 77, 77, 77, 77, 77, 77, 77, 77, 77, 77, 77, 77, 77, 77, 77,
   77, 77, 77, 77, 77, 77, 77, 77, 77, 77, 77, 77, 77, 77, 77, 77,
   77, 77, 77, 77, 77, 77, 77, 77, 77, 77, 77, 77, 77, 77, 77, 77]"

definition basis64url_dec :: bytes where
  "basis64url_dec =
  [77, 77, 77, 77, 77, 77, 77, 77, 77, 77, 77, 77, 77, 77, 77, 77,
   77, 77, 77, 77, 77, 77, 77, 77, 77, 77, 77, 77, 77, 77, 77, 77,
   77, 77, 77, 77, 77, 77, 77, 77, 77, 77, 77, 77, 77, 62, 77, 77,
   52, 53, 54, 55, 56, 57, 58, 59, 60, 61, 77, 77, 77, 77, 77, 77,
   77, 0, 1, 2, 3, 4, 5, 6, 7, 8, 9, 10, 11, 12, 13, 14,
   15, 16, 17, 18, 19, 20, 21, 22, 23, 24, 25, 77, 77, 77, 77, 63,
   77, 26, 27, 28, 29, 30, 31, 32, 33, 34, 35, 36, 37, 38, 39, 40,
   41, 42, 43, 44, 45, 46, 47, 48, 49, 50, 51, 77, 77, 77, 77, 77,
   77, 77, 77, 77, 77, 77, 77, 77, 77, 77, 77, 77, 77, 77, 77, 77,
   77, 77, 77, 77, 77, 77, 77, 77, 77, 77, 77, 77, 77, 77, 77, 77,
   77, 77, 77, 77, 77, 77, 77, 77, 77, 77, 77, 77, 77, 77, 77, 77,
   77, 77, 77, 77, 77, 77, 77, 77, 77, 77, 77, 77, 77, 77, 77, 77,
   77, 77, 77, 77, 77, 77, 77, 77, 77, 77, 77, 77, 77, 77, 77, 77,
   77, 77, 77, 77, 77, 77, 77, 77, 77, 77, 77, 77, 77, 77, 77, 77,
   77, 77, 77, 77, 77, 77, 77, 77, 77, 77, 77, 77, 77, 77, 77, 77,
   77, 77, 77, 77, 77, 77, 77, 77, 77, 77, 77, 77, 77, 77, 77, 77]"

fun base64_digits :: "bytes \<Rightarrow> bytes \<Rightarrow> nat" where
  "base64_digits basis [] = 0"
| "base64_digits basis (c # p) =
     (if c = 0x3d then 0 else if basis ! unat c = 77 then 0 else 1 + base64_digits basis p)"

fun decode_base64_loop :: "bytes \<Rightarrow> bytes \<Rightarrow> bytes" where
  "decode_base64_loop basis (s0 # s1 # s2 # s3 # s) =
     [push_bit 2 (basis ! unat s0) OR drop_bit 4 (basis ! unat s1),
      push_bit 4 (basis ! unat s1) OR drop_bit 2 (basis ! unat s2),
      push_bit 6 (basis ! unat s2) OR basis ! unat s3] @ decode_base64_loop basis s"
| "decode_base64_loop basis [s0, s1, s2] =
     [push_bit 2 (basis ! unat s0) OR drop_bit 4 (basis ! unat s1),
      push_bit 4 (basis ! unat s1) OR drop_bit 2 (basis ! unat s2)]"
| "decode_base64_loop basis [s0, s1] =
     [push_bit 2 (basis ! unat s0) OR drop_bit 4 (basis ! unat s1)]"
| "decode_base64_loop basis s = []"

definition njs_decode_base64_core :: "bytes \<Rightarrow> bytes \<Rightarrow> njs_error + njs_string" where
  "njs_decode_base64_core src basis =
     (if src = [] then Inr njs_string_empty
      else let len = base64_digits basis src;
               len = (if len mod 4 = 1 then len - 1 else len);
               dst_len = njs_base64_decoded_length len
           in case njs_string_alloc dst_len 0 of
                Inl e \<Rightarrow> Inl e
              | Inr s \<Rightarrow>
                  let out = decode_base64_loop basis (take len src);
                      s = s\<lparr>str_start := memcpy_at (str_start s) 0 out\<rparr>
                  in Inr (if length out \<noteq> dst_len then njs_string_truncate s (length out) else s))"

definition njs_string_decode_base64 :: "bytes \<Rightarrow> njs_error + njs_string" where
  "njs_string_decode_base64 src = njs_decode_base64_core src basis64_dec"

definition njs_string_decode_base64url :: "bytes \<Rightarrow> njs_error + njs_string" where
  "njs_string_decode_base64url src = njs_decode_base64_core src basis64url_dec"

text \<open>
  \<open>String.bytesFrom(string, encoding)\<close>; \<^const>\<open>None\<close> is an argument that is missing or no
  string.
\<close>

definition njs_string_bytes_from_string :: "njs_string \<Rightarrow> njs_string option \<Rightarrow> njs_error + njs_string" where
  "njs_string_bytes_from_string str enc_val =
     (case enc_val of
        None \<Rightarrow> Inl (Type_error (ascii ''encoding must be a string''))
      | Some enc_val \<Rightarrow>
          let enc = str_start enc_val
          in if length enc = 3 \<and> take 3 enc = ascii ''hex'' then njs_string_decode_hex (str_start str)
             else if length enc = 6 \<and> take 6 enc = ascii ''base64'' then njs_string_decode_base64 (str_start str)
             else if length enc = 9 \<and> take 6 enc = take 6 (ascii ''base64url'')
               then njs_string_decode_base64url (str_start str)
             else Inl (Type_error (ascii ''Unknown encoding: '' @ [0x22] @ enc @ [0x22])))"

section \<open>Bytes by cases\<close>

lemma all_bytes: "list_all (\<lambda>n. P (of_nat n)) [0..<256] \<Longrightarrow> P (b :: u8)"
proof -
  assume "list_all (\<lambda>n. P (of_nat n)) [0..<256]"
  moreover have "unat b \<in> set [0..<256]" using unat_u8_less [of b] by (simp only: set_upt atLeastLessThan_iff) simp
  ultimately have "P (of_nat (unat b))" by (metis (no_types, lifting) list_all_iff)
  then show ?thesis by simp
qed

lemma below_list: "list_all P [0..<n] \<Longrightarrow> k < n \<Longrightarrow> P k"
  by (simp add: list_all_iff)

section \<open>Hexadecimal\<close>

lemma hex_digit: "k < 16 \<Longrightarrow> njs_char_to_hex (hex_digits ! k) = int k"
proof (erule below_list [rotated])
  show "list_all (\<lambda>k. njs_char_to_hex (hex_digits ! k) = int k) [0..<16]" by code_simp
qed

lemma byte_halves: "of_nat (unat (drop_bit 4 b)) * 16 + of_nat (unat (b AND 0x0f)) = (of_nat (unat b) :: u64)" for b :: u8
proof -
  have "unat (drop_bit 4 b) * 16 + unat (b AND 0x0f) = unat b"
    by (simp add: unat_bits mult.commute)
  then show ?thesis by (metis of_nat_add of_nat_mult of_nat_numeral)
qed

lemma half_bytes: "unat (drop_bit 4 b) < 16" "unat (b AND 0x0f) < 16" for b :: u8
proof -
  have "unat b div 16 \<le> 255 div 16" by (rule div_le_mono) (rule unat_u8_le)
  then show "unat (drop_bit 4 b) < 16" by (simp add: unat_bits)
qed (simp add: unat_bits)

lemma ucast_of_nat_u8: "ucast (of_nat (unat b) :: u64) = (b :: u8)"
proof -
  from unat_u8_less [of b] have "unat b mod 256 = unat b" by (rule mod_less)
  then show ?thesis unfolding u8_eq_iff by (simp add: unat_ucast_u8 unat_ucast_up)
qed

definition hex_pair :: "u8 \<Rightarrow> bytes" where
  "hex_pair c = [hex_digits ! unat (drop_bit 4 c), hex_digits ! unat (c AND 0x0f)]"

lemma decode_hex_pair: "even i \<Longrightarrow> decode_hex_loop (hex_pair b @ p) i 0 = b # decode_hex_loop p (i + 2) 0"
  using half_bytes [of b] byte_halves [of b] ucast_of_nat_u8 [of b]
  by (simp add: hex_pair_def hex_digit Let_def)

lemma decode_hex_pairs: "even i \<Longrightarrow> decode_hex_loop (concat (map hex_pair src)) i 0 = src"
  by (induction src arbitrary: i) (simp_all add: decode_hex_pair)

lemma decode_hex_length: "length (decode_hex_loop p i n) \<le> (length p + i mod 2) div 2"
proof (induction p i n rule: decode_hex_loop.induct)
  case (2 b p i n)
  then show ?case by (cases "odd i") (auto simp: Let_def mod_2_eq_odd)
qed simp

text \<open>
  The digits that \<open>njs_char_to_hex\<close> accepts: the hexadecimal ones in both cases, and, since
  it sets bit 5 before it compares, the ten control characters that this bit turns into
  decimal digits.
\<close>

theorem char_to_hex_digits:
  "njs_char_to_hex c =
     (if 0x30 \<le> c \<and> c \<le> 0x39 then uint c - 0x30
      else if 0x41 \<le> c \<and> c \<le> 0x46 then uint c - 0x41 + 10
      else if 0x61 \<le> c \<and> c \<le> 0x66 then uint c - 0x61 + 10
      else if 0x10 \<le> c \<and> c \<le> 0x19 then uint c - 0x10
      else -1)"
proof (rule all_bytes [of "\<lambda>c. njs_char_to_hex c = _ c"])
  show "list_all (\<lambda>n. njs_char_to_hex (of_nat n) =
     (if 0x30 \<le> (of_nat n :: u8) \<and> (of_nat n :: u8) \<le> 0x39 then uint (of_nat n :: u8) - 0x30
      else if 0x41 \<le> (of_nat n :: u8) \<and> (of_nat n :: u8) \<le> 0x46 then uint (of_nat n :: u8) - 0x41 + 10
      else if 0x61 \<le> (of_nat n :: u8) \<and> (of_nat n :: u8) \<le> 0x66 then uint (of_nat n :: u8) - 0x61 + 10
      else if 0x10 \<le> (of_nat n :: u8) \<and> (of_nat n :: u8) \<le> 0x19 then uint (of_nat n :: u8) - 0x10
      else -1)) [0..<256]" by code_simp
qed

text \<open>
  Decoding the hexadecimal form of any bytes gives the bytes back.
\<close>

theorem hex_roundtrip:
  assumes "2 * length src \<le> NJS_STRING_MAX_LENGTH"
  shows "\<exists>s. njs_string_hex src = Inr s \<and> str_size s = 2 * length src \<and> str_length s = str_size s \<and>
    njs_string_decode_hex (str_start s) = Inr \<lparr>str_start = src, str_length = 0, str_map = []\<rparr>"
proof -
  let ?h = "concat (map hex_pair src)"
  have len: "length ?h = 2 * length src" by (induction src) (simp_all add: hex_pair_def)
  have dec: "decode_hex_loop ?h 0 0 = src" by (rule decode_hex_pairs) simp
  have "njs_string_decode_hex ?h = Inr \<lparr>str_start = src, str_length = 0, str_map = []\<rparr>"
    using assms len dec
    by (auto simp: njs_string_decode_hex_def njs_string_empty_def njs_string_alloc_def Let_def memcpy_at_def hex_pair_def)
  moreover have "njs_string_hex src = Inr \<lparr>str_start = ?h, str_length = 2 * length src, str_map = []\<rparr>"
    using assms by (simp add: njs_string_hex_def njs_string_alloc_def mult.commute flip: hex_pair_def)
  ultimately show ?thesis using len by simp
qed


section \<open>Base64\<close>

text \<open>An alphabet and a table that inverts it.\<close>

locale base64_alphabet =
  fixes enc :: bytes and dec :: bytes
  assumes dec_enc: "k < 64 \<Longrightarrow> dec ! unat (enc ! k) = of_nat k"
    and enc_pad: "k < 64 \<Longrightarrow> enc ! k \<noteq> 0x3d"
begin

lemma dec_sextet: "unat w < 64 \<Longrightarrow> dec ! unat (enc ! unat w) = w"
  by (simp add: dec_enc)

end

lemma sextet: "w AND mask 6 = w \<Longrightarrow> unat w < 64" for w :: u8
proof -
  assume "w AND mask 6 = w"
  then have "unat w = unat w mod 64" using unat_and_mask [of w 6] by simp
  also have "\<dots> < 64" by simp
  finally show ?thesis .
qed

lemma sextet_not_77: "unat w < 64 \<Longrightarrow> w \<noteq> 77" for w :: u8
  by (auto simp: u8_eq_iff)

lemma u8_bits_eqI:
  fixes a b :: u8
  assumes "bit a 0 = bit b 0" "bit a 1 = bit b 1" "bit a 2 = bit b 2" "bit a 3 = bit b 3"
    "bit a 4 = bit b 4" "bit a 5 = bit b 5" "bit a 6 = bit b 6" "bit a 7 = bit b 7"
  shows "a = b"
proof (rule bit_word_eqI)
  fix n assume "n < LENGTH(8)"
  then have "n = 0 \<or> n = 1 \<or> n = 2 \<or> n = 3 \<or> n = 4 \<or> n = 5 \<or> n = 6 \<or> n = 7" by (simp, linarith)
  with assms show "bit a n = bit b n" by fastforce
qed

lemma u8_high_bits [simp]: "8 \<le> n \<Longrightarrow> \<not> bit (c :: u8) n"
  using bit_imp_le_length [of c n] by auto

text \<open>The four groups of six bits in three bytes; a missing byte counts as zero.\<close>

definition sextet0 :: "u8 \<Rightarrow> u8" where "sextet0 c0 = drop_bit 2 c0"
definition sextet1 :: "u8 \<Rightarrow> u8 \<Rightarrow> u8" where "sextet1 c0 c1 = push_bit 4 (c0 AND 0x03) OR drop_bit 4 c1"
definition sextet2 :: "u8 \<Rightarrow> u8 \<Rightarrow> u8" where "sextet2 c1 c2 = push_bit 2 (c1 AND 0x0f) OR drop_bit 6 c2"
definition sextet3 :: "u8 \<Rightarrow> u8" where "sextet3 c2 = c2 AND 0x3f"

lemma low_masks: "(0x03 :: u8) = mask 2" "(0x0f :: u8) = mask 4" "(0x3f :: u8) = mask 6"
  by (simp_all add: mask_eq_exp_minus_1)

lemma sextets:
  "unat (sextet0 c0) < 64" "unat (sextet1 c0 c1) < 64" "unat (sextet2 c1 c2) < 64" "unat (sextet3 c2) < 64"
  unfolding sextet0_def sextet1_def sextet2_def sextet3_def low_masks
  by (rule sextet, rule u8_bits_eqI; simp add: bit_simps)+

lemma join_sextets:
  "push_bit 2 (sextet0 c0) OR drop_bit 4 (sextet1 c0 c1) = c0"
  "push_bit 4 (sextet1 c0 c1) OR drop_bit 2 (sextet2 c1 c2) = c1"
  "push_bit 6 (sextet2 c1 c2) OR sextet3 c2 = c2"
  unfolding sextet0_def sextet1_def sextet2_def sextet3_def low_masks
  by (rule u8_bits_eqI; simp add: bit_simps)+

lemma core_sextets:
  "njs_encode_base64_core basis padding (c0 # c1 # c2 # s) =
     [basis ! unat (sextet0 c0), basis ! unat (sextet1 c0 c1), basis ! unat (sextet2 c1 c2),
      basis ! unat (sextet3 c2)] @ njs_encode_base64_core basis padding s"
  "njs_encode_base64_core basis padding [c0] =
     [basis ! unat (sextet0 c0), basis ! unat (sextet1 c0 0)] @ (if padding then ascii ''=='' else [])"
  "njs_encode_base64_core basis padding [c0, c1] =
     [basis ! unat (sextet0 c0), basis ! unat (sextet1 c0 c1), basis ! unat (sextet2 c1 0)] @
     (if padding then ascii ''='' else [])"
  by (simp_all add: sextet0_def sextet1_def sextet2_def sextet3_def)

declare njs_encode_base64_core.simps(1-3) [simp del] core_sextets [simp]

lemma triple_induct [case_names Triple One Two Nil]:
  "(\<And>c0 c1 c2 s. P s \<Longrightarrow> P (c0 # c1 # c2 # s)) \<Longrightarrow> (\<And>c0. P [c0]) \<Longrightarrow> (\<And>c0 c1. P [c0, c1]) \<Longrightarrow> P [] \<Longrightarrow> P src"
  for P :: "bytes \<Rightarrow> bool"
  using njs_encode_base64_core.induct [of "\<lambda>_ _ s. P s" "[]" False src] by blast

fun pads :: "bytes \<Rightarrow> bytes" where
  "pads (c0 # c1 # c2 # s) = pads s"
| "pads [c0] = ascii ''==''"
| "pads [c0, c1] = ascii ''=''"
| "pads [] = []"

lemma core_padding: "njs_encode_base64_core enc True src = njs_encode_base64_core enc False src @ pads src"
  by (induction src rule: triple_induct) simp_all

lemma pads_pad: "pads src = [] \<or> hd (pads src) = 0x3d"
  by (induction src rule: triple_induct) simp_all

lemma digits_pad: "p = [] \<or> hd p = 0x3d \<Longrightarrow> base64_digits basis p = 0"
  by (cases p) auto

lemma core_length: "length (njs_encode_base64_core enc False src) = (4 * length src + 2) div 3"
  by (induction src rule: triple_induct) simp_all

lemma digits_number:
  fixes n :: nat
  obtains q d where "(4 * n + 2) div 3 = 4 * q + d" "(n = 3 * q \<and> d = 0) \<or> (n = 3 * q + 1 \<and> d = 2) \<or> (n = 3 * q + 2 \<and> d = 3)"
proof -
  have n: "n = 3 * (n div 3) + n mod 3" by simp
  have "n mod 3 = 0 \<or> n mod 3 = 1 \<or> n mod 3 = 2" by linarith
  then show thesis
  proof (elim disjE)
    assume "n mod 3 = 0"
    with n have "n = 3 * (n div 3)" by linarith
    then obtain k where m: "n = 3 * k" ..
    then have "(4 * n + 2) div 3 = 4 * k + 0" by (intro div_nat_eqI) simp_all
    with m show thesis using that by blast
  next
    assume "n mod 3 = 1"
    with n have "n = 3 * (n div 3) + 1" by linarith
    then obtain k where m: "n = 3 * k + 1" ..
    then have "(4 * n + 2) div 3 = 4 * k + 2" by (intro div_nat_eqI) simp_all
    with m show thesis using that by blast
  next
    assume "n mod 3 = 2"
    with n have "n = 3 * (n div 3) + 2" by linarith
    then obtain k where m: "n = 3 * k + 2" ..
    then have "(4 * n + 2) div 3 = 4 * k + 3" by (intro div_nat_eqI) simp_all
    with m show thesis using that by blast
  qed
qed

lemma digits_room:
  "(4 * n + 2) div 3 mod 4 \<noteq> 1" "n \<le> njs_base64_decoded_length ((4 * n + 2) div 3)"
  "njs_base64_decoded_length ((4 * n + 2) div 3) \<le> n + 2"
proof -
  obtain q d where q: "(4 * n + 2) div 3 = 4 * q + d"
    "(n = 3 * q \<and> d = 0) \<or> (n = 3 * q + 1 \<and> d = 2) \<or> (n = 3 * q + 2 \<and> d = 3)"
    by (rule digits_number)
  from q(2) show "(4 * n + 2) div 3 mod 4 \<noteq> 1" unfolding q(1) by auto
  have "(4 * q + d + 3) div 4 = (if d = 0 then q else q + 1)"
    using q(2) by (auto intro!: div_nat_eqI)
  with q(2) show "n \<le> njs_base64_decoded_length ((4 * n + 2) div 3)"
    "njs_base64_decoded_length ((4 * n + 2) div 3) \<le> n + 2"
    unfolding q(1) njs_base64_decoded_length_def by auto
qed

context base64_alphabet
begin

lemma core_digits:
  "p = [] \<or> hd p = 0x3d \<Longrightarrow>
   base64_digits dec (njs_encode_base64_core enc False src @ p) = length (njs_encode_base64_core enc False src)"
  by (induction src rule: triple_induct)
    (simp_all add: dec_sextet enc_pad sextets sextet_not_77 digits_pad)

lemma core_decode: "decode_base64_loop dec (njs_encode_base64_core enc False src) = src"
  by (induction src rule: triple_induct) (simp_all add: dec_sextet sextets join_sextets)

lemma decode_base64_core_enc:
  assumes "p = [] \<or> hd p = 0x3d" "length src + 2 \<le> NJS_STRING_MAX_LENGTH"
  shows "njs_decode_base64_core (njs_encode_base64_core enc False src @ p) dec =
    Inr \<lparr>str_start = src, str_length = 0, str_map = []\<rparr>"
proof (cases "njs_encode_base64_core enc False src @ p = []")
  case True
  then have "(4 * length src + 2) div 3 = 0" using core_length [of enc src] by simp
  then have "src = []" by (cases src) simp_all
  with True show ?thesis by (simp add: njs_decode_base64_core_def njs_string_empty_def)
next
  case False
  let ?c = "njs_encode_base64_core enc False src"
  let ?len = "length ?c" and ?dst = "njs_base64_decoded_length (length ?c)"
  have digits: "base64_digits dec (?c @ p) = ?len" using assms(1) by (rule core_digits)
  have len: "?len = (4 * length src + 2) div 3" by (rule core_length)
  have not1: "?len mod 4 \<noteq> 1" unfolding len by (rule digits_room)
  have room: "length src \<le> ?dst" "?dst \<le> NJS_STRING_MAX_LENGTH"
    using digits_room(2,3) [of "length src"] assms(2) unfolding len by linarith+
  let ?s = "\<lparr>str_start = replicate ?dst 0, str_length = 0, str_map = []\<rparr>"
  have alloc: "njs_string_alloc ?dst 0 = Inr ?s" using room by (simp add: njs_string_alloc_def)
  show ?thesis
    using False digits not1 alloc room
    by (auto simp: njs_decode_base64_core_def Let_def core_decode memcpy_at_def njs_string_truncate_def)
qed

end

interpretation b64: base64_alphabet basis64_enc basis64_dec
proof
  show "basis64_dec ! unat (basis64_enc ! k) = of_nat k" if "k < 64" for k
  proof (rule below_list [OF _ that])
    show "list_all (\<lambda>k. basis64_dec ! unat (basis64_enc ! k) = of_nat k) [0..<64]" by code_simp
  qed
  show "basis64_enc ! k \<noteq> 0x3d" if "k < 64" for k
  proof (rule below_list [OF _ that])
    show "list_all (\<lambda>k. basis64_enc ! k \<noteq> 0x3d) [0..<64]" by code_simp
  qed
qed

interpretation b64url: base64_alphabet basis64url_enc basis64url_dec
proof
  show "basis64url_dec ! unat (basis64url_enc ! k) = of_nat k" if "k < 64" for k
  proof (rule below_list [OF _ that])
    show "list_all (\<lambda>k. basis64url_dec ! unat (basis64url_enc ! k) = of_nat k) [0..<64]" by code_simp
  qed
  show "basis64url_enc ! k \<noteq> 0x3d" if "k < 64" for k
  proof (rule below_list [OF _ that])
    show "list_all (\<lambda>k. basis64url_enc ! k \<noteq> 0x3d) [0..<64]" by code_simp
  qed
qed

lemma padded_length: "length (njs_encode_base64_core basis True src) = njs_base64_encoded_length (length src)"
proof (induction src rule: triple_induct)
  case (Triple c0 c1 c2 s)
  have "(length s + 3 + 2) div 3 = (length s + 2) div 3 + 1" by simp
  with Triple show ?case by (simp add: njs_base64_encoded_length_def)
qed (simp_all add: njs_base64_encoded_length_def)

lemma unpadded_length:
  "src \<noteq> [] \<Longrightarrow> length (njs_encode_base64_core basis False src) =
     njs_base64_encoded_length (length src) - unat (drop_bit (length src mod 3) (4 :: u64) AND 0x03)"
  for basis :: bytes
proof -
  obtain q d where q: "(4 * length src + 2) div 3 = 4 * q + d"
    "(length src = 3 * q \<and> d = 0) \<or> (length src = 3 * q + 1 \<and> d = 2) \<or> (length src = 3 * q + 2 \<and> d = 3)"
    by (rule digits_number)
  have m: "Suc (3 * q) mod 3 = 1" "Suc (Suc (3 * q)) mod 3 = 2"
    using mod_mult_self2 [of 1 3 q] mod_mult_self2 [of 2 3 q] by simp_all
  show ?thesis
    using q(2) unfolding core_length q(1) njs_base64_encoded_length_def
    by (elim disjE) (simp_all add: m)
qed

text \<open>
  C25. Decoding the base64 form, padded or in the URL alphabet without padding, gives the
  bytes back, and the form has the announced length.
\<close>

theorem base64_roundtrip:
  assumes "2 * length src + 4 \<le> NJS_STRING_MAX_LENGTH"
  shows "(\<exists>s. njs_string_base64 src = Inr s \<and> str_size s = njs_base64_encoded_length (length src) \<and>
      njs_string_decode_base64 (str_start s) = Inr \<lparr>str_start = src, str_length = 0, str_map = []\<rparr>) \<and>
    (\<exists>s. njs_string_base64url src = Inr s \<and> str_size s = (4 * length src + 2) div 3 \<and>
      njs_string_decode_base64url (str_start s) = Inr \<lparr>str_start = src, str_length = 0, str_map = []\<rparr>)"
proof (cases "src = []")
  case True
  then show ?thesis
    by (simp add: njs_string_base64_def njs_string_base64url_def njs_string_empty_def
        njs_string_decode_base64_def njs_string_decode_base64url_def njs_decode_base64_core_def
        njs_base64_encoded_length_def)
next
  case False
  let ?n = "length src"
  have enc: "njs_base64_encoded_length ?n \<le> NJS_STRING_MAX_LENGTH"
    using assms unfolding njs_base64_encoded_length_def by linarith
  have dec: "njs_string_decode_base64 (njs_encode_base64 src) = Inr \<lparr>str_start = src, str_length = 0, str_map = []\<rparr>"
    using b64.decode_base64_core_enc [OF pads_pad, of src src] assms
    by (simp add: njs_string_decode_base64_def njs_encode_base64_def core_padding)
  have decu: "njs_string_decode_base64url (njs_encode_base64url src) = Inr \<lparr>str_start = src, str_length = 0, str_map = []\<rparr>"
    using b64url.decode_base64_core_enc [of "[]" src] assms
    by (simp add: njs_string_decode_base64url_def njs_encode_base64url_def)
  have a: "\<exists>s. njs_string_base64 src = Inr s \<and> str_start s = njs_encode_base64 src"
    using False enc by (simp add: njs_string_base64_def Let_def njs_string_alloc_def)
  have au: "\<exists>s. njs_string_base64url src = Inr s \<and> str_start s = njs_encode_base64url src"
    using False enc by (simp add: njs_string_base64url_def Let_def njs_string_alloc_def)
  have "length (njs_encode_base64 src) = njs_base64_encoded_length ?n"
    "length (njs_encode_base64url src) = (4 * ?n + 2) div 3"
    by (simp_all add: njs_encode_base64_def njs_encode_base64url_def padded_length core_length)
  with dec decu a au show ?thesis by metis
qed


theorem hex_roundtrip_witness:
  "\<exists>s. njs_string_hex [0x00, 0xFF] = Inr s \<and>
     njs_string_decode_hex (str_start s) = Inr \<lparr>str_start = [0x00, 0xFF], str_length = 0, str_map = []\<rparr>"
  using hex_roundtrip [of "[0x00, 0xFF]"] by (auto simp: NJS_STRING_MAX_LENGTH_def)

theorem base64_roundtrip_witness:
  "\<exists>s. njs_string_base64 [0x00, 0xFF] = Inr s \<and>
     njs_string_decode_base64 (str_start s) = Inr \<lparr>str_start = [0x00, 0xFF], str_length = 0, str_map = []\<rparr>"
  using base64_roundtrip [of "[0x00, 0xFF]"] by (auto simp: NJS_STRING_MAX_LENGTH_def)

lemma decode_base64_loop_length: "length (decode_base64_loop basis s) \<le> njs_base64_decoded_length (length s)"
proof (induction basis s rule: decode_base64_loop.induct)
  case (1 basis s0 s1 s2 s3 s)
  have "(length s + 4 + 3) div 4 = (length s + 3) div 4 + 1" by simp
  with 1 show ?case by (simp add: njs_base64_decoded_length_def)
qed (simp_all add: njs_base64_decoded_length_def)


text \<open>
  \<open>String.bytesFrom\<close> compares only six bytes of a nine-byte encoding name: every name that
  starts with \<open>base64\<close> and has nine bytes is decoded as \<open>base64url\<close>.
\<close>

lemma bytes_from_accepts_base64_names:
  assumes "length rest = 3"
  shows "njs_string_bytes_from_string str (Some \<lparr>str_start = ascii ''base64'' @ rest, str_length = len, str_map = m\<rparr>) =
    njs_string_decode_base64url (str_start str)"
  using assms by (simp add: njs_string_bytes_from_string_def)

lemma bytes_from_accepts_base64_names_witness:
  "njs_string_bytes_from_string \<lparr>str_start = [], str_length = 0, str_map = []\<rparr>
     (Some \<lparr>str_start = ascii ''base64'' @ ascii ''hex'', str_length = 9, str_map = []\<rparr>) = Inr njs_string_empty"
  using bytes_from_accepts_base64_names [of "ascii ''hex''" "\<lparr>str_start = [], str_length = 0, str_map = []\<rparr>" 9 "[]"]
  by (simp add: njs_string_decode_base64url_def njs_decode_base64_core_def)

end
