(* ===== verification/Njs_Uri.thy ===== *)
theory Njs_Uri
  imports Njs_Codec
begin

text \<open>
  The URI functions of \<open>src/src/njs_string.c\<close>, \<open>encodeURI\<close>, \<open>encodeURIComponent\<close>,
  \<open>decodeURI\<close> and \<open>decodeURIComponent\<close>: the bit tables of the bytes to escape and of the
  escapes to keep, escaping, and unescaping in two passes. The locale \<open>uri_pair\<close> states what a
  pair of tables must satisfy for the two directions to be inverse.
\<close>

section \<open>URI functions\<close>

definition uri_bit :: "u32 list \<Rightarrow> u8 \<Rightarrow> bool" where
  "uri_bit table byte \<longleftrightarrow>
     (table ! unat (drop_bit 5 byte)) AND push_bit (unat (byte AND 0x1f)) 1 \<noteq> 0"

definition uri_escape :: "u32 list" where
  "uri_escape = [0xffffffff, 0x50000025, 0x78000000, 0xb8000001,
     0xffffffff, 0xffffffff, 0xffffffff, 0xffffffff]"

definition uri_component_escape :: "u32 list" where
  "uri_component_escape = [0xffffffff, 0xfc00987d, 0x78000001, 0xb8000001,
     0xffffffff, 0xffffffff, 0xffffffff, 0xffffffff]"

definition uri_reserve :: "u32 list" where
  "uri_reserve = [0x00000000, 0xac009858, 0x00000001, 0x00000000,
     0x00000000, 0x00000000, 0x00000000, 0x00000000]"

definition uri_component_reserve :: "u32 list" where
  "uri_component_reserve = [0x00000000, 0x00000000, 0x00000000, 0x00000000,
     0x00000000, 0x00000000, 0x00000000, 0x00000000]"

definition uri_hex :: bytes where
  "uri_hex = ascii ''0123456789ABCDEF''"

definition uri_escaped :: "u32 list \<Rightarrow> u8 \<Rightarrow> bytes" where
  "uri_escaped escape byte =
     (if uri_bit escape byte
      then [0x25, uri_hex ! unat (drop_bit 4 byte), uri_hex ! unat (byte AND 0xf)]
      else [byte])"

definition njs_string_encode :: "njs_string \<Rightarrow> u32 list \<Rightarrow> njs_error + njs_string" where
  "njs_string_encode value escape =
     (let n = sum_list (map (\<lambda>byte. if uri_bit escape byte then 2 else 0) (str_start value))
      in if n = 0 then Inr value
         else let sz = str_size value + n
              in fill (njs_string_alloc sz sz) (concat (map (uri_escaped escape) (str_start value))))"

definition uri_unhex :: "int list" where
  "uri_unhex =
  [-1, -1, -1, -1, -1, -1, -1, -1, -1, -1, -1, -1, -1, -1, -1, -1,
   -1, -1, -1, -1, -1, -1, -1, -1, -1, -1, -1, -1, -1, -1, -1, -1,
   -1, -1, -1, -1, -1, -1, -1, -1, -1, -1, -1, -1, -1, -1, -1, -1,
   0, 1, 2, 3, 4, 5, 6, 7, 8, 9, -1, -1, -1, -1, -1, -1,
   -1, 10, 11, 12, 13, 14, 15, -1, -1, -1, -1, -1, -1, -1, -1, -1,
   -1, -1, -1, -1, -1, -1, -1, -1, -1, -1, -1, -1, -1, -1, -1, -1,
   -1, 10, 11, 12, 13, 14, 15, -1, -1, -1, -1, -1, -1, -1, -1, -1,
   -1, -1, -1, -1, -1, -1, -1, -1, -1, -1, -1, -1, -1, -1, -1, -1,
   -1, -1, -1, -1, -1, -1, -1, -1, -1, -1, -1, -1, -1, -1, -1, -1,
   -1, -1, -1, -1, -1, -1, -1, -1, -1, -1, -1, -1, -1, -1, -1, -1,
   -1, -1, -1, -1, -1, -1, -1, -1, -1, -1, -1, -1, -1, -1, -1, -1,
   -1, -1, -1, -1, -1, -1, -1, -1, -1, -1, -1, -1, -1, -1, -1, -1,
   -1, -1, -1, -1, -1, -1, -1, -1, -1, -1, -1, -1, -1, -1, -1, -1,
   -1, -1, -1, -1, -1, -1, -1, -1, -1, -1, -1, -1, -1, -1, -1, -1,
   -1, -1, -1, -1, -1, -1, -1, -1, -1, -1, -1, -1, -1, -1, -1, -1,
   -1, -1, -1, -1, -1, -1, -1, -1, -1, -1, -1, -1, -1, -1, -1, -1]"

text \<open>
  The first pass checks the escapes and counts the bytes they save; the condition
  \<open>size <= 0\<close> after \<open>size -= 2\<close> is met when fewer than two bytes follow the percent sign.
\<close>

fun uri_decode_count :: "u32 list \<Rightarrow> bytes \<Rightarrow> nat option" where
  "uri_decode_count reserve [] = Some 0"
| "uri_decode_count reserve (byte # src) =
     (if byte = 0x25 then
        case src of
          h0 # h1 # src' \<Rightarrow>
            let d0 = uri_unhex ! unat h0; d1 = uri_unhex ! unat h1
            in if d0 < 0 then None
               else if d1 < 0 then None
               else let byte = of_int (d0 * 16 + d1)
                    in map_option ((+) (if \<not> uri_bit reserve byte then 2 else 0))
                         (uri_decode_count reserve src')
        | _ \<Rightarrow> None
      else uri_decode_count reserve src)"

text \<open>The second pass: the flag \<open>utf8\<close> and the bytes written.\<close>

fun uri_decode_bytes :: "u32 list \<Rightarrow> bytes \<Rightarrow> bool \<Rightarrow> bool \<times> bytes" where
  "uri_decode_bytes reserve [] utf8 = (utf8, [])"
| "uri_decode_bytes reserve (byte # src) utf8 =
     (if byte = 0x25 then
        case src of
          h0 # h1 # src' \<Rightarrow>
            let d0 = uri_unhex ! unat h0; d1 = uri_unhex ! unat h1;
                byte = of_int (d0 * 16 + d1);
                utf8 = (utf8 \<or> byte \<ge> 0x80);
                out = (if uri_bit reserve byte then [0x25, h0, h1] else [byte])
            in apsnd ((@) out) (uri_decode_bytes reserve src' utf8)
        | _ \<Rightarrow> (utf8, [])
      else apsnd ((#) byte) (uri_decode_bytes reserve src utf8))"

definition njs_string_decode :: "njs_string \<Rightarrow> u32 list \<Rightarrow> njs_error + njs_string" where
  "njs_string_decode value reserve =
     (case uri_decode_count reserve (str_start value) of
        None \<Rightarrow> Inl Uri_error
      | Some n \<Rightarrow>
          if n = 0 then Inr value
          else let n = str_size value - n
               in case njs_string_alloc n n of
                    Inl e \<Rightarrow> Inl e
                  | Inr s \<Rightarrow>
                      let (utf8, out) = uri_decode_bytes reserve (str_start value) False;
                          s = s\<lparr>str_start := out\<rparr>
                      in if utf8 then
                           let len = njs_utf8_length out
                           in Inr (s\<lparr>str_length := (if len < 0 then 0 else nat len)\<rparr>)
                         else Inr s)"

text \<open>
  The four functions on their first argument, a string; without an argument they return
  \<open>undefined\<close>, here \<^const>\<open>None\<close>.
\<close>

definition uri_call ::
  "(njs_string \<Rightarrow> njs_error + njs_string) \<Rightarrow> njs_string option \<Rightarrow> njs_error + njs_string option" where
  "uri_call f arg =
     (case arg of
        None \<Rightarrow> Inr None
      | Some value \<Rightarrow> (case f value of Inl e \<Rightarrow> Inl e | Inr s \<Rightarrow> Inr (Some s)))"

definition njs_string_encode_uri :: "njs_string option \<Rightarrow> njs_error + njs_string option" where
  "njs_string_encode_uri = uri_call (\<lambda>value. njs_string_encode value uri_escape)"

definition njs_string_encode_uri_component :: "njs_string option \<Rightarrow> njs_error + njs_string option" where
  "njs_string_encode_uri_component = uri_call (\<lambda>value. njs_string_encode value uri_component_escape)"

definition njs_string_decode_uri :: "njs_string option \<Rightarrow> njs_error + njs_string option" where
  "njs_string_decode_uri = uri_call (\<lambda>value. njs_string_decode value uri_reserve)"

definition njs_string_decode_uri_component :: "njs_string option \<Rightarrow> njs_error + njs_string option" where
  "njs_string_decode_uri_component = uri_call (\<lambda>value. njs_string_decode value uri_component_reserve)"


section \<open>The URI tables\<close>

text \<open>\<open>uriReserved\<close> and \<open>uriUnescaped\<close> of ECMA-262.\<close>

definition ecma_reserved :: "u8 \<Rightarrow> bool" where
  "ecma_reserved b \<longleftrightarrow> b \<in> set (ascii '';/?:@&=+$,'')"

definition ecma_unescaped :: "u8 \<Rightarrow> bool" where
  "ecma_unescaped b \<longleftrightarrow>
     (0x30 \<le> b \<and> b \<le> 0x39) \<or> (0x41 \<le> b \<and> b \<le> 0x5A) \<or> (0x61 \<le> b \<and> b \<le> 0x7A) \<or>
     b \<in> set (0x27 # ascii ''-_.!~*()'')"

definition uri_bit_int :: "int list \<Rightarrow> int \<Rightarrow> bool" where
  "uri_bit_int table n \<longleftrightarrow> odd (table ! nat (n div 32) div 2 ^ nat (n mod 32))"

lemma uri_bit_int: "length table = 8 \<Longrightarrow> uri_bit table b = uri_bit_int (map uint table) (uint b)"
proof -
  assume len: "length table = 8"
  let ?w = "table ! (unat b div 32)" and ?k = "unat b mod 32"
  have i: "unat (drop_bit 5 b) = unat b div 32" "unat (b AND 0x1f) = ?k"
    by (simp_all add: unat_bits)
  have n: "nat (uint b div 32) = unat b div 32" "nat (uint b mod 32) = unat b mod 32"
    by (simp_all add: nat_div_distrib nat_mod_distrib)
  have "unat b div 32 < 8" using unat_u8_less [of b] by (intro less_mult_imp_div_less) simp
  moreover have "?w AND push_bit ?k 1 \<noteq> 0 \<longleftrightarrow> bit ?w ?k"
    by (simp add: bit_iff_and_push_bit_not_eq_0)
  moreover have "bit (uint ?w) ?k \<longleftrightarrow> bit ?w ?k" by (simp add: bit_unsigned_iff)
  ultimately show ?thesis
    using len by (simp add: uri_bit_def uri_bit_int_def i n) (metis bit_iff_odd)
qed

lemma byte_range: "list_all P [0..255] \<Longrightarrow> P (uint (b :: u8))"
  using uint_bounded [of b] by (simp add: list_all_iff)

definition reserved_int :: "int \<Rightarrow> bool" where
  "reserved_int n \<longleftrightarrow> n \<in> set [0x3b, 0x2f, 0x3f, 0x3a, 0x40, 0x26, 0x3d, 0x2b, 0x24, 0x2c]"

definition unescaped_int :: "int \<Rightarrow> bool" where
  "unescaped_int n \<longleftrightarrow> (0x30 \<le> n \<and> n \<le> 0x39) \<or> (0x41 \<le> n \<and> n \<le> 0x5A) \<or> (0x61 \<le> n \<and> n \<le> 0x7A) \<or>
     n \<in> set [0x27, 0x2d, 0x5f, 0x2e, 0x21, 0x7e, 0x2a, 0x28, 0x29]"

lemma ecma_int:
  "ecma_reserved b = reserved_int (uint b)" "ecma_unescaped b = unescaped_int (uint b)"
  by (simp_all add: ecma_reserved_def ecma_unescaped_def reserved_int_def unescaped_int_def
      word_uint_eq_iff word_le_def)

lemma uri_tables_int:
  "list_all (\<lambda>n. uri_bit_int (map uint uri_escape) n = (\<not> (reserved_int n \<or> unescaped_int n \<or> n = 0x23))) [0..255]"
  "list_all (\<lambda>n. uri_bit_int (map uint uri_component_escape) n = (\<not> unescaped_int n)) [0..255]"
  "list_all (\<lambda>n. uri_bit_int (map uint uri_reserve) n = (reserved_int n \<or> n = 0x23)) [0..255]"
  "list_all (\<lambda>n. uri_bit_int (map uint uri_component_reserve) n = False) [0..255]"
  unfolding uri_escape_def uri_component_escape_def uri_reserve_def uri_component_reserve_def
  by code_simp+

lemma uri_tables:
  "uri_bit uri_escape b = (\<not> (ecma_reserved b \<or> ecma_unescaped b \<or> b = 0x23))"
  "uri_bit uri_component_escape b = (\<not> ecma_unescaped b)"
  "uri_bit uri_reserve b = (ecma_reserved b \<or> b = 0x23)"
  "uri_bit uri_component_reserve b = False"
  using uri_tables_int [THEN byte_range, of b]
  by (simp_all add: uri_bit_int ecma_int word_uint_eq_iff uri_escape_def uri_component_escape_def
      uri_reserve_def uri_component_reserve_def)

section \<open>Escaping and unescaping\<close>

lemma uri_hex_digit: "k < 16 \<Longrightarrow> uri_unhex ! unat (uri_hex ! k) = int k"
proof (erule below_list [rotated])
  show "list_all (\<lambda>k. uri_unhex ! unat (uri_hex ! k) = int k) [0..<16]" by code_simp
qed

lemma byte_of_halves: "of_int (int (unat (drop_bit 4 b)) * 16 + int (unat (b AND 0xf))) = (b :: u8)"
proof -
  have "unat (drop_bit 4 b) * 16 + unat (b AND 0x0f) = unat b"
    by (simp add: unat_bits mult.commute)
  moreover have "of_int (int a * 16 + int c) = (of_nat (a * 16 + c) :: u8)" for a c by simp
  ultimately have "of_int (int (unat (drop_bit 4 b)) * 16 + int (unat (b AND 0xf))) = (of_nat (unat b) :: u8)"
    by (simp only:)
  then show ?thesis by simp
qed

locale uri_pair =
  fixes escape reserve :: "u32 list"
  assumes percent: "uri_bit escape 0x25"
    and high: "0x80 \<le> b \<Longrightarrow> uri_bit escape b"
    and apart: "uri_bit escape b \<Longrightarrow> \<not> uri_bit reserve b"
begin

lemma count_escaped:
  "uri_decode_count reserve (concat (map (uri_escaped escape) bs)) =
     Some (sum_list (map (\<lambda>b. if uri_bit escape b then 2 else 0) bs))"
proof (induction bs)
  case (Cons b bs)
  then show ?case
    using half_bytes [of b] byte_of_halves [of b] apart [of b] percent
    by (auto simp: uri_escaped_def Let_def uri_hex_digit)
qed simp

lemma decode_escaped:
  "uri_decode_bytes reserve (concat (map (uri_escaped escape) bs)) utf8 =
     (utf8 \<or> list_ex (\<lambda>b. 0x80 \<le> b) bs, bs)"
proof (induction bs arbitrary: utf8)
  case (Cons b bs)
  then show ?case
    using half_bytes [of b] byte_of_halves [of b] apart [of b] percent high [of b]
    by (auto simp: uri_escaped_def Let_def uri_hex_digit)
qed simp

lemma length_escaped:
  "length (concat (map (uri_escaped escape) bs)) =
     length bs + sum_list (map (\<lambda>b. if uri_bit escape b then 2 else 0) bs)"
  by (induction bs) (auto simp: uri_escaped_def)

lemma count_zero:
  "sum_list (map (\<lambda>b. if uri_bit escape b then 2 else 0) bs) = (0 :: nat) \<longleftrightarrow> \<not> list_ex (uri_bit escape) bs"
  by (induction bs) auto

lemma unescaped_id:
  "sum_list (map (\<lambda>b. if uri_bit escape b then 2 else 0) bs) = (0 :: nat) \<Longrightarrow>
   concat (map (uri_escaped escape) bs) = bs"
  by (induction bs) (auto simp: uri_escaped_def split: if_splits)

end

interpretation uri: uri_pair uri_escape uri_reserve
  by unfold_locales (auto simp: uri_tables ecma_int reserved_int_def unescaped_int_def word_le_def)

interpretation uri_component: uri_pair uri_component_escape uri_component_reserve
  by unfold_locales (auto simp: uri_tables ecma_int unescaped_int_def word_le_def)


lemma alloc_ascii: "n \<le> NJS_STRING_MAX_LENGTH \<Longrightarrow>
    njs_string_alloc n n = Inr \<lparr>str_start = replicate n 0, str_length = n, str_map = []\<rparr>"
  by (simp add: njs_string_alloc_def)

lemma all_ascii: "\<not> list_ex (\<lambda>b. 0x80 \<le> b) bs \<Longrightarrow> njs_utf8_length bs = int (length bs)"
proof -
  assume "\<not> list_ex (\<lambda>b. 0x80 \<le> b) bs"
  then have "list_all (\<lambda>b. unat b < 0x80) bs" by (induction bs) (auto simp: word_le_nat_alt)
  then have "utf8_length_loop bs n = n + int (length bs)" for n
    by (induction bs arbitrary: n)
      (auto simp: njs_utf8_decode_def Let_def word_less_nat_alt unat_ucast_up u32_eq_iff)
  then show ?thesis by (simp add: njs_utf8_length_def)
qed

context uri_pair
begin

lemma encode_decode_value:
  assumes s: "holds_text s us" and room: "3 * str_size s \<le> NJS_STRING_MAX_LENGTH"
  shows "\<exists>e. njs_string_encode s escape = Inr e \<and>
    str_start e = concat (map (uri_escaped escape) (str_start s)) \<and>
    njs_string_decode e reserve = Inr
      (if list_ex (uri_bit escape) (str_start s)
       then \<lparr>str_start = str_start s, str_length = str_length s, str_map = []\<rparr> else s)"
proof -
  let ?n = "sum_list (map (\<lambda>b. if uri_bit escape b then 2 else 0) (str_start s)) :: nat"
  let ?e = "concat (map (uri_escaped escape) (str_start s))"
  have none: "?n = 0 \<longleftrightarrow> \<not> list_ex (uri_bit escape) (str_start s)"
    by (rule count_zero)
  have cnt: "uri_decode_count reserve ?e = Some ?n" by (rule count_escaped)
  have len: "length ?e = str_size s + ?n" by (rule length_escaped)
  have n: "?n \<le> 2 * str_size s"
    using sum_list_mono [of "str_start s" "\<lambda>b. if uri_bit escape b then 2 else 0" "\<lambda>_. 2 :: nat"]
    by (simp add: sum_list_triv mult.commute)
  show ?thesis
  proof (cases "?n = 0")
    case True
    with unescaped_id [of "str_start s"] cnt none show ?thesis
      by (simp add: njs_string_encode_def njs_string_decode_def Let_def del: sum_list_eq_0_iff)
  next
    case False
    have us: "list_all utf8_scalar us" "str_start s = utf8_text us" "str_length s = length us"
      using s by (auto simp: holds_text_def)
    have "njs_utf8_length (utf8_text us) = int (length us)"
      using length_loop_text [OF us(1), of 0] by (simp add: njs_utf8_length_def)
    then have ul: "njs_utf8_length (str_start s) = int (str_length s)" using us by simp
    let ?v = "\<lparr>str_start = ?e, str_length = str_size s + ?n, str_map = []\<rparr>"
    have enc: "njs_string_encode s escape = Inr ?v"
      using False room n by (simp add: njs_string_encode_def Let_def alloc_ascii del: sum_list_eq_0_iff)
    have "njs_string_decode ?v reserve = Inr \<lparr>str_start = str_start s, str_length = str_length s, str_map = []\<rparr>"
    proof (cases "list_ex (\<lambda>b. 0x80 \<le> b) (str_start s)")
      case True
      with False room cnt len ul show ?thesis
        by (simp add: njs_string_decode_def Let_def alloc_ascii decode_escaped del: sum_list_eq_0_iff)
    next
      case False
      then have "str_size s = str_length s" using all_ascii ul by simp
      with False \<open>?n \<noteq> 0\<close> room cnt len show ?thesis
        by (simp add: njs_string_decode_def Let_def alloc_ascii decode_escaped del: sum_list_eq_0_iff)
    qed
    with enc False none show ?thesis by (simp del: sum_list_eq_0_iff)
  qed
qed

end

text \<open>
  C24. Unescaping undoes escaping, for \<open>encodeURI\<close> with \<open>decodeURI\<close> and for the component
  variants: no error is raised and the bytes and the length of the string come back.
\<close>

theorem uri_roundtrip:
  assumes "holds_text s us" "3 * str_size s \<le> NJS_STRING_MAX_LENGTH"
  shows "(\<exists>e r. njs_string_encode_uri (Some s) = Inr (Some e) \<and> njs_string_decode_uri (Some e) = Inr (Some r) \<and>
      str_start r = str_start s \<and> str_length r = str_length s) \<and>
    (\<exists>e r. njs_string_encode_uri_component (Some s) = Inr (Some e) \<and>
      njs_string_decode_uri_component (Some e) = Inr (Some r) \<and>
      str_start r = str_start s \<and> str_length r = str_length s)"
  using uri.encode_decode_value [OF assms] uri_component.encode_decode_value [OF assms]
  by (auto simp: njs_string_encode_uri_def njs_string_decode_uri_def njs_string_encode_uri_component_def
      njs_string_decode_uri_component_def uri_call_def split: if_splits)

theorem uri_roundtrip_witness:
  "\<exists>e r. njs_string_encode_uri (Some \<lparr>str_start = utf8_text long_text, str_length = 40, str_map = [0]\<rparr>) = Inr (Some e) \<and>
     njs_string_decode_uri (Some e) = Inr (Some r) \<and> str_start r = utf8_text long_text"
proof -
  have "3 * str_size \<lparr>str_start = utf8_text long_text, str_length = 40, str_map = [0]\<rparr> \<le> NJS_STRING_MAX_LENGTH"
    by (simp add: size_long_text NJS_STRING_MAX_LENGTH_def)
  from uri_roundtrip [OF holds_long_text this] show ?thesis by auto
qed

text \<open>
  What the round trip does not restore is the offset map: the decoder allocates the
  result as plain ASCII and only then stores the number of characters. For a text of
  more than 32 characters that is not ASCII, the result has no map although its
  length promises one, and \<open>njs_string_offset\<close> accesses memory behind the string.
\<close>

theorem uri_decode_loses_map:
  assumes "holds_text s us" "3 * str_size s \<le> NJS_STRING_MAX_LENGTH"
    and "str_size s \<noteq> str_length s" "32 < str_length s" "32 \<le> index"
  shows "\<exists>e r. njs_string_encode_uri_component (Some s) = Inr (Some e) \<and>
    njs_string_decode_uri_component (Some e) = Inr (Some r) \<and>
    str_size r \<noteq> str_length r \<and> str_map r = [] \<and> njs_string_offset r index = None"
proof -
  have "list_ex (\<lambda>b. 0x80 \<le> b) (str_start s)"
  proof (rule ccontr)
    assume no: "\<not> list_ex (\<lambda>b. 0x80 \<le> b) (str_start s)"
    have us: "list_all utf8_scalar us" "str_start s = utf8_text us" "str_length s = length us"
      using assms(1) by (auto simp: holds_text_def)
    have "njs_utf8_length (utf8_text us) = int (length us)"
      using length_loop_text [OF us(1), of 0] by (simp add: njs_utf8_length_def)
    with all_ascii [OF no] us assms(3) show False by simp
  qed
  then have "list_ex (uri_bit uri_component_escape) (str_start s)"
    using uri_component.high by (auto simp: list_ex_iff)
  with uri_component.encode_decode_value [OF assms(1,2)] assms(3-5) show ?thesis
    by (auto simp: njs_string_encode_uri_component_def njs_string_decode_uri_component_def uri_call_def
        njs_string_offset_def NJS_STRING_MAP_STRIDE_def offset_map_def)
qed

theorem uri_decode_loses_map_witness:
  "\<exists>r. str_size r \<noteq> str_length r \<and> njs_string_offset r 35 = None"
proof -
  have "3 * str_size \<lparr>str_start = utf8_text long_text, str_length = 40, str_map = [0]\<rparr> \<le> NJS_STRING_MAX_LENGTH"
    by (simp add: size_long_text NJS_STRING_MAX_LENGTH_def)
  from uri_decode_loses_map [OF holds_long_text this, of 35] show ?thesis
    by (auto simp: size_long_text)
qed

lemma decode_plain:
  "0x25 \<notin> set bs \<Longrightarrow> uri_decode_count reserve (bs @ p) = uri_decode_count reserve p \<and>
     uri_decode_bytes reserve (bs @ p) utf8 = apsnd ((@) bs) (uri_decode_bytes reserve p utf8)"
  by (induction bs) (auto simp: apsnd_def map_prod_def split: prod.split)

text \<open>
  A character that stands unescaped in the argument of \<open>decodeURI\<close> does not mark the
  result as UTF-8: when some ASCII character is escaped, the result of decoding a text
  followed by an escaped space has its size in bytes as length.
\<close>

theorem uri_decode_raw_length:
  assumes "0x25 \<notin> set bs" "length bs < NJS_STRING_MAX_LENGTH"
  shows "njs_string_decode_uri (Some \<lparr>str_start = bs @ ascii ''%20'', str_length = len, str_map = m\<rparr>) =
    Inr (Some \<lparr>str_start = bs @ [0x20], str_length = length bs + 1, str_map = []\<rparr>)"
proof -
  have space: "\<not> uri_bit uri_reserve 0x20"
    by (simp add: uri_tables ecma_int reserved_int_def)
  have hex: "uri_unhex ! unat (0x32 :: u8) = 2" "uri_unhex ! unat (0x30 :: u8) = 0"
    by (simp_all add: uri_unhex_def)
  have "uri_decode_count uri_reserve [0x25, 0x32, 0x30] = Some 2"
    "uri_decode_bytes uri_reserve [0x25, 0x32, 0x30] False = (False, [0x20])"
    using space hex by (simp_all add: Let_def)
  with decode_plain [OF assms(1), of uri_reserve "[0x25, 0x32, 0x30]" False] assms(2) show ?thesis
    by (simp add: njs_string_decode_uri_def uri_call_def njs_string_decode_def Let_def alloc_ascii)
qed

theorem uri_decode_raw_length_witness:
  "njs_string_decode_uri (Some \<lparr>str_start = [0xCE, 0xB1] @ ascii ''%20'', str_length = 4, str_map = []\<rparr>) =
     Inr (Some \<lparr>str_start = [0xCE, 0xB1, 0x20], str_length = 3, str_map = []\<rparr>)"
  using uri_decode_raw_length [of "[0xCE, 0xB1]" 4 "[]"] by (simp add: NJS_STRING_MAX_LENGTH_def)

text \<open>
  The bit tables are the character sets of ECMA-262: \<open>encodeURI\<close> escapes all but the
  reserved and unescaped characters and the number sign, \<open>encodeURIComponent\<close> all but the
  unescaped ones; \<open>decodeURI\<close> keeps the escapes of reserved characters and of the number
  sign, \<open>decodeURIComponent\<close> none.
\<close>

theorem uri_tables_ecma:
  "uri_bit uri_escape b = (\<not> (ecma_reserved b \<or> ecma_unescaped b \<or> b = 0x23)) \<and>
   uri_bit uri_component_escape b = (\<not> ecma_unescaped b) \<and>
   uri_bit uri_reserve b = (ecma_reserved b \<or> b = 0x23) \<and>
   uri_bit uri_component_reserve b = False"
  using uri_tables by simp

end
