(* ===== verification/Njs_Digest.thy ===== *)
theory Njs_Digest
  imports Njs_Prelude
begin

text \<open>
  What the three digests of \<open>src/src\<close> (MD5, SHA-1, SHA-256) share. A digest context is a
  byte counter, a chaining state and a 64-byte buffer; the view of a context is this
  triple. The streaming update and the padding of the final call are stated once over
  views, with the compression function of one block as a parameter, and related to the
  usual definition of the hash: compress the 64-byte blocks of the padded message.

  The locale \<open>hash_alg\<close> is the interface the crypto module has to a digest: the entries
  \<open>init\<close>, \<open>update\<close>, \<open>final\<close> and \<open>size\<close> of its algorithm table.
\<close>

section \<open>Blocks and padding\<close>

function chunks64 :: "bytes \<Rightarrow> bytes list" where
  "chunks64 [] = []"
| "chunks64 (b # p) = take 64 (b # p) # chunks64 (drop 64 (b # p))"
  by pat_completeness auto
termination by (relation "measure length") auto

lemma chunks64_block [simp]: "length p = 64 \<Longrightarrow> chunks64 p = [p]"
  by (cases p) simp_all

lemma chunks64_block_append: "length p = 64 \<Longrightarrow> chunks64 (p @ q) = p # chunks64 q"
  by (cases p) simp_all

lemma chunks64_append: "64 dvd length p \<Longrightarrow> chunks64 (p @ q) = chunks64 p @ chunks64 q"
proof (induction p rule: chunks64.induct)
  case (2 b p)
  let ?p = "b # p"
  have len: "64 \<le> length ?p" using 2(2) by (intro dvd_imp_le) simp_all
  have "64 dvd length (drop 64 ?p)" using 2(2) len unfolding length_drop by (intro dvd_diff_nat) simp_all
  then have "chunks64 (take 64 ?p @ drop 64 ?p @ q) = take 64 ?p # chunks64 (drop 64 ?p) @ chunks64 q"
    using 2(1) len by (subst chunks64_block_append) (simp_all del: drop_Cons_numeral)
  then show ?case by (simp del: take_Cons_numeral drop_Cons_numeral flip: append.assoc)
qed simp

text \<open>
  The do-while loop of the \<open>_body\<close> functions, over the bytes of a positive multiple of
  64; \<open>while (size -= 64)\<close> leaves the loop when nothing is left.
\<close>

function body_loop :: "('s \<Rightarrow> bytes \<Rightarrow> 's) \<Rightarrow> 's \<Rightarrow> bytes \<Rightarrow> 's" where
  "body_loop block st p =
     (let st' = block st (take 64 p); rest = drop 64 p
      in if rest = [] then st' else body_loop block st' rest)"
  by pat_completeness auto
termination by (relation "measure (\<lambda>(block, st, p). length p)") auto

declare body_loop.simps [simp del]

lemma body_loop_chunks:
  "64 dvd length p \<Longrightarrow> p \<noteq> [] \<Longrightarrow> body_loop block st p = foldl block st (chunks64 p)"
proof (induction block st p rule: body_loop.induct)
  case (1 block st p)
  obtain b q where p: "p = b # q" using 1(3) by (cases p) auto
  show ?case
  proof (cases "drop 64 p = []")
    case True
    with p show ?thesis
      by (subst body_loop.simps) (simp add: Let_def del: take_Cons_numeral drop_Cons_numeral)
  next
    case False
    moreover have "64 dvd length (drop 64 p)" using 1(2) by (simp add: dvd_diff_nat)
    ultimately have "body_loop block (block st (take 64 p)) (drop 64 p) =
        foldl block (block st (take 64 p)) (chunks64 (drop 64 p))"
      using 1(1) by simp
    with False p show ?thesis
      by (subst body_loop.simps) (simp add: Let_def del: take_Cons_numeral drop_Cons_numeral)
  qed
qed

lemma body_loop_block: "length p = 64 \<Longrightarrow> body_loop block st p = block st p"
  by (subst body_loop_chunks) auto

definition le64 :: "u64 \<Rightarrow> bytes" where
  "le64 n = [ucast n, ucast (drop_bit 8 n), ucast (drop_bit 16 n), ucast (drop_bit 24 n),
     ucast (drop_bit 32 n), ucast (drop_bit 40 n), ucast (drop_bit 48 n), ucast (drop_bit 56 n)]"

definition be64 :: "u64 \<Rightarrow> bytes" where
  "be64 n = [ucast (drop_bit 56 n), ucast (drop_bit 48 n), ucast (drop_bit 40 n),
     ucast (drop_bit 32 n), ucast (drop_bit 24 n), ucast (drop_bit 16 n), ucast (drop_bit 8 n), ucast n]"

definition le32 :: "u32 \<Rightarrow> bytes" where
  "le32 w = [ucast w, ucast (drop_bit 8 w), ucast (drop_bit 16 w), ucast (drop_bit 24 w)]"

definition be32 :: "u32 \<Rightarrow> bytes" where
  "be32 w = [ucast (drop_bit 24 w), ucast (drop_bit 16 w), ucast (drop_bit 8 w), ucast w]"

lemma length_words [simp]:
  "length (le32 w) = 4" "length (be32 w) = 4" "length (le64 n) = 8" "length (be64 n) = 8"
  by (simp_all add: le32_def be32_def le64_def be64_def)

text \<open>The padding of RFC 1321 and FIPS 180-4, the bit length taken modulo \<open>2 ^ 64\<close>.\<close>

definition padding :: "(u64 \<Rightarrow> bytes) \<Rightarrow> nat \<Rightarrow> bytes" where
  "padding enc n = 0x80 # replicate ((119 - n mod 64) mod 64) 0 @ enc (push_bit 3 (of_nat n))"

definition md_hash :: "('s \<Rightarrow> bytes \<Rightarrow> 's) \<Rightarrow> (u64 \<Rightarrow> bytes) \<Rightarrow> 's \<Rightarrow> bytes \<Rightarrow> 's" where
  "md_hash block enc iv m = foldl block iv (chunks64 (m @ padding enc (length m)))"

section \<open>Streaming over views\<close>

type_synonym 's view = "u64 \<times> 's \<times> bytes"

text \<open>The end of an update, once the buffer holds no pending bytes.\<close>

definition stream_tail :: "('s \<Rightarrow> bytes \<Rightarrow> 's) \<Rightarrow> u64 \<Rightarrow> 's \<Rightarrow> bytes \<Rightarrow> bytes \<Rightarrow> 's view" where
  "stream_tail block n st buf data =
     (let whole = length data div 64 * 64;
          st = (if 64 \<le> length data then body_loop block st (take whole data) else st);
          data = (if 64 \<le> length data then drop whole data else data)
      in (n, st, memcpy_at buf 0 data))"

definition stream_update :: "('s \<Rightarrow> bytes \<Rightarrow> 's) \<Rightarrow> 's view \<Rightarrow> bytes \<Rightarrow> 's view" where
  "stream_update block = (\<lambda>(n, st, buf) data.
     let used = unat (n AND 0x3f);
         n = n + of_nat (length data);
         free = 64 - used
     in if used \<noteq> 0 then
          if length data < free then (n, st, memcpy_at buf used data)
          else let buf = memcpy_at buf used (take free data)
               in stream_tail block n (body_loop block st buf) buf (drop free data)
        else stream_tail block n st buf data)"

definition stream_final :: "('s \<Rightarrow> bytes \<Rightarrow> 's) \<Rightarrow> (u64 \<Rightarrow> bytes) \<Rightarrow> 's view \<Rightarrow> 's" where
  "stream_final block enc = (\<lambda>(n, st, buf).
     let used = unat (n AND 0x3f);
         buf = buf[used := 0x80];
         used = used + 1;
         free = 64 - used;
         full = free < 8;
         buf = (if full then memcpy_at buf used (replicate free 0) else buf);
         st = (if full then body_loop block st buf else st);
         used = (if full then 0 else used);
         free = (if full then 64 else free);
         buf = memcpy_at buf used (replicate (free - 8) 0);
         buf = memcpy_at buf 56 (enc (push_bit 3 n))
     in body_loop block st buf)"

text \<open>
  A view has absorbed a message: the blocks of a prefix are compressed, the bytes after
  it wait in the buffer.
\<close>

definition absorbed :: "('s \<Rightarrow> bytes \<Rightarrow> 's) \<Rightarrow> 's \<Rightarrow> 's view \<Rightarrow> bytes \<Rightarrow> bool" where
  "absorbed block iv = (\<lambda>(n, st, buf) m.
     \<exists>ms pending. m = ms @ pending \<and> 64 dvd length ms \<and> length pending < 64 \<and>
       n = of_nat (length m) \<and> length buf = 64 \<and> st = foldl block iv (chunks64 ms) \<and>
       take (length pending) buf = pending)"

lemma absorbedI:
  assumes "64 dvd length ms" "length p < 64" "m = ms @ p" "n = of_nat (length m)"
    "length buf = 64" "st = foldl block iv (chunks64 ms)" "take (length p) buf = p"
  shows "absorbed block iv (n, st, buf) m"
  using assms by (auto simp: absorbed_def)

lemma absorbed_init: "length buf = 64 \<Longrightarrow> absorbed block iv (0, iv, buf) []"
  by (auto simp: absorbed_def)

lemma used_bytes:
  assumes "64 dvd length ms" "length pending < 64"
  shows "unat ((of_nat (length (ms @ pending)) :: u64) AND 0x3f) = length pending"
proof -
  have "length (ms @ pending) mod 2 ^ 64 mod 64 = length (ms @ pending) mod 64"
    by (rule mod_mod_cancel) simp
  also have "\<dots> = length pending" using assms by (simp add: mod_add_left_eq [symmetric])
  finally show ?thesis by (simp add: unat_bits unat_of_nat del: length_append)
qed

lemma stream_tail_absorbed:
  assumes "64 dvd length ms" "length buf = 64" "st = foldl block iv (chunks64 ms)"
    and n: "n = of_nat (length (ms @ data))"
  shows "absorbed block iv (stream_tail block n st buf data) (ms @ data)"
proof (cases "64 \<le> length data")
  case True
  let ?w = "length data div 64 * 64"
  have w: "?w \<le> length data" "0 < ?w" using True by simp_all
  then have "length (take ?w data) = ?w" by simp
  with w(2) have "take ?w data \<noteq> []" "64 dvd length (take ?w data)" by force+
  then have "body_loop block st (take ?w data) = foldl block iv (chunks64 (ms @ take ?w data))"
    using assms by (simp add: body_loop_chunks chunks64_append)
  moreover have "length data - ?w < 64" by (simp add: minus_div_mult_eq_mod)
  ultimately have "absorbed block iv (n, body_loop block st (take ?w data), memcpy_at buf 0 (drop ?w data))
      (ms @ data)"
    using assms w by (intro absorbedI [of "ms @ take ?w data" "drop ?w data"])
      (simp_all add: memcpy_at_def min_absorb2)
  with True show ?thesis by (simp add: stream_tail_def Let_def)
next
  case False
  with assms show ?thesis
    by (auto simp: stream_tail_def memcpy_at_def intro!: absorbedI [of ms data])
qed

lemma stream_update_absorbed:
  assumes "absorbed block iv v m"
  shows "absorbed block iv (stream_update block v data) (m @ data)"
proof -
  obtain n st buf where v: "v = (n, st, buf)" by (cases v)
  with assms obtain ms p where m: "m = ms @ p" and ms: "64 dvd length ms" and p: "length p < 64"
    and n: "n = of_nat (length m)" and buf: "length buf = 64"
    and st: "st = foldl block iv (chunks64 ms)" and tk: "take (length p) buf = p"
    by (auto simp: absorbed_def)
  have used: "unat (n AND 0x3f) = length p" unfolding n m by (rule used_bytes [OF ms p])
  consider "p = []" | "p \<noteq> []" "length data < 64 - length p" | "p \<noteq> []" "64 - length p \<le> length data"
    by linarith
  then show ?thesis
  proof cases
    case 1
    then have "absorbed block iv (stream_tail block (n + of_nat (length data)) st buf data) (ms @ data)"
      by (intro stream_tail_absorbed ms buf st) (simp add: n m)
    with 1 show ?thesis
      by (simp add: v m stream_update_def used)
  next
    case 2
    with ms p buf st tk
    have "absorbed block iv (n + of_nat (length data), st, memcpy_at buf (length p) data) (m @ data)"
      by (intro absorbedI [of ms "p @ data"]) (simp_all add: m n memcpy_at_def)
    with 2 show ?thesis by (simp add: v stream_update_def used)
  next
    case 3
    let ?f = "64 - length p"
    let ?buf = "memcpy_at buf (length p) (take ?f data)"
    have b: "?buf = p @ take ?f data" "length ?buf = 64"
      using 3 p buf tk by (simp_all add: memcpy_at_def min_absorb2)
    let ?ms = "ms @ ?buf"
    have "absorbed block iv
        (stream_tail block (n + of_nat (length data)) (body_loop block st ?buf) ?buf (drop ?f data))
        (?ms @ drop ?f data)"
    proof (rule stream_tail_absorbed)
      show "64 dvd length ?ms" using ms b(2) by simp
      show "body_loop block st ?buf = foldl block iv (chunks64 ?ms)"
        using b(2) ms by (simp only: body_loop_block chunks64_append chunks64_block st) simp
      show "n + of_nat (length data) = of_nat (length (?ms @ drop ?f data))"
        unfolding append_assoc using b(1) by (simp add: n m)
    qed (rule b(2))
    moreover have "?ms @ drop ?f data = m @ data" using b(1) m by simp
    ultimately show ?thesis
      using 3 by (simp add: v stream_update_def used Let_def)
  qed
qed

lemma padding_fill:
  fixes u :: nat
  assumes "u < 64"
  shows "(119 - u) mod 64 = (if 56 \<le> u then 119 - u else 55 - u)"
proof (cases "56 \<le> u")
  case False
  then have "119 - u = (55 - u) + 64" by simp
  then have "(119 - u) mod 64 = (55 - u) mod 64" by (simp only: mod_add_self2)
  with False show ?thesis by simp
qed simp

lemma stream_final_absorbed:
  assumes "absorbed block iv v m" "\<And>w. length (enc w) = 8"
  shows "stream_final block enc v = md_hash block enc iv m"
proof -
  obtain n st buf where v: "v = (n, st, buf)" by (cases v)
  with assms(1) obtain ms p where m: "m = ms @ p" and ms: "64 dvd length ms" and p: "length p < 64"
    and n: "n = of_nat (length m)" and buf: "length buf = 64"
    and st: "st = foldl block iv (chunks64 ms)" and tk: "take (length p) buf = p"
    by (auto simp: absorbed_def)
  have used: "unat (n AND 0x3f) = length p" unfolding n m by (rule used_bytes [OF ms p])
  have len: "length m mod 64 = length p" using ms p by (simp add: m mod_add_left_eq [symmetric])
  let ?pad = "padding enc (length m)" and ?bits = "enc (push_bit 3 n)"
  have hash: "md_hash block enc iv m = foldl block st (chunks64 (p @ ?pad))"
    using ms by (simp add: md_hash_def m chunks64_append st)
  have b80: "take (length p) buf @ 0x80 # drop (length p + 1) buf = buf[length p := 0x80]"
    using p buf by (simp add: upd_conv_take_nth_drop)
  show ?thesis
  proof (cases "56 \<le> length p")
    case True
    have one: "memcpy_at (buf[length p := 0x80]) (Suc (length p)) (replicate (63 - length p) 0) =
        p @ 0x80 # replicate (63 - length p) 0"
      using p buf tk b80 by (simp add: memcpy_at_def flip: b80)
    have two: "memcpy_at (memcpy_at q 0 (replicate 56 0)) 56 ?bits = replicate 56 0 @ ?bits"
      if "length q = 64" for q :: bytes
      using that assms(2) by (simp add: memcpy_at_def)
    have "replicate (119 - length p) 0 = replicate (63 - length p) (0 :: u8) @ replicate 56 0"
      using p by (subst replicate_add [symmetric]) simp
    then have "p @ ?pad = (p @ 0x80 # replicate (63 - length p) 0) @ (replicate 56 0 @ ?bits)"
      using True p by (simp add: padding_def len padding_fill n)
    moreover have "length (p @ 0x80 # replicate (63 - length p) (0 :: u8)) = 64"
      "length (replicate 56 0 @ ?bits) = 64" using p assms(2) by simp_all
    ultimately have "chunks64 (p @ ?pad) =
        [p @ 0x80 # replicate (63 - length p) 0, replicate 56 0 @ ?bits]"
      by (simp only: chunks64_block_append chunks64_block)
    moreover have "63 - length p < 8" using True by simp
    ultimately show ?thesis
      using p unfolding hash v stream_final_def
      by (simp add: used Let_def one two body_loop_block assms(2))
  next
    case False
    then have s: "56 - length p = Suc (55 - length p)" by simp
    have one: "memcpy_at (memcpy_at (buf[length p := 0x80]) (Suc (length p)) (replicate (55 - length p) 0)) 56 ?bits =
        p @ 0x80 # replicate (55 - length p) 0 @ ?bits"
      using p buf tk assms(2) s by (simp add: memcpy_at_def flip: b80)
    have "p @ ?pad = p @ 0x80 # replicate (55 - length p) 0 @ ?bits"
      using False p by (simp add: padding_def len padding_fill n)
    moreover from this have "chunks64 (p @ ?pad) = [p @ 0x80 # replicate (55 - length p) 0 @ ?bits]"
      using False p assms(2) by simp
    moreover have "\<not> 63 - length p < 8" using False by simp
    ultimately show ?thesis
      using False p unfolding hash v stream_final_def
      by (simp add: used Let_def one body_loop_block assms(2))
  qed
qed

section \<open>Step tables and message schedules\<close>

lemma fold_table:
  assumes "length rows = n" "\<And>i. i < n \<Longrightarrow> step (rows ! i) = op i"
  shows "fold step rows = fold op [0..<n]"
proof -
  have "fold step rows = fold step (map ((!) rows) [0..<length rows])"
    by (simp only: map_nth)
  also have "\<dots> = fold (\<lambda>i. step (rows ! i)) [0..<n]"
    by (simp only: fold_map assms(1) comp_def)
  also have "\<dots> = fold op [0..<n]"
    by (intro ext fold_cong) (simp_all add: assms(2))
  finally show ?thesis .
qed


text \<open>
  The loop that extends the sixteen words of a block: \<open>words[i] = next\<close>, computed from the
  words before it.
\<close>

definition extend_words :: "(u32 list \<Rightarrow> nat \<Rightarrow> u32) \<Rightarrow> nat \<Rightarrow> u32 list \<Rightarrow> u32 list" where
  "extend_words next n ws = foldl (\<lambda>ws i. ws @ [next ws i]) ws [16..<n]"

lemma extend_words_nth:
  assumes ws: "length ws = 16" "\<And>j. j < 16 \<Longrightarrow> ws ! j = W j"
    and step: "\<And>i xs. 16 \<le> i \<Longrightarrow> length xs = i \<Longrightarrow> (\<And>j. j < i \<Longrightarrow> xs ! j = W j) \<Longrightarrow> next xs i = W i"
    and n: "16 \<le> n"
  shows "extend_words next n ws = map W [0..<n]"
  using n
proof (induction n rule: dec_induct)
  case base
  have "ws = map W [0..<16]" using ws by (intro nth_equalityI) simp_all
  then show ?case by (simp add: extend_words_def)
next
  case (step n)
  have "next (map W [0..<n]) n = W n" using step(1) by (intro assms(3)) simp_all
  with step show ?case by (simp add: extend_words_def)
qed

text \<open>The macro \<open>GET\<close> of the two SHA digests, all sixteen words of the block at \<open>p\<close>.\<close>

definition sha_words :: "bytes \<Rightarrow> u32 list" where
  "sha_words p = map (\<lambda>n. load32 (p ! (n * 4 + 3)) (p ! (n * 4 + 2)) (p ! (n * 4 + 1)) (p ! (n * 4))) [0..<16]"

lemma length_sha_words [simp]: "length (sha_words p) = 16"
  by (simp add: sha_words_def)

section \<open>The interface of a digest\<close>

text \<open>
  \<open>ready\<close> is what a context needs before \<open>init\<close>; \<open>holds c m\<close> says that the context has
  been fed \<open>m\<close> since its last \<open>init\<close>; \<open>hash\<close> is the function the digest computes.
\<close>

locale hash_alg =
  fixes init :: "'c \<Rightarrow> 'c"
    and update :: "'c \<Rightarrow> bytes \<Rightarrow> 'c"
    and final :: "'c \<Rightarrow> bytes \<times> 'c"
    and ready :: "'c \<Rightarrow> bool"
    and holds :: "'c \<Rightarrow> bytes \<Rightarrow> bool"
    and hash :: "bytes \<Rightarrow> bytes"
  assumes init_holds: "ready c \<Longrightarrow> holds (init c) []"
    and update_holds: "holds c m \<Longrightarrow> holds (update c data) (m @ data)"
    and final_hash: "holds c m \<Longrightarrow> fst (final c) = hash m"
    and final_ready: "ready (snd (final c))"
begin

lemma updates_hold: "holds c m \<Longrightarrow> holds (foldl update c ds) (m @ concat ds)"
proof (induction ds arbitrary: c m)
  case (Cons d ds)
  then show ?case using Cons.IH [OF update_holds [of c m d]] by simp
qed simp

lemma stream_hash: "ready c \<Longrightarrow> fst (final (foldl update (init c) ds)) = hash (concat ds)"
  using updates_hold [OF init_holds, of c ds] by (simp add: final_hash)

lemma restart_hash:
  "fst (final (foldl update (init (snd (final c))) ds)) = hash (concat ds)"
  by (rule stream_hash) (rule final_ready)

end

end
