(* ===== verification/Njs_Md5.thy ===== *)
theory Njs_Md5
  imports Njs_Digest
begin

text \<open>
  The MD5 digest of \<open>src/src/njs_md5.c\<close>: the context, the 64 steps of one block as the
  table of the code's \<open>STEP\<close> lines, \<open>njs_md5_init\<close>, \<open>njs_md5_update\<close> and \<open>njs_md5_final\<close>;
  and, as specification, the algorithm the way RFC 1321 gives it, with its own round
  functions, index formulas and shift amounts.
\<close>

section \<open>The code\<close>

record njs_md5_t =
  md5_bytes :: u64
  md5_a :: u32
  md5_b :: u32
  md5_c :: u32
  md5_d :: u32
  md5_buffer :: bytes

definition njs_md5_init :: "njs_md5_t \<Rightarrow> njs_md5_t" where
  "njs_md5_init ctx = ctx\<lparr>md5_a := 0x67452301, md5_b := 0xefcdab89, md5_c := 0x98badcfe,
     md5_d := 0x10325476, md5_bytes := 0\<rparr>"

definition md5_F :: "u32 \<Rightarrow> u32 \<Rightarrow> u32 \<Rightarrow> u32" where
  "md5_F x y z = z XOR (x AND (y XOR z))"

definition md5_G :: "u32 \<Rightarrow> u32 \<Rightarrow> u32 \<Rightarrow> u32" where
  "md5_G x y z = y XOR (z AND (x XOR y))"

definition md5_H :: "u32 \<Rightarrow> u32 \<Rightarrow> u32 \<Rightarrow> u32" where
  "md5_H x y z = (x XOR y) XOR z"

definition md5_I :: "u32 \<Rightarrow> u32 \<Rightarrow> u32 \<Rightarrow> u32" where
  "md5_I x y z = y XOR (x OR NOT z)"

text \<open>
  One \<open>STEP\<close>. Consecutive steps of the code name the registers in the orders
  \<open>a b c d\<close>, \<open>d a b c\<close>, \<open>c d a b\<close>, \<open>b c d a\<close>; here the registers are handed over in
  the order the next step names them.
\<close>

type_synonym md5_regs = "u32 \<times> u32 \<times> u32 \<times> u32"

definition md5_step ::
  "u32 list \<Rightarrow> (u32 \<Rightarrow> u32 \<Rightarrow> u32 \<Rightarrow> u32) \<times> nat \<times> u32 \<times> nat \<Rightarrow> md5_regs \<Rightarrow> md5_regs" where
  "md5_step blk = (\<lambda>(f, n, t, s) (a, b, c, d).
     let a = a + (f b c d + blk ! n + t);
         a = push_bit s a OR drop_bit (32 - s) (a AND 0xffffffff);
         a = a + b
     in (d, a, b, c))"

text \<open>The macro \<open>SET(n)\<close>, all sixteen words of the block at \<open>p\<close>.\<close>

definition md5_words :: "bytes \<Rightarrow> u32 list" where
  "md5_words p = map (\<lambda>n. load32 (p ! (n * 4)) (p ! (n * 4 + 1)) (p ! (n * 4 + 2)) (p ! (n * 4 + 3))) [0..<16]"

definition md5_table :: "((u32 \<Rightarrow> u32 \<Rightarrow> u32 \<Rightarrow> u32) \<times> nat \<times> u32 \<times> nat) list" where
  "md5_table =
  [(md5_F, 0, 0xd76aa478, 7), (md5_F, 1, 0xe8c7b756, 12),
    (md5_F, 2, 0x242070db, 17), (md5_F, 3, 0xc1bdceee, 22),
    (md5_F, 4, 0xf57c0faf, 7), (md5_F, 5, 0x4787c62a, 12),
    (md5_F, 6, 0xa8304613, 17), (md5_F, 7, 0xfd469501, 22),
    (md5_F, 8, 0x698098d8, 7), (md5_F, 9, 0x8b44f7af, 12),
    (md5_F, 10, 0xffff5bb1, 17), (md5_F, 11, 0x895cd7be, 22),
    (md5_F, 12, 0x6b901122, 7), (md5_F, 13, 0xfd987193, 12),
    (md5_F, 14, 0xa679438e, 17), (md5_F, 15, 0x49b40821, 22),
    (md5_G, 1, 0xf61e2562, 5), (md5_G, 6, 0xc040b340, 9),
    (md5_G, 11, 0x265e5a51, 14), (md5_G, 0, 0xe9b6c7aa, 20),
    (md5_G, 5, 0xd62f105d, 5), (md5_G, 10, 0x02441453, 9),
    (md5_G, 15, 0xd8a1e681, 14), (md5_G, 4, 0xe7d3fbc8, 20),
    (md5_G, 9, 0x21e1cde6, 5), (md5_G, 14, 0xc33707d6, 9),
    (md5_G, 3, 0xf4d50d87, 14), (md5_G, 8, 0x455a14ed, 20),
    (md5_G, 13, 0xa9e3e905, 5), (md5_G, 2, 0xfcefa3f8, 9),
    (md5_G, 7, 0x676f02d9, 14), (md5_G, 12, 0x8d2a4c8a, 20),
    (md5_H, 5, 0xfffa3942, 4), (md5_H, 8, 0x8771f681, 11),
    (md5_H, 11, 0x6d9d6122, 16), (md5_H, 14, 0xfde5380c, 23),
    (md5_H, 1, 0xa4beea44, 4), (md5_H, 4, 0x4bdecfa9, 11),
    (md5_H, 7, 0xf6bb4b60, 16), (md5_H, 10, 0xbebfbc70, 23),
    (md5_H, 13, 0x289b7ec6, 4), (md5_H, 0, 0xeaa127fa, 11),
    (md5_H, 3, 0xd4ef3085, 16), (md5_H, 6, 0x04881d05, 23),
    (md5_H, 9, 0xd9d4d039, 4), (md5_H, 12, 0xe6db99e5, 11),
    (md5_H, 15, 0x1fa27cf8, 16), (md5_H, 2, 0xc4ac5665, 23),
    (md5_I, 0, 0xf4292244, 6), (md5_I, 7, 0x432aff97, 10),
    (md5_I, 14, 0xab9423a7, 15), (md5_I, 5, 0xfc93a039, 21),
    (md5_I, 12, 0x655b59c3, 6), (md5_I, 3, 0x8f0ccc92, 10),
    (md5_I, 10, 0xffeff47d, 15), (md5_I, 1, 0x85845dd1, 21),
    (md5_I, 8, 0x6fa87e4f, 6), (md5_I, 15, 0xfe2ce6e0, 10),
    (md5_I, 6, 0xa3014314, 15), (md5_I, 13, 0x4e0811a1, 21),
    (md5_I, 4, 0xf7537e82, 6), (md5_I, 11, 0xbd3af235, 10),
    (md5_I, 2, 0x2ad7d2bb, 15), (md5_I, 9, 0xeb86d391, 21)]"

definition md5_block :: "md5_regs \<Rightarrow> bytes \<Rightarrow> md5_regs" where
  "md5_block = (\<lambda>(saved_a, saved_b, saved_c, saved_d) p.
     let (a, b, c, d) = fold (md5_step (md5_words p)) md5_table (saved_a, saved_b, saved_c, saved_d)
     in (a + saved_a, b + saved_b, c + saved_c, d + saved_d))"

definition md5_view :: "njs_md5_t \<Rightarrow> md5_regs view" where
  "md5_view ctx = (md5_bytes ctx, (md5_a ctx, md5_b ctx, md5_c ctx, md5_d ctx), md5_buffer ctx)"

definition njs_md5_update :: "njs_md5_t \<Rightarrow> bytes \<Rightarrow> njs_md5_t" where
  "njs_md5_update ctx data =
     (let (n, (a, b, c, d), buffer) = stream_update md5_block (md5_view ctx) data
      in ctx\<lparr>md5_bytes := n, md5_a := a, md5_b := b, md5_c := c, md5_d := d, md5_buffer := buffer\<rparr>)"

text \<open>The result of \<open>njs_md5_final\<close> and the context it has wiped.\<close>

definition njs_md5_final :: "njs_md5_t \<Rightarrow> bytes \<times> njs_md5_t" where
  "njs_md5_final ctx =
     (let (a, b, c, d) = stream_final md5_block le64 (md5_view ctx)
      in (le32 a @ le32 b @ le32 c @ le32 d,
          \<lparr>md5_bytes = 0, md5_a = 0, md5_b = 0, md5_c = 0, md5_d = 0, md5_buffer = replicate 64 0\<rparr>))"

section \<open>The specification: RFC 1321\<close>

definition rfc_md5_fun :: "nat \<Rightarrow> u32 \<Rightarrow> u32 \<Rightarrow> u32 \<Rightarrow> u32" where
  "rfc_md5_fun i x y z =
     (if i < 16 then (x AND y) OR (NOT x AND z)
      else if i < 32 then (x AND z) OR (y AND NOT z)
      else if i < 48 then (x XOR y) XOR z
      else y XOR (x OR NOT z))"

definition rfc_md5_index :: "nat \<Rightarrow> nat" where
  "rfc_md5_index i =
     (if i < 16 then i else if i < 32 then (5 * i + 1) mod 16
      else if i < 48 then (3 * i + 5) mod 16 else 7 * i mod 16)"

definition rfc_md5_shift :: "nat \<Rightarrow> nat" where
  "rfc_md5_shift i = [[7, 12, 17, 22], [5, 9, 14, 20], [4, 11, 16, 23], [6, 10, 15, 21]] ! (i div 16) ! (i mod 4)"

text \<open>
  The operation \<open>[abcd k s i]\<close> of the RFC on the register list; \<open>T[i + 1]\<close>, the
  integer part of \<open>2 ^ 32 * abs (sin (i + 1))\<close>, is read from the code's table.
\<close>

definition rfc_md5_op :: "u32 list \<Rightarrow> nat \<Rightarrow> md5_regs \<Rightarrow> md5_regs" where
  "rfc_md5_op X i = (\<lambda>(a, b, c, d).
     (d, b + word_rotl (rfc_md5_shift i)
            (a + rfc_md5_fun i b c d + X ! rfc_md5_index i + fst (snd (snd (md5_table ! i)))), b, c))"

definition rfc_md5_block :: "md5_regs \<Rightarrow> bytes \<Rightarrow> md5_regs" where
  "rfc_md5_block = (\<lambda>(a, b, c, d) p.
     let (a', b', c', d') = fold (rfc_md5_op (md5_words p)) [0..<64] (a, b, c, d)
     in (a + a', b + b', c + c', d + d'))"

definition rfc_md5 :: "bytes \<Rightarrow> bytes" where
  "rfc_md5 m =
     (let (a, b, c, d) =
        md_hash rfc_md5_block le64 (0x67452301, 0xefcdab89, 0x98badcfe, 0x10325476) m
      in concat (map le32 [a, b, c, d]))"

section \<open>The code computes the specification\<close>

lemma md5_fun_rfc:
  "md5_F x y z = (x AND y) OR (NOT x AND z)" "md5_G x y z = (x AND z) OR (y AND NOT z)"
  unfolding md5_F_def md5_G_def by (rule bit_word_eqI; auto simp: bit_simps)+

lemma md5_table_numbers:
  "map (\<lambda>(f, n, t, s). (n, s)) md5_table = map (\<lambda>i. (rfc_md5_index i, rfc_md5_shift i)) [0..<64]"
  by (simp add: md5_table_def rfc_md5_index_def rfc_md5_shift_def upt_rec)

lemma length_md5_table [simp]: "length md5_table = 64"
  by (simp add: md5_table_def)

lemma md5_table_functions:
  "map fst md5_table = replicate 16 md5_F @ replicate 16 md5_G @ replicate 16 md5_H @ replicate 16 md5_I"
  by (simp add: md5_table_def numeral_eq_Suc)

lemma md5_table_function: "i < 64 \<Longrightarrow> fst (md5_table ! i) = rfc_md5_fun i"
proof -
  assume "i < 64"
  moreover from this have "map fst md5_table ! i = rfc_md5_fun i"
    unfolding md5_table_functions
    by (auto simp: nth_append rfc_md5_fun_def fun_eq_iff md5_fun_rfc md5_H_def md5_I_def)
  ultimately show ?thesis by simp
qed

lemma md5_table_index_shift:
  "i < 64 \<Longrightarrow> (case md5_table ! i of (f, n, t, s) \<Rightarrow> (n, s)) = (rfc_md5_index i, rfc_md5_shift i)"
  using arg_cong [OF md5_table_numbers, of "\<lambda>l. l ! i"] by simp

lemma rfc_md5_shift_range: "i < 64 \<Longrightarrow> 0 < rfc_md5_shift i \<and> rfc_md5_shift i < 32"
proof -
  have "list_all (\<lambda>i. 0 < rfc_md5_shift i \<and> rfc_md5_shift i < 32) [0..<64]"
    by (simp add: rfc_md5_shift_def upt_rec)
  then show "i < 64 \<Longrightarrow> 0 < rfc_md5_shift i \<and> rfc_md5_shift i < 32"
    by (simp add: list_all_iff)
qed

lemma md5_step_rfc:
  assumes "i < 64"
  shows "md5_step X (md5_table ! i) = rfc_md5_op X i"
proof -
  obtain f n t s where row: "md5_table ! i = (f, n, t, s)" by (cases "md5_table ! i")
  have "f = rfc_md5_fun i" "n = rfc_md5_index i" "s = rfc_md5_shift i"
    using md5_table_function [OF assms] md5_table_index_shift [OF assms] by (simp_all add: row)
  with rfc_md5_shift_range [OF assms] show ?thesis
    by (auto simp: fun_eq_iff md5_step_def rfc_md5_op_def row Let_def rotl_word add.commute
        add.left_commute and_ones32)
qed

lemma md5_block_rfc: "md5_block = rfc_md5_block"
proof -
  have "fold (md5_step X) md5_table = fold (rfc_md5_op X) [0..<64]" for X
    by (rule fold_table) (simp_all add: md5_step_rfc)
  then show ?thesis
    by (simp add: fun_eq_iff md5_block_def rfc_md5_block_def add.commute)
qed

definition md5_ready :: "njs_md5_t \<Rightarrow> bool" where
  "md5_ready ctx \<longleftrightarrow> length (md5_buffer ctx) = 64"

definition md5_holds :: "njs_md5_t \<Rightarrow> bytes \<Rightarrow> bool" where
  "md5_holds ctx = absorbed md5_block (0x67452301, 0xefcdab89, 0x98badcfe, 0x10325476) (md5_view ctx)"

lemma md5_view_update [simp]:
  "md5_view (njs_md5_update ctx data) = stream_update md5_block (md5_view ctx) data"
  by (simp add: md5_view_def njs_md5_update_def split: prod.split)

interpretation md5: hash_alg njs_md5_init njs_md5_update njs_md5_final md5_ready md5_holds rfc_md5
proof
  show "md5_ready c \<Longrightarrow> md5_holds (njs_md5_init c) []" for c
    by (simp add: md5_ready_def md5_holds_def md5_view_def njs_md5_init_def absorbed_init)
  show "md5_holds c m \<Longrightarrow> md5_holds (njs_md5_update c data) (m @ data)" for c m data
    by (simp add: md5_holds_def stream_update_absorbed)
  show "md5_holds c m \<Longrightarrow> fst (njs_md5_final c) = rfc_md5 m" for c m
    by (simp add: md5_holds_def njs_md5_final_def rfc_md5_def stream_final_absorbed md5_block_rfc
        split: prod.split)
  show "md5_ready (snd (njs_md5_final c))" for c
    by (simp add: njs_md5_final_def md5_ready_def split: prod.split)
qed



end
