(* ===== verification/Njs_Sha1.thy ===== *)
theory Njs_Sha1
  imports Njs_Digest
begin

text \<open>
  The SHA-1 digest of \<open>src/src/njs_sha1.c\<close>: the context, the message schedule, the 80 steps
  of one block as the table of the code's \<open>STEP\<close> lines, \<open>njs_sha1_init\<close>,
  \<open>njs_sha1_update\<close> and \<open>njs_sha1_final\<close>; and, as specification, the algorithm the way
  FIPS 180-4 gives it.
\<close>

section \<open>The code\<close>

record njs_sha1_t =
  sha1_bytes :: u64
  sha1_a :: u32
  sha1_b :: u32
  sha1_c :: u32
  sha1_d :: u32
  sha1_e :: u32
  sha1_buffer :: bytes

definition njs_sha1_init :: "njs_sha1_t \<Rightarrow> njs_sha1_t" where
  "njs_sha1_init ctx = ctx\<lparr>sha1_a := 0x67452301, sha1_b := 0xefcdab89, sha1_c := 0x98badcfe,
     sha1_d := 0x10325476, sha1_e := 0xc3d2e1f0, sha1_bytes := 0\<rparr>"

definition sha1_ROTATE :: "nat \<Rightarrow> u32 \<Rightarrow> u32" where
  "sha1_ROTATE n w = push_bit n w OR drop_bit (32 - n) w"

definition sha1_F1 :: "u32 \<Rightarrow> u32 \<Rightarrow> u32 \<Rightarrow> u32" where
  "sha1_F1 b c d = (b AND c) OR (NOT b AND d)"

definition sha1_F2 :: "u32 \<Rightarrow> u32 \<Rightarrow> u32 \<Rightarrow> u32" where
  "sha1_F2 b c d = (b XOR c) XOR d"

definition sha1_F3 :: "u32 \<Rightarrow> u32 \<Rightarrow> u32 \<Rightarrow> u32" where
  "sha1_F3 b c d = ((b AND c) OR (b AND d)) OR (c AND d)"

type_synonym sha1_regs = "u32 \<times> u32 \<times> u32 \<times> u32 \<times> u32"

definition sha1_step ::
  "u32 list \<Rightarrow> (u32 \<Rightarrow> u32 \<Rightarrow> u32 \<Rightarrow> u32) \<times> nat \<times> u32 \<Rightarrow> sha1_regs \<Rightarrow> sha1_regs" where
  "sha1_step words = (\<lambda>(f, n, t) (a, b, c, d, e).
     let temp = sha1_ROTATE 5 a + f b c d + e + words ! n + t;
         e = d; d = c; c = sha1_ROTATE 30 b; b = a; a = temp
     in (a, b, c, d, e))"

definition sha1_schedule :: "bytes \<Rightarrow> u32 list" where
  "sha1_schedule p = extend_words
     (\<lambda>words i. sha1_ROTATE 1 (((words ! (i - 3) XOR words ! (i - 8)) XOR words ! (i - 14)) XOR words ! (i - 16)))
     80 (sha_words p)"

definition sha1_table :: "((u32 \<Rightarrow> u32 \<Rightarrow> u32 \<Rightarrow> u32) \<times> nat \<times> u32) list" where
  "sha1_table =
  [(sha1_F1, 0, 0x5a827999), (sha1_F1, 1, 0x5a827999), (sha1_F1, 2, 0x5a827999), (sha1_F1, 3, 0x5a827999),
   (sha1_F1, 4, 0x5a827999), (sha1_F1, 5, 0x5a827999), (sha1_F1, 6, 0x5a827999), (sha1_F1, 7, 0x5a827999),
   (sha1_F1, 8, 0x5a827999), (sha1_F1, 9, 0x5a827999), (sha1_F1, 10, 0x5a827999), (sha1_F1, 11, 0x5a827999),
   (sha1_F1, 12, 0x5a827999), (sha1_F1, 13, 0x5a827999), (sha1_F1, 14, 0x5a827999), (sha1_F1, 15, 0x5a827999),
   (sha1_F1, 16, 0x5a827999), (sha1_F1, 17, 0x5a827999), (sha1_F1, 18, 0x5a827999), (sha1_F1, 19, 0x5a827999),
   (sha1_F2, 20, 0x6ed9eba1), (sha1_F2, 21, 0x6ed9eba1), (sha1_F2, 22, 0x6ed9eba1), (sha1_F2, 23, 0x6ed9eba1),
   (sha1_F2, 24, 0x6ed9eba1), (sha1_F2, 25, 0x6ed9eba1), (sha1_F2, 26, 0x6ed9eba1), (sha1_F2, 27, 0x6ed9eba1),
   (sha1_F2, 28, 0x6ed9eba1), (sha1_F2, 29, 0x6ed9eba1), (sha1_F2, 30, 0x6ed9eba1), (sha1_F2, 31, 0x6ed9eba1),
   (sha1_F2, 32, 0x6ed9eba1), (sha1_F2, 33, 0x6ed9eba1), (sha1_F2, 34, 0x6ed9eba1), (sha1_F2, 35, 0x6ed9eba1),
   (sha1_F2, 36, 0x6ed9eba1), (sha1_F2, 37, 0x6ed9eba1), (sha1_F2, 38, 0x6ed9eba1), (sha1_F2, 39, 0x6ed9eba1),
   (sha1_F3, 40, 0x8f1bbcdc), (sha1_F3, 41, 0x8f1bbcdc), (sha1_F3, 42, 0x8f1bbcdc), (sha1_F3, 43, 0x8f1bbcdc),
   (sha1_F3, 44, 0x8f1bbcdc), (sha1_F3, 45, 0x8f1bbcdc), (sha1_F3, 46, 0x8f1bbcdc), (sha1_F3, 47, 0x8f1bbcdc),
   (sha1_F3, 48, 0x8f1bbcdc), (sha1_F3, 49, 0x8f1bbcdc), (sha1_F3, 50, 0x8f1bbcdc), (sha1_F3, 51, 0x8f1bbcdc),
   (sha1_F3, 52, 0x8f1bbcdc), (sha1_F3, 53, 0x8f1bbcdc), (sha1_F3, 54, 0x8f1bbcdc), (sha1_F3, 55, 0x8f1bbcdc),
   (sha1_F3, 56, 0x8f1bbcdc), (sha1_F3, 57, 0x8f1bbcdc), (sha1_F3, 58, 0x8f1bbcdc), (sha1_F3, 59, 0x8f1bbcdc),
   (sha1_F2, 60, 0xca62c1d6), (sha1_F2, 61, 0xca62c1d6), (sha1_F2, 62, 0xca62c1d6), (sha1_F2, 63, 0xca62c1d6),
   (sha1_F2, 64, 0xca62c1d6), (sha1_F2, 65, 0xca62c1d6), (sha1_F2, 66, 0xca62c1d6), (sha1_F2, 67, 0xca62c1d6),
   (sha1_F2, 68, 0xca62c1d6), (sha1_F2, 69, 0xca62c1d6), (sha1_F2, 70, 0xca62c1d6), (sha1_F2, 71, 0xca62c1d6),
   (sha1_F2, 72, 0xca62c1d6), (sha1_F2, 73, 0xca62c1d6), (sha1_F2, 74, 0xca62c1d6), (sha1_F2, 75, 0xca62c1d6),
   (sha1_F2, 76, 0xca62c1d6), (sha1_F2, 77, 0xca62c1d6), (sha1_F2, 78, 0xca62c1d6), (sha1_F2, 79, 0xca62c1d6)]"

definition sha1_block :: "sha1_regs \<Rightarrow> bytes \<Rightarrow> sha1_regs" where
  "sha1_block = (\<lambda>(saved_a, saved_b, saved_c, saved_d, saved_e) p.
     let (a, b, c, d, e) =
       fold (sha1_step (sha1_schedule p)) sha1_table (saved_a, saved_b, saved_c, saved_d, saved_e)
     in (a + saved_a, b + saved_b, c + saved_c, d + saved_d, e + saved_e))"

definition sha1_view :: "njs_sha1_t \<Rightarrow> sha1_regs view" where
  "sha1_view ctx =
     (sha1_bytes ctx, (sha1_a ctx, sha1_b ctx, sha1_c ctx, sha1_d ctx, sha1_e ctx), sha1_buffer ctx)"

definition njs_sha1_update :: "njs_sha1_t \<Rightarrow> bytes \<Rightarrow> njs_sha1_t" where
  "njs_sha1_update ctx data =
     (let (n, (a, b, c, d, e), buffer) = stream_update sha1_block (sha1_view ctx) data
      in ctx\<lparr>sha1_bytes := n, sha1_a := a, sha1_b := b, sha1_c := c, sha1_d := d, sha1_e := e,
           sha1_buffer := buffer\<rparr>)"

text \<open>The result of \<open>njs_sha1_final\<close> and the context it has wiped.\<close>

definition njs_sha1_final :: "njs_sha1_t \<Rightarrow> bytes \<times> njs_sha1_t" where
  "njs_sha1_final ctx =
     (let (a, b, c, d, e) = stream_final sha1_block be64 (sha1_view ctx)
      in (be32 a @ be32 b @ be32 c @ be32 d @ be32 e,
          \<lparr>sha1_bytes = 0, sha1_a = 0, sha1_b = 0, sha1_c = 0, sha1_d = 0, sha1_e = 0,
           sha1_buffer = replicate 64 0\<rparr>))"

section \<open>The specification: FIPS 180-4, section 6.1\<close>

definition fips_sha1_f :: "nat \<Rightarrow> u32 \<Rightarrow> u32 \<Rightarrow> u32 \<Rightarrow> u32" where
  "fips_sha1_f t x y z =
     (if t < 20 then (x AND y) XOR (NOT x AND z)
      else if 40 \<le> t \<and> t < 60 then ((x AND y) XOR (x AND z)) XOR (y AND z)
      else (x XOR y) XOR z)"

definition fips_sha1_K :: "nat \<Rightarrow> u32" where
  "fips_sha1_K t = [0x5a827999, 0x6ed9eba1, 0x8f1bbcdc, 0xca62c1d6] ! (t div 20)"

function fips_sha1_W :: "u32 list \<Rightarrow> nat \<Rightarrow> u32" where
  "fips_sha1_W M t =
     (if t < 16 then M ! t
      else word_rotl 1 (((fips_sha1_W M (t - 3) XOR fips_sha1_W M (t - 8))
             XOR fips_sha1_W M (t - 14)) XOR fips_sha1_W M (t - 16)))"
  by pat_completeness auto
termination by (relation "measure snd") auto

declare fips_sha1_W.simps [simp del]

definition fips_sha1_op :: "u32 list \<Rightarrow> nat \<Rightarrow> sha1_regs \<Rightarrow> sha1_regs" where
  "fips_sha1_op M t = (\<lambda>(a, b, c, d, e).
     (word_rotl 5 a + fips_sha1_f t b c d + e + fips_sha1_K t + fips_sha1_W M t, a, word_rotl 30 b, c, d))"

definition fips_sha1_block :: "sha1_regs \<Rightarrow> bytes \<Rightarrow> sha1_regs" where
  "fips_sha1_block = (\<lambda>(a, b, c, d, e) p.
     let (a', b', c', d', e') = fold (fips_sha1_op (sha_words p)) [0..<80] (a, b, c, d, e)
     in (a + a', b + b', c + c', d + d', e + e'))"

definition fips_sha1 :: "bytes \<Rightarrow> bytes" where
  "fips_sha1 m =
     (let (a, b, c, d, e) = md_hash fips_sha1_block be64
        (0x67452301, 0xefcdab89, 0x98badcfe, 0x10325476, 0xc3d2e1f0) m
      in concat (map be32 [a, b, c, d, e]))"

section \<open>The code computes the specification\<close>

lemma sha1_rotate: "0 < n \<Longrightarrow> n < 32 \<Longrightarrow> sha1_ROTATE n w = word_rotl n w"
  by (simp add: sha1_ROTATE_def rotl_word)

lemma sha1_fun_fips:
  "sha1_F1 x y z = (x AND y) XOR (NOT x AND z)"
  "sha1_F3 x y z = ((x AND y) XOR (x AND z)) XOR (y AND z)"
  unfolding sha1_F1_def sha1_F3_def by (rule bit_word_eqI; auto simp: bit_simps)+

lemma length_sha1_table [simp]: "length sha1_table = 80"
  by (simp add: sha1_table_def)

lemma sha1_table_functions:
  "map fst sha1_table = replicate 20 sha1_F1 @ replicate 20 sha1_F2 @ replicate 20 sha1_F3 @ replicate 20 sha1_F2"
  by (simp add: sha1_table_def numeral_eq_Suc)

lemma sha1_table_numbers: "map snd sha1_table = map (\<lambda>i. (i, fips_sha1_K i)) [0..<80]"
  by (simp add: sha1_table_def fips_sha1_K_def upt_rec)

lemma sha1_table_row: "i < 80 \<Longrightarrow> sha1_table ! i = (fips_sha1_f i, i, fips_sha1_K i)"
proof -
  assume i: "i < 80"
  then have "map fst sha1_table ! i = fips_sha1_f i"
    unfolding sha1_table_functions
    by (auto simp: nth_append fips_sha1_f_def fun_eq_iff sha1_fun_fips sha1_F2_def)
  moreover have "map snd sha1_table ! i = (i, fips_sha1_K i)"
    unfolding sha1_table_numbers using i by simp
  ultimately show ?thesis using i by (simp add: prod_eq_iff)
qed

lemma sha1_schedule_W: "sha1_schedule p = map (fips_sha1_W (sha_words p)) [0..<80]"
  unfolding sha1_schedule_def
proof (rule extend_words_nth)
  fix i and xs :: "u32 list"
  assume "16 \<le> i" "\<And>j. j < i \<Longrightarrow> xs ! j = fips_sha1_W (sha_words p) j"
  then show "sha1_ROTATE 1 (((xs ! (i - 3) XOR xs ! (i - 8)) XOR xs ! (i - 14)) XOR xs ! (i - 16)) =
      fips_sha1_W (sha_words p) i"
    by (subst fips_sha1_W.simps) (simp add: sha1_rotate)
qed (simp_all add: fips_sha1_W.simps)

lemma sha1_step_fips:
  "i < 80 \<Longrightarrow> sha1_step (sha1_schedule p) (sha1_table ! i) = fips_sha1_op (sha_words p) i"
  by (auto simp: fun_eq_iff sha1_step_def fips_sha1_op_def sha1_table_row sha1_schedule_W
      sha1_rotate Let_def add_ac)

lemma sha1_block_fips: "sha1_block = fips_sha1_block"
proof -
  have "fold (sha1_step (sha1_schedule p)) sha1_table = fold (fips_sha1_op (sha_words p)) [0..<80]" for p
    by (rule fold_table) (simp_all add: sha1_step_fips)
  then show ?thesis
    by (simp add: fun_eq_iff sha1_block_def fips_sha1_block_def add.commute)
qed

definition sha1_ready :: "njs_sha1_t \<Rightarrow> bool" where
  "sha1_ready ctx \<longleftrightarrow> length (sha1_buffer ctx) = 64"

definition sha1_holds :: "njs_sha1_t \<Rightarrow> bytes \<Rightarrow> bool" where
  "sha1_holds ctx = absorbed sha1_block
     (0x67452301, 0xefcdab89, 0x98badcfe, 0x10325476, 0xc3d2e1f0) (sha1_view ctx)"

lemma sha1_view_update [simp]:
  "sha1_view (njs_sha1_update ctx data) = stream_update sha1_block (sha1_view ctx) data"
  by (simp add: sha1_view_def njs_sha1_update_def split: prod.split)

interpretation sha1: hash_alg njs_sha1_init njs_sha1_update njs_sha1_final sha1_ready sha1_holds fips_sha1
proof
  show "sha1_ready c \<Longrightarrow> sha1_holds (njs_sha1_init c) []" for c
    by (simp add: sha1_ready_def sha1_holds_def sha1_view_def njs_sha1_init_def absorbed_init)
  show "sha1_holds c m \<Longrightarrow> sha1_holds (njs_sha1_update c data) (m @ data)" for c m data
    by (simp add: sha1_holds_def stream_update_absorbed)
  show "sha1_holds c m \<Longrightarrow> fst (njs_sha1_final c) = fips_sha1 m" for c m
    by (simp add: sha1_holds_def njs_sha1_final_def fips_sha1_def stream_final_absorbed sha1_block_fips
        split: prod.split)
  show "sha1_ready (snd (njs_sha1_final c))" for c
    by (simp add: njs_sha1_final_def sha1_ready_def split: prod.split)
qed

text \<open>
  C18. Whatever way a message is cut into calls of \<open>njs_sha1_update\<close> after
  \<open>njs_sha1_init\<close>, \<open>njs_sha1_final\<close> returns the SHA-1 digest of FIPS 180-4 of the whole
  message; and the wiped context it leaves is fit for the next \<open>njs_sha1_init\<close>.
\<close>

theorem sha1_stream_correct:
  assumes "length (sha1_buffer ctx) = 64"
  shows "fst (njs_sha1_final (foldl njs_sha1_update (njs_sha1_init ctx) ds)) = fips_sha1 (concat ds) \<and>
    length (sha1_buffer (snd (njs_sha1_final ctx))) = 64"
  using sha1.stream_hash [of ctx ds] sha1.final_ready [of ctx] assms by (simp add: sha1_ready_def)

theorem sha1_stream_correct_witness:
  "fst (njs_sha1_final (foldl njs_sha1_update
     (njs_sha1_init \<lparr>sha1_bytes = 0, sha1_a = 0, sha1_b = 0, sha1_c = 0, sha1_d = 0, sha1_e = 0,
        sha1_buffer = replicate 64 7\<rparr>)
     [[0x61], [], [0x62, 0x63]])) = fips_sha1 [0x61, 0x62, 0x63]"
  using sha1_stream_correct
    [of "\<lparr>sha1_bytes = 0, sha1_a = 0, sha1_b = 0, sha1_c = 0, sha1_d = 0, sha1_e = 0,
       sha1_buffer = replicate 64 7\<rparr>" "[[0x61], [], [0x62, 0x63]]"] by simp

end
