(* ===== verification/Njs_Sha2.thy ===== *)
theory Njs_Sha2
  imports Njs_Digest
begin

text \<open>
  The SHA-256 digest of \<open>src/src/njs_sha2.c\<close>: the context, the message schedule, the 64
  steps of one block as the table of the code's \<open>STEP\<close> lines, \<open>njs_sha2_init\<close>,
  \<open>njs_sha2_update\<close> and \<open>njs_sha2_final\<close>; and, as specification, the algorithm the way
  FIPS 180-4 gives it, its constants computed from the first prime numbers.
\<close>

section \<open>The code\<close>

record njs_sha2_t =
  sha2_bytes :: u64
  sha2_a :: u32
  sha2_b :: u32
  sha2_c :: u32
  sha2_d :: u32
  sha2_e :: u32
  sha2_f :: u32
  sha2_g :: u32
  sha2_h :: u32
  sha2_buffer :: bytes

definition njs_sha2_init :: "njs_sha2_t \<Rightarrow> njs_sha2_t" where
  "njs_sha2_init ctx = ctx\<lparr>sha2_a := 0x6a09e667, sha2_b := 0xbb67ae85, sha2_c := 0x3c6ef372,
     sha2_d := 0xa54ff53a, sha2_e := 0x510e527f, sha2_f := 0x9b05688c, sha2_g := 0x1f83d9ab,
     sha2_h := 0x5be0cd19, sha2_bytes := 0\<rparr>"

definition sha2_ROTATE :: "nat \<Rightarrow> u32 \<Rightarrow> u32" where
  "sha2_ROTATE n w = drop_bit n w OR push_bit (32 - n) w"

definition sha2_S0 :: "u32 \<Rightarrow> u32" where
  "sha2_S0 a = (sha2_ROTATE 2 a XOR sha2_ROTATE 13 a) XOR sha2_ROTATE 22 a"

definition sha2_S1 :: "u32 \<Rightarrow> u32" where
  "sha2_S1 e = (sha2_ROTATE 6 e XOR sha2_ROTATE 11 e) XOR sha2_ROTATE 25 e"

definition sha2_CH :: "u32 \<Rightarrow> u32 \<Rightarrow> u32 \<Rightarrow> u32" where
  "sha2_CH e f g = (e AND f) XOR (NOT e AND g)"

definition sha2_MAJ :: "u32 \<Rightarrow> u32 \<Rightarrow> u32 \<Rightarrow> u32" where
  "sha2_MAJ a b c = ((a AND b) XOR (a AND c)) XOR (b AND c)"

type_synonym sha2_regs = "u32 \<times> u32 \<times> u32 \<times> u32 \<times> u32 \<times> u32 \<times> u32 \<times> u32"

definition sha2_step :: "u32 list \<Rightarrow> nat \<times> u32 \<Rightarrow> sha2_regs \<Rightarrow> sha2_regs" where
  "sha2_step words = (\<lambda>(n, k) (a, b, c, d, e, f, g, h).
     let temp1 = h + sha2_S1 e + sha2_CH e f g + k + words ! n;
         temp2 = sha2_S0 a + sha2_MAJ a b c;
         h = g; g = f; f = e; e = d + temp1; d = c; c = b; b = a; a = temp1 + temp2
     in (a, b, c, d, e, f, g, h))"

definition sha2_schedule :: "bytes \<Rightarrow> u32 list" where
  "sha2_schedule p = extend_words
     (\<lambda>words i.
        let s0 = (sha2_ROTATE 7 (words ! (i - 15)) XOR sha2_ROTATE 18 (words ! (i - 15)))
                   XOR drop_bit 3 (words ! (i - 15));
            s1 = (sha2_ROTATE 17 (words ! (i - 2)) XOR sha2_ROTATE 19 (words ! (i - 2)))
                   XOR drop_bit 10 (words ! (i - 2))
        in words ! (i - 16) + s0 + words ! (i - 7) + s1)
     64 (sha_words p)"

definition sha2_table :: "(nat \<times> u32) list" where
  "sha2_table =
  [(0, 0x428a2f98), (1, 0x71374491), (2, 0xb5c0fbcf), (3, 0xe9b5dba5),
   (4, 0x3956c25b), (5, 0x59f111f1), (6, 0x923f82a4), (7, 0xab1c5ed5),
   (8, 0xd807aa98), (9, 0x12835b01), (10, 0x243185be), (11, 0x550c7dc3),
   (12, 0x72be5d74), (13, 0x80deb1fe), (14, 0x9bdc06a7), (15, 0xc19bf174),
   (16, 0xe49b69c1), (17, 0xefbe4786), (18, 0x0fc19dc6), (19, 0x240ca1cc),
   (20, 0x2de92c6f), (21, 0x4a7484aa), (22, 0x5cb0a9dc), (23, 0x76f988da),
   (24, 0x983e5152), (25, 0xa831c66d), (26, 0xb00327c8), (27, 0xbf597fc7),
   (28, 0xc6e00bf3), (29, 0xd5a79147), (30, 0x06ca6351), (31, 0x14292967),
   (32, 0x27b70a85), (33, 0x2e1b2138), (34, 0x4d2c6dfc), (35, 0x53380d13),
   (36, 0x650a7354), (37, 0x766a0abb), (38, 0x81c2c92e), (39, 0x92722c85),
   (40, 0xa2bfe8a1), (41, 0xa81a664b), (42, 0xc24b8b70), (43, 0xc76c51a3),
   (44, 0xd192e819), (45, 0xd6990624), (46, 0xf40e3585), (47, 0x106aa070),
   (48, 0x19a4c116), (49, 0x1e376c08), (50, 0x2748774c), (51, 0x34b0bcb5),
   (52, 0x391c0cb3), (53, 0x4ed8aa4a), (54, 0x5b9cca4f), (55, 0x682e6ff3),
   (56, 0x748f82ee), (57, 0x78a5636f), (58, 0x84c87814), (59, 0x8cc70208),
   (60, 0x90befffa), (61, 0xa4506ceb), (62, 0xbef9a3f7), (63, 0xc67178f2)]"

definition sha2_block :: "sha2_regs \<Rightarrow> bytes \<Rightarrow> sha2_regs" where
  "sha2_block = (\<lambda>(saved_a, saved_b, saved_c, saved_d, saved_e, saved_f, saved_g, saved_h) p.
     let (a, b, c, d, e, f, g, h) = fold (sha2_step (sha2_schedule p)) sha2_table
           (saved_a, saved_b, saved_c, saved_d, saved_e, saved_f, saved_g, saved_h)
     in (a + saved_a, b + saved_b, c + saved_c, d + saved_d,
         e + saved_e, f + saved_f, g + saved_g, h + saved_h))"

definition sha2_view :: "njs_sha2_t \<Rightarrow> sha2_regs view" where
  "sha2_view ctx =
     (sha2_bytes ctx, (sha2_a ctx, sha2_b ctx, sha2_c ctx, sha2_d ctx,
        sha2_e ctx, sha2_f ctx, sha2_g ctx, sha2_h ctx), sha2_buffer ctx)"

definition njs_sha2_update :: "njs_sha2_t \<Rightarrow> bytes \<Rightarrow> njs_sha2_t" where
  "njs_sha2_update ctx data =
     (let (n, (a, b, c, d, e, f, g, h), buffer) = stream_update sha2_block (sha2_view ctx) data
      in ctx\<lparr>sha2_bytes := n, sha2_a := a, sha2_b := b, sha2_c := c, sha2_d := d, sha2_e := e,
           sha2_f := f, sha2_g := g, sha2_h := h, sha2_buffer := buffer\<rparr>)"

text \<open>The result of \<open>njs_sha2_final\<close> and the context it has wiped.\<close>

definition njs_sha2_final :: "njs_sha2_t \<Rightarrow> bytes \<times> njs_sha2_t" where
  "njs_sha2_final ctx =
     (let (a, b, c, d, e, f, g, h) = stream_final sha2_block be64 (sha2_view ctx)
      in (be32 a @ be32 b @ be32 c @ be32 d @ be32 e @ be32 f @ be32 g @ be32 h,
          \<lparr>sha2_bytes = 0, sha2_a = 0, sha2_b = 0, sha2_c = 0, sha2_d = 0, sha2_e = 0,
           sha2_f = 0, sha2_g = 0, sha2_h = 0, sha2_buffer = replicate 64 0\<rparr>))"

section \<open>The specification: FIPS 180-4, sections 4.2, 5.3 and 6.2\<close>

definition first_primes :: "nat \<Rightarrow> nat list" where
  "first_primes n = filter (\<lambda>p. list_all (\<lambda>d. \<not> d dvd p) [2..<p]) [2..<n]"

text \<open>
  The first 32 bits of the fractional part of the \<open>k\<close>-th root of \<open>p\<close>: the low word of
  \<open>floor (2 ^ 32 * root k p)\<close>.
\<close>

definition root_fraction :: "nat \<Rightarrow> nat \<Rightarrow> u32 \<Rightarrow> bool" where
  "root_fraction k p w \<longleftrightarrow>
     (\<exists>x. x ^ k \<le> p * 2 ^ (32 * k) \<and> p * 2 ^ (32 * k) < (x + 1) ^ k \<and> w = of_nat x)"

definition fips_sha2_K :: "nat \<Rightarrow> u32" where
  "fips_sha2_K t = snd (sha2_table ! t)"

function fips_sha2_W :: "u32 list \<Rightarrow> nat \<Rightarrow> u32" where
  "fips_sha2_W M t =
     (if t < 16 then M ! t
      else (let sigma0 = (\<lambda>x. (word_rotr 7 x XOR word_rotr 18 x) XOR drop_bit 3 x);
                sigma1 = (\<lambda>x. (word_rotr 17 x XOR word_rotr 19 x) XOR drop_bit 10 x)
            in sigma1 (fips_sha2_W M (t - 2)) + fips_sha2_W M (t - 7)
                + sigma0 (fips_sha2_W M (t - 15)) + fips_sha2_W M (t - 16)))"
  by pat_completeness auto
termination by (relation "measure snd") auto

declare fips_sha2_W.simps [simp del]

definition fips_sha2_op :: "u32 list \<Rightarrow> nat \<Rightarrow> sha2_regs \<Rightarrow> sha2_regs" where
  "fips_sha2_op M t = (\<lambda>(a, b, c, d, e, f, g, h).
     let Sigma0 = (word_rotr 2 a XOR word_rotr 13 a) XOR word_rotr 22 a;
         Sigma1 = (word_rotr 6 e XOR word_rotr 11 e) XOR word_rotr 25 e;
         Ch = (e AND f) XOR (NOT e AND g);
         Maj = ((a AND b) XOR (a AND c)) XOR (b AND c);
         T1 = h + Sigma1 + Ch + fips_sha2_K t + fips_sha2_W M t;
         T2 = Sigma0 + Maj
     in (T1 + T2, a, b, c, d + T1, e, f, g))"

definition fips_sha2_block :: "sha2_regs \<Rightarrow> bytes \<Rightarrow> sha2_regs" where
  "fips_sha2_block = (\<lambda>(a, b, c, d, e, f, g, h) p.
     let (a', b', c', d', e', f', g', h') =
       fold (fips_sha2_op (sha_words p)) [0..<64] (a, b, c, d, e, f, g, h)
     in (a + a', b + b', c + c', d + d', e + e', f + f', g + g', h + h'))"

definition fips_sha256 :: "bytes \<Rightarrow> bytes" where
  "fips_sha256 m =
     (let (a, b, c, d, e, f, g, h) = md_hash fips_sha2_block be64
        (0x6a09e667, 0xbb67ae85, 0x3c6ef372, 0xa54ff53a, 0x510e527f, 0x9b05688c, 0x1f83d9ab, 0x5be0cd19) m
      in concat (map be32 [a, b, c, d, e, f, g, h]))"

section \<open>The code computes the specification\<close>

lemma sha2_rotate: "0 < n \<Longrightarrow> n < 32 \<Longrightarrow> sha2_ROTATE n w = word_rotr n w"
  by (simp add: sha2_ROTATE_def rotr_word)

lemma length_sha2_table [simp]: "length sha2_table = 64"
  by (simp add: sha2_table_def)

lemma sha2_table_numbers: "map fst sha2_table = [0..<64]"
  by (simp add: sha2_table_def upt_rec)

lemma sha2_table_row: "i < 64 \<Longrightarrow> sha2_table ! i = (i, fips_sha2_K i)"
  using arg_cong [OF sha2_table_numbers, of "\<lambda>l. l ! i"] by (simp add: fips_sha2_K_def prod_eq_iff)

lemma sha2_schedule_W: "sha2_schedule p = map (fips_sha2_W (sha_words p)) [0..<64]"
  unfolding sha2_schedule_def
proof (rule extend_words_nth, goal_cases)
  case (3 i xs)
  then show ?case
    by (subst fips_sha2_W.simps) (simp add: sha2_rotate Let_def add_ac)
qed (simp_all add: fips_sha2_W.simps)

lemma sha2_step_fips:
  "i < 64 \<Longrightarrow> sha2_step (sha2_schedule p) (sha2_table ! i) = fips_sha2_op (sha_words p) i"
  by (auto simp: fun_eq_iff sha2_step_def fips_sha2_op_def sha2_table_row sha2_schedule_W
      sha2_S0_def sha2_S1_def sha2_CH_def sha2_MAJ_def sha2_rotate Let_def)

lemma sha2_block_fips: "sha2_block = fips_sha2_block"
proof -
  have "fold (sha2_step (sha2_schedule p)) sha2_table = fold (fips_sha2_op (sha_words p)) [0..<64]" for p
    by (rule fold_table) (simp_all add: sha2_step_fips)
  then show ?thesis
    by (simp add: fun_eq_iff sha2_block_def fips_sha2_block_def add.commute)
qed

definition sha2_ready :: "njs_sha2_t \<Rightarrow> bool" where
  "sha2_ready ctx \<longleftrightarrow> length (sha2_buffer ctx) = 64"

definition sha2_holds :: "njs_sha2_t \<Rightarrow> bytes \<Rightarrow> bool" where
  "sha2_holds ctx = absorbed sha2_block
     (0x6a09e667, 0xbb67ae85, 0x3c6ef372, 0xa54ff53a, 0x510e527f, 0x9b05688c, 0x1f83d9ab, 0x5be0cd19)
     (sha2_view ctx)"

lemma sha2_view_update [simp]:
  "sha2_view (njs_sha2_update ctx data) = stream_update sha2_block (sha2_view ctx) data"
  by (simp add: sha2_view_def njs_sha2_update_def split: prod.split)

interpretation sha2: hash_alg njs_sha2_init njs_sha2_update njs_sha2_final sha2_ready sha2_holds fips_sha256
proof
  show "sha2_ready c \<Longrightarrow> sha2_holds (njs_sha2_init c) []" for c
    by (simp add: sha2_ready_def sha2_holds_def sha2_view_def njs_sha2_init_def absorbed_init)
  show "sha2_holds c m \<Longrightarrow> sha2_holds (njs_sha2_update c data) (m @ data)" for c m data
    by (simp add: sha2_holds_def stream_update_absorbed)
  show "sha2_holds c m \<Longrightarrow> fst (njs_sha2_final c) = fips_sha256 m" for c m
    by (simp add: sha2_holds_def njs_sha2_final_def fips_sha256_def stream_final_absorbed sha2_block_fips
        split: prod.split)
  show "sha2_ready (snd (njs_sha2_final c))" for c
    by (simp add: njs_sha2_final_def sha2_ready_def split: prod.split)
qed

text \<open>
  C19. Whatever way a message is cut into calls of \<open>njs_sha2_update\<close> after
  \<open>njs_sha2_init\<close>, \<open>njs_sha2_final\<close> returns the SHA-256 digest of FIPS 180-4 of the
  whole message; and the wiped context it leaves is fit for the next \<open>njs_sha2_init\<close>.
\<close>

theorem sha2_stream_correct:
  assumes "length (sha2_buffer ctx) = 64"
  shows "fst (njs_sha2_final (foldl njs_sha2_update (njs_sha2_init ctx) ds)) = fips_sha256 (concat ds) \<and>
    length (sha2_buffer (snd (njs_sha2_final ctx))) = 64"
  using sha2.stream_hash [of ctx ds] sha2.final_ready [of ctx] assms by (simp add: sha2_ready_def)

theorem sha2_stream_correct_witness:
  "fst (njs_sha2_final (foldl njs_sha2_update
     (njs_sha2_init \<lparr>sha2_bytes = 0, sha2_a = 0, sha2_b = 0, sha2_c = 0, sha2_d = 0, sha2_e = 0,
        sha2_f = 0, sha2_g = 0, sha2_h = 0, sha2_buffer = replicate 64 7\<rparr>)
     [[0x61], [], [0x62, 0x63]])) = fips_sha256 [0x61, 0x62, 0x63]"
  using sha2_stream_correct
    [of "\<lparr>sha2_bytes = 0, sha2_a = 0, sha2_b = 0, sha2_c = 0, sha2_d = 0, sha2_e = 0,
       sha2_f = 0, sha2_g = 0, sha2_h = 0, sha2_buffer = replicate 64 7\<rparr>" "[[0x61], [], [0x62, 0x63]]"] by simp

lemma root_fractionI:
  "(2 ^ 32 * r + unat w) ^ k \<le> p * 2 ^ (32 * k) \<Longrightarrow> p * 2 ^ (32 * k) < (2 ^ 32 * r + unat w + 1) ^ k \<Longrightarrow>
   root_fraction k p w"
  unfolding root_fraction_def
proof (intro exI [of _ "2 ^ 32 * r + unat w"] conjI)
  have "(of_nat (2 ^ 32) :: u32) = 0" by (simp only: word_of_nat_eq_0_iff) simp
  then show "w = of_nat (2 ^ 32 * r + unat w)"
    by (simp only: of_nat_add of_nat_mult) simp
qed

lemma small_divisor: "2 \<le> e \<Longrightarrow> e < 18 \<Longrightarrow> \<exists>q. q \<in> set [2, 3, 5, 7, 11, 13, 17] \<and> q dvd e" for e :: nat
proof -
  assume e: "2 \<le> e" "e < 18"
  have all: "list_all (\<lambda>e. list_ex (\<lambda>q. q dvd e) [2, 3, 5, 7, 11, 13, 17]) [2..<18::nat]"
    by code_simp
  from e have "e \<in> set [2..<18]" unfolding set_upt atLeastLessThan_iff ..
  with all have "list_ex (\<lambda>q. q dvd e) [2, 3, 5, 7, 11, 13, 17]"
    by (rule list_all_iff [THEN iffD1, THEN bspec])
  then show ?thesis unfolding list_ex_iff Bex_def .
qed

lemma small_prime:
  assumes "p < 324"
  shows "list_all (\<lambda>d. \<not> d dvd p) [2..<p] \<longleftrightarrow>
    list_all (\<lambda>d. p \<le> d \<or> \<not> d dvd p) [2, 3, 5, 7, 11, 13, 17]" (is "_ \<longleftrightarrow> list_all _ ?qs")
proof -
  have div: "\<exists>q. q \<in> set ?qs \<and> q < p \<and> q dvd p" if d: "2 \<le> d" "d < p" "d dvd p" for d
  proof -
    have "\<exists>e. 2 \<le> e \<and> e < 18 \<and> e < p \<and> e dvd p"
    proof (cases "d < 18")
      case True
      with d show ?thesis by blast
    next
      case False
      obtain e where e: "p = d * e" using d(3) by blast
      with d(2) have "e \<noteq> 0" "e \<noteq> 1" by (auto intro: notI)
      then have "2 \<le> e" by linarith
      moreover have "e < 18"
      proof (rule ccontr)
        assume "\<not> e < 18"
        with False have "18 * 18 \<le> d * e" by (intro mult_le_mono) simp_all
        with assms e show False by simp
      qed
      moreover have "e < p" "e dvd p" using d(1) e \<open>2 \<le> e\<close> by simp_all
      ultimately show ?thesis by blast
    qed
    then obtain e q where "2 \<le> e" "e < p" "e dvd p" "q \<in> set ?qs" "q dvd e"
      using small_divisor by blast
    moreover from this have "q \<le> e" by (intro dvd_imp_le) simp_all
    ultimately show ?thesis by (meson dvd_trans le_less_trans)
  qed
  have two: "2 \<le> q" if "q \<in> set ?qs" for q using that by auto
  have iff: "list_all P [2..<n] \<longleftrightarrow> (\<forall>d. 2 \<le> d \<longrightarrow> d < n \<longrightarrow> P d)" for P n
    by (auto simp only: list_all_iff set_upt atLeastLessThan_iff Ball_def)
  show ?thesis
    unfolding iff unfolding list_all_iff Ball_def using div two by (meson not_le)
qed

lemma filter_and: "filter (\<lambda>p. P p \<and> Q p) xs = filter Q (filter P xs)"
  by (simp add: conj_commute)

lemma primes_below_312: "first_primes 312 = [2, 3, 5, 7, 11, 13, 17, 19, 23, 29, 31, 37, 41, 43, 47, 53,
    59, 61, 67, 71, 73, 79, 83, 89, 97, 101, 103, 107, 109, 113, 127, 131, 137, 139, 149, 151, 157,
    163, 167, 173, 179, 181, 191, 193, 197, 199, 211, 223, 227, 229, 233, 239, 241, 251, 257, 263,
    269, 271, 277, 281, 283, 293, 307, 311]"
proof -
  have "first_primes 312 = filter (\<lambda>p. list_all (\<lambda>d. p \<le> d \<or> \<not> d dvd p) [2, 3, 5, 7, 11, 13, 17]) [2..<312]"
    unfolding first_primes_def
    by (rule filter_cong [OF refl], rule small_prime) (unfold set_upt atLeastLessThan_iff, linarith)
  then show ?thesis
    by (simp only: list.pred_inject True_implies_equals simp_thms filter_and) simp
qed

lemma sha2_init_roots:
  "list_all2 (root_fraction 2) [2, 3, 5, 7, 11, 13, 17, 19]
     [0x6a09e667, 0xbb67ae85, 0x3c6ef372, 0xa54ff53a, 0x510e527f, 0x9b05688c, 0x1f83d9ab, 0x5be0cd19]"
  by (auto intro: root_fractionI [of 1] root_fractionI [of 2] root_fractionI [of 3] root_fractionI [of 4])

definition cube_root_floor :: "nat \<Rightarrow> nat" where
  "cube_root_floor p = (if p < 8 then 1 else if p < 27 then 2 else if p < 64 then 3
     else if p < 125 then 4 else if p < 216 then 5 else 6)"

lemma sha2_table_roots: "list_all2 (root_fraction 3) (first_primes 312) (map snd sha2_table)"
proof -
  have "list_all2 (\<lambda>p w. (2 ^ 32 * cube_root_floor p + unat w) ^ 3 \<le> p * 2 ^ (32 * 3) \<and>
      p * 2 ^ (32 * 3) < (2 ^ 32 * cube_root_floor p + unat w + 1) ^ 3)
      (first_primes 312) (map snd sha2_table)"
    unfolding primes_below_312 sha2_table_def by (simp add: cube_root_floor_def)
  then show ?thesis
    by (rule list_all2_mono) (blast intro: root_fractionI)
qed

text \<open>
  The constants of \<open>njs_sha2.c\<close> are the ones FIPS 180-4 derives from the primes: the
  eight words of \<open>njs_sha2_init\<close> are the first 32 bits of the fractional parts of the square
  roots of the first eight primes, and the last argument of \<open>STEP\<close> runs through those of
  the cube roots of the first sixty-four.
\<close>

theorem sha2_constants:
  "length (first_primes 312) = 64 \<and> length sha2_table = 64 \<and>
   list_all2 (root_fraction 2) (take 8 (first_primes 312))
     (map (\<lambda>r. r (njs_sha2_init ctx))
        [sha2_a, sha2_b, sha2_c, sha2_d, sha2_e, sha2_f, sha2_g, sha2_h]) \<and>
   list_all2 (root_fraction 3) (first_primes 312) (map snd sha2_table)"
  using sha2_init_roots
  by (intro conjI sha2_table_roots) (simp_all add: primes_below_312 njs_sha2_init_def)

end
