(* ===== verification/Njs_Crypto.thy ===== *)
theory Njs_Crypto
  imports Njs_Md5 Njs_Sha1 Njs_Sha2 Njs_Codec
begin

text \<open>
  The \<open>crypto\<close> module (\<open>src/src/njs_crypto.c\<close>): the tables of hash algorithms and of encodings,
  and the operations of \<open>Hash\<close> and \<open>Hmac\<close> objects with their argument checks. The
  digests enter through the entries of the algorithm table; each entry is an instance of
  the locale \<open>hash_alg\<close>, and HMAC is proved once, inside that locale.
\<close>

section \<open>The tables\<close>

text \<open>
  The union of the three contexts. An access to a member that is not the one last stored
  sees unspecified bytes; the functions are only applied to the member \<open>init\<close> has set up.
\<close>

datatype hash_ctx = Ctx_md5 njs_md5_t | Ctx_sha1 njs_sha1_t | Ctx_sha2 njs_sha2_t

definition ctx_md5 :: "hash_ctx \<Rightarrow> njs_md5_t" where
  "ctx_md5 u = (case u of Ctx_md5 c \<Rightarrow> c
     | _ \<Rightarrow> \<lparr>md5_bytes = 0, md5_a = 0, md5_b = 0, md5_c = 0, md5_d = 0, md5_buffer = replicate 64 0\<rparr>)"

definition ctx_sha1 :: "hash_ctx \<Rightarrow> njs_sha1_t" where
  "ctx_sha1 u = (case u of Ctx_sha1 c \<Rightarrow> c
     | _ \<Rightarrow> \<lparr>sha1_bytes = 0, sha1_a = 0, sha1_b = 0, sha1_c = 0, sha1_d = 0, sha1_e = 0,
             sha1_buffer = replicate 64 0\<rparr>)"

definition ctx_sha2 :: "hash_ctx \<Rightarrow> njs_sha2_t" where
  "ctx_sha2 u = (case u of Ctx_sha2 c \<Rightarrow> c
     | _ \<Rightarrow> \<lparr>sha2_bytes = 0, sha2_a = 0, sha2_b = 0, sha2_c = 0, sha2_d = 0, sha2_e = 0,
             sha2_f = 0, sha2_g = 0, sha2_h = 0, sha2_buffer = replicate 64 0\<rparr>)"

record njs_hash_alg_t =
  alg_name :: bytes
  alg_size :: nat
  alg_init :: "hash_ctx \<Rightarrow> hash_ctx"
  alg_update :: "hash_ctx \<Rightarrow> bytes \<Rightarrow> hash_ctx"
  alg_final :: "hash_ctx \<Rightarrow> bytes \<times> hash_ctx"

definition alg_md5 :: njs_hash_alg_t where
  "alg_md5 = \<lparr>alg_name = ascii ''md5'', alg_size = 16,
     alg_init = (\<lambda>u. Ctx_md5 (njs_md5_init (ctx_md5 u))),
     alg_update = (\<lambda>u data. Ctx_md5 (njs_md5_update (ctx_md5 u) data)),
     alg_final = (\<lambda>u. apsnd Ctx_md5 (njs_md5_final (ctx_md5 u)))\<rparr>"

definition alg_sha1 :: njs_hash_alg_t where
  "alg_sha1 = \<lparr>alg_name = ascii ''sha1'', alg_size = 20,
     alg_init = (\<lambda>u. Ctx_sha1 (njs_sha1_init (ctx_sha1 u))),
     alg_update = (\<lambda>u data. Ctx_sha1 (njs_sha1_update (ctx_sha1 u) data)),
     alg_final = (\<lambda>u. apsnd Ctx_sha1 (njs_sha1_final (ctx_sha1 u)))\<rparr>"

definition alg_sha256 :: njs_hash_alg_t where
  "alg_sha256 = \<lparr>alg_name = ascii ''sha256'', alg_size = 32,
     alg_init = (\<lambda>u. Ctx_sha2 (njs_sha2_init (ctx_sha2 u))),
     alg_update = (\<lambda>u data. Ctx_sha2 (njs_sha2_update (ctx_sha2 u) data)),
     alg_final = (\<lambda>u. apsnd Ctx_sha2 (njs_sha2_final (ctx_sha2 u)))\<rparr>"

definition njs_hash_algorithms :: "njs_hash_alg_t list" where
  "njs_hash_algorithms = [alg_md5, alg_sha1, alg_sha256]"

record njs_crypto_enc_t =
  enc_name :: bytes
  enc_encode :: "bytes \<Rightarrow> njs_error + njs_string"

definition njs_encodings :: "njs_crypto_enc_t list" where
  "njs_encodings = [\<lparr>enc_name = ascii ''hex'', enc_encode = njs_string_hex\<rparr>,
     \<lparr>enc_name = ascii ''base64'', enc_encode = njs_string_base64\<rparr>,
     \<lparr>enc_name = ascii ''base64url'', enc_encode = njs_string_base64url\<rparr>]"

definition quoted :: "bytes \<Rightarrow> bytes" where
  "quoted name = 0x22 # name @ [0x22]"

definition njs_crypto_alg :: "bytes \<Rightarrow> njs_error + njs_hash_alg_t" where
  "njs_crypto_alg name =
     (case find (\<lambda>e. alg_name e = name) njs_hash_algorithms of
        Some e \<Rightarrow> Inr e
      | None \<Rightarrow> Inl (Type_error (ascii ''not supported algorithm: '' @ quoted name)))"

definition njs_crypto_encoding :: "bytes \<Rightarrow> njs_error + njs_crypto_enc_t" where
  "njs_crypto_encoding name =
     (case find (\<lambda>e. enc_name e = name) njs_encodings of
        Some e \<Rightarrow> Inr e
      | None \<Rightarrow> Inl (Type_error (ascii ''Unknown digest encoding: '' @ quoted name)))"

section \<open>Objects and values\<close>

text \<open>
  The value of an argument, as far as the module looks at it, and the objects: the value of
  an object value is a digest, an HMAC context, both plain data to the type checks, or no
  data at all. A \<open>NULL\<close> in the field \<open>alg\<close> is \<^const>\<open>None\<close>.
\<close>

datatype crypto_value = V_undefined | V_string njs_string | V_object_value nat | V_other

record njs_digest_t =
  dgst_u :: hash_ctx
  dgst_alg :: "njs_hash_alg_t option"

record njs_hmac_t =
  hmac_opad :: bytes
  hmac_u :: hash_ctx
  hmac_alg :: "njs_hash_alg_t option"

datatype crypto_object = O_hash njs_digest_t | O_hmac njs_hmac_t | O_not_data

type_synonym crypto_heap = "crypto_object list"

text \<open>The results: the exception or the value of \<open>vm->retval\<close>, and the objects.\<close>

type_synonym crypto_result = "(njs_error + crypto_value) \<times> crypto_heap"

fun is_string :: "crypto_value \<Rightarrow> bool" where
  "is_string (V_string s) = True"
| "is_string _ = False"

fun string_get :: "crypto_value \<Rightarrow> bytes" where
  "string_get (V_string s) = str_start s"
| "string_get _ = []"

text \<open>
  The checks of \<open>this\<close> that the four methods share: an object value, holding data. The
  index of the object.
\<close>

definition this_data :: "crypto_heap \<Rightarrow> crypto_value \<Rightarrow> njs_error + nat" where
  "this_data h this =
     (case this of
        V_object_value i \<Rightarrow>
          if i < length h then
            (case h ! i of
               O_not_data \<Rightarrow> Inl (Type_error (ascii ''value of '' @ quoted (ascii ''this'') @ ascii '' is not a data type''))
             | _ \<Rightarrow> Inr i)
          else Inl Bad_access
      | _ \<Rightarrow> Inl (Type_error (quoted (ascii ''this'') @ ascii '' is not an object_value'')))"

definition digest_called :: njs_error where
  "digest_called = Plain_error (ascii ''Digest already called'')"

section \<open>Hash\<close>

text \<open>\<open>fresh\<close> stands for the bytes of the newly allocated context.\<close>

definition njs_crypto_create_hash :: "hash_ctx \<Rightarrow> crypto_heap \<Rightarrow> crypto_value list \<Rightarrow> crypto_result" where
  "njs_crypto_create_hash fresh h args =
     (if length args < 2 \<or> \<not> is_string (args ! 1) then
        (Inl (Type_error (ascii ''algorithm must be a string'')), h)
      else case njs_crypto_alg (string_get (args ! 1)) of
        Inl e \<Rightarrow> (Inl e, h)
      | Inr alg \<Rightarrow>
          (Inr (V_object_value (length h)),
           h @ [O_hash \<lparr>dgst_u = alg_init alg fresh, dgst_alg = Some alg\<rparr>]))"

definition njs_hash_prototype_update :: "crypto_heap \<Rightarrow> crypto_value list \<Rightarrow> crypto_result" where
  "njs_hash_prototype_update h args =
     (if length args < 2 \<or> \<not> is_string (args ! 1) then
        (Inl (Type_error (ascii ''data must be a string'')), h)
      else case this_data h (args ! 0) of
        Inl e \<Rightarrow> (Inl e, h)
      | Inr i \<Rightarrow>
          (case h ! i of
             O_hash dgst \<Rightarrow>
               (case dgst_alg dgst of
                  None \<Rightarrow> (Inl digest_called, h)
                | Some alg \<Rightarrow>
                    (Inr (args ! 0),
                     h[i := O_hash (dgst\<lparr>dgst_u := alg_update alg (dgst_u dgst) (string_get (args ! 1))\<rparr>)]))
           | _ \<Rightarrow> (Inl Bad_access, h)))"

text \<open>
  The result of a digest: without an encoding a byte string, else what the encoder
  returns.
\<close>

definition digest_value :: "njs_crypto_enc_t option \<Rightarrow> bytes \<Rightarrow> njs_error + crypto_value" where
  "digest_value enc str =
     (case (case enc of None \<Rightarrow> fill (njs_string_alloc (length str) 0) str | Some e \<Rightarrow> enc_encode e str) of
        Inl e \<Rightarrow> Inl e
      | Inr s \<Rightarrow> Inr (V_string s))"

text \<open>The checks that the two \<open>digest\<close> methods share, in the order of the code.\<close>

definition digest_args ::
  "crypto_heap \<Rightarrow> crypto_value list \<Rightarrow> njs_error + nat \<times> njs_crypto_enc_t option" where
  "digest_args h args =
     (if length args > 1 \<and> \<not> is_string (args ! 1) then
        Inl (Type_error (ascii ''encoding must be a string''))
      else case this_data h (args ! 0) of
        Inl e \<Rightarrow> Inl e
      | Inr i \<Rightarrow>
          if length args > 1 then
            (case njs_crypto_encoding (string_get (args ! 1)) of
               Inl e \<Rightarrow> Inl e
             | Inr enc \<Rightarrow> Inr (i, Some enc))
          else Inr (i, None))"

definition njs_hash_prototype_digest :: "crypto_heap \<Rightarrow> crypto_value list \<Rightarrow> crypto_result" where
  "njs_hash_prototype_digest h args =
     (case digest_args h args of
        Inl e \<Rightarrow> (Inl e, h)
      | Inr (i, enc) \<Rightarrow>
          (case h ! i of
             O_hash dgst \<Rightarrow>
               (case dgst_alg dgst of
                  None \<Rightarrow> (Inl digest_called, h)
                | Some alg \<Rightarrow>
                    let (digest, u) = alg_final alg (dgst_u dgst)
                    in (digest_value enc (take (alg_size alg) digest),
                        h[i := O_hash (dgst\<lparr>dgst_u := u, dgst_alg := None\<rparr>)]))
           | _ \<Rightarrow> (Inl Bad_access, h)))"

definition njs_hash_prototype_to_string :: "njs_error + bytes" where
  "njs_hash_prototype_to_string = Inr (ascii ''[object Hash]'')"

section \<open>Hmac\<close>

definition njs_crypto_create_hmac :: "hash_ctx \<Rightarrow> crypto_heap \<Rightarrow> crypto_value list \<Rightarrow> crypto_result" where
  "njs_crypto_create_hmac fresh h args =
     (if length args < 2 \<or> \<not> is_string (args ! 1) then
        (Inl (Type_error (ascii ''algorithm must be a string'')), h)
      else if length args < 3 \<or> \<not> is_string (args ! 2) then
        (Inl (Type_error (ascii ''key must be a string'')), h)
      else case njs_crypto_alg (string_get (args ! 1)) of
        Inl e \<Rightarrow> (Inl e, h)
      | Inr alg \<Rightarrow>
          let key = string_get (args ! 2);
              (key_buf, u) =
                (if length key > 64 then
                   let (digest, u) = alg_final alg (alg_update alg (alg_init alg fresh) key)
                   in (take (alg_size alg) digest @ replicate (64 - alg_size alg) 0, u)
                 else (key @ replicate (64 - length key) 0, fresh));
              opad = map (\<lambda>b. b XOR 0x5c) key_buf;
              key_buf = map (\<lambda>b. b XOR 0x36) key_buf;
              u = alg_update alg (alg_init alg u) key_buf
          in (Inr (V_object_value (length h)),
              h @ [O_hmac \<lparr>hmac_opad = opad, hmac_u = u, hmac_alg = Some alg\<rparr>]))"

definition njs_hmac_prototype_update :: "crypto_heap \<Rightarrow> crypto_value list \<Rightarrow> crypto_result" where
  "njs_hmac_prototype_update h args =
     (if length args < 2 \<or> \<not> is_string (args ! 1) then
        (Inl (Type_error (ascii ''data must be a string'')), h)
      else case this_data h (args ! 0) of
        Inl e \<Rightarrow> (Inl e, h)
      | Inr i \<Rightarrow>
          (case h ! i of
             O_hmac ctx \<Rightarrow>
               (case hmac_alg ctx of
                  None \<Rightarrow> (Inl digest_called, h)
                | Some alg \<Rightarrow>
                    (Inr (args ! 0),
                     h[i := O_hmac (ctx\<lparr>hmac_u := alg_update alg (hmac_u ctx) (string_get (args ! 1))\<rparr>)]))
           | _ \<Rightarrow> (Inl Bad_access, h)))"

definition njs_hmac_prototype_digest :: "crypto_heap \<Rightarrow> crypto_value list \<Rightarrow> crypto_result" where
  "njs_hmac_prototype_digest h args =
     (case digest_args h args of
        Inl e \<Rightarrow> (Inl e, h)
      | Inr (i, enc) \<Rightarrow>
          (case h ! i of
             O_hmac ctx \<Rightarrow>
               (case hmac_alg ctx of
                  None \<Rightarrow> (Inl digest_called, h)
                | Some alg \<Rightarrow>
                    let (hash1, u) = alg_final alg (hmac_u ctx);
                        u = alg_update alg (alg_init alg u) (hmac_opad ctx);
                        u = alg_update alg u (take (alg_size alg) hash1);
                        (digest, u) = alg_final alg u
                    in (digest_value enc (take (alg_size alg) digest),
                        h[i := O_hmac (ctx\<lparr>hmac_u := u, hmac_alg := None\<rparr>)]))
           | _ \<Rightarrow> (Inl Bad_access, h)))"

definition njs_hmac_prototype_to_string :: "njs_error + bytes" where
  "njs_hmac_prototype_to_string = Inr (ascii ''[object Hmac]'')"

section \<open>HMAC of RFC 2104\<close>

definition rfc_hmac :: "(bytes \<Rightarrow> bytes) \<Rightarrow> bytes \<Rightarrow> bytes \<Rightarrow> bytes" where
  "rfc_hmac hash key text =
     (let K = (if length key > 64 then hash key else key);
          K = K @ replicate (64 - length K) 0
      in hash (map (\<lambda>b. b XOR 0x5c) K @ hash (map (\<lambda>b. b XOR 0x36) K @ text)))"

text \<open>The key of a MAC as the code pads it.\<close>

definition hmac_key :: "(bytes \<Rightarrow> bytes) \<Rightarrow> bytes \<Rightarrow> bytes" where
  "hmac_key hash key =
     (let K = (if length key > 64 then hash key else key) in K @ replicate (64 - length K) 0)"

lemma rfc_hmac_key:
  "rfc_hmac hash key text =
     hash (map (\<lambda>b. b XOR 0x5c) (hmac_key hash key) @ hash (map (\<lambda>b. b XOR 0x36) (hmac_key hash key) @ text))"
  by (simp add: rfc_hmac_def hmac_key_def Let_def)

text \<open>An entry of the algorithm table is a digest, with results of the announced size.\<close>

locale crypto_alg =
  hash_alg "alg_init alg" "alg_update alg" "alg_final alg" ready holds hash
  for alg :: njs_hash_alg_t and ready and holds and hash +
  assumes hash_size: "length (hash m) = alg_size alg"
    and size_range: "alg_size alg \<le> 32"
begin

lemma take_hash [simp]: "take (alg_size alg) (hash m) = hash m"
  by (simp add: hash_size)

lemma final_take: "holds u m \<Longrightarrow> take (alg_size alg) (fst (alg_final alg u)) = hash m"
  by (simp add: final_hash)

lemma outer_hash:
  assumes "holds u (map (\<lambda>b. b XOR 0x36) (hmac_key hash key) @ m)"
    and "opad = map (\<lambda>b. b XOR 0x5c) (hmac_key hash key)"
  shows "fst (alg_final alg (alg_update alg (alg_update alg (alg_init alg (snd (alg_final alg u))) opad)
      (take (alg_size alg) (fst (alg_final alg u))))) = rfc_hmac hash key m"
proof -
  let ?u = "alg_init alg (snd (alg_final alg u))"
  have "holds ?u []" by (rule init_holds) (rule final_ready)
  then have "holds (alg_update alg (alg_update alg ?u opad) (hash (map (\<lambda>b. b XOR 0x36) (hmac_key hash key) @ m)))
      (opad @ hash (map (\<lambda>b. b XOR 0x36) (hmac_key hash key) @ m))"
    using update_holds [OF update_holds, of ?u "[]"] by simp
  then show ?thesis
    using assms by (simp add: final_hash rfc_hmac_key)
qed

end

lemma length_concat_words: "length (concat (map le32 ws)) = 4 * length ws" "length (concat (map be32 ws)) = 4 * length ws"
  by (induction ws) simp_all

interpretation crypto_md5: crypto_alg alg_md5 "\<lambda>u. md5_ready (ctx_md5 u)" "\<lambda>u. md5_holds (ctx_md5 u)" rfc_md5
proof
  show "length (rfc_md5 m) = alg_size alg_md5" for m
    by (simp add: rfc_md5_def alg_md5_def length_concat_words split: prod.split)
qed (use md5.init_holds md5.update_holds md5.final_hash md5.final_ready in
  \<open>simp_all add: alg_md5_def ctx_md5_def\<close>)

interpretation crypto_sha1: crypto_alg alg_sha1 "\<lambda>u. sha1_ready (ctx_sha1 u)" "\<lambda>u. sha1_holds (ctx_sha1 u)" fips_sha1
proof
  show "length (fips_sha1 m) = alg_size alg_sha1" for m
    by (simp add: fips_sha1_def alg_sha1_def length_concat_words split: prod.split)
qed (use sha1.init_holds sha1.update_holds sha1.final_hash sha1.final_ready in
  \<open>simp_all add: alg_sha1_def ctx_sha1_def\<close>)

interpretation crypto_sha256: crypto_alg alg_sha256 "\<lambda>u. sha2_ready (ctx_sha2 u)" "\<lambda>u. sha2_holds (ctx_sha2 u)" fips_sha256
proof
  show "length (fips_sha256 m) = alg_size alg_sha256" for m
    by (simp add: fips_sha256_def alg_sha256_def length_concat_words split: prod.split)
qed (use sha2.init_holds sha2.update_holds sha2.final_hash sha2.final_ready in
  \<open>simp_all add: alg_sha256_def ctx_sha2_def\<close>)

text \<open>The three interpretations as one statement about the entries of the table.\<close>

definition ctx_ready :: "hash_ctx \<Rightarrow> bool" where
  "ctx_ready u \<longleftrightarrow> md5_ready (ctx_md5 u) \<and> sha1_ready (ctx_sha1 u) \<and> sha2_ready (ctx_sha2 u)"

definition alg_ready :: "njs_hash_alg_t \<Rightarrow> hash_ctx \<Rightarrow> bool" where
  "alg_ready alg u =
     (if alg_size alg = 16 then md5_ready (ctx_md5 u)
      else if alg_size alg = 20 then sha1_ready (ctx_sha1 u) else sha2_ready (ctx_sha2 u))"

definition alg_holds :: "njs_hash_alg_t \<Rightarrow> hash_ctx \<Rightarrow> bytes \<Rightarrow> bool" where
  "alg_holds alg u =
     (if alg_size alg = 16 then md5_holds (ctx_md5 u)
      else if alg_size alg = 20 then sha1_holds (ctx_sha1 u) else sha2_holds (ctx_sha2 u))"

definition alg_hash :: "njs_hash_alg_t \<Rightarrow> bytes \<Rightarrow> bytes" where
  "alg_hash alg =
     (if alg_size alg = 16 then rfc_md5 else if alg_size alg = 20 then fips_sha1 else fips_sha256)"

lemma alg_laws:
  assumes "alg \<in> set njs_hash_algorithms"
  shows "crypto_alg alg (alg_ready alg) (alg_holds alg) (alg_hash alg)"
proof -
  have "alg_size alg_md5 = 16" "alg_size alg_sha1 = 20" "alg_size alg_sha256 = 32"
    by (simp_all add: alg_md5_def alg_sha1_def alg_sha256_def)
  then have "crypto_alg alg_md5 (alg_ready alg_md5) (alg_holds alg_md5) (alg_hash alg_md5)"
    "crypto_alg alg_sha1 (alg_ready alg_sha1) (alg_holds alg_sha1) (alg_hash alg_sha1)"
    "crypto_alg alg_sha256 (alg_ready alg_sha256) (alg_holds alg_sha256) (alg_hash alg_sha256)"
    using crypto_md5.crypto_alg_axioms crypto_sha1.crypto_alg_axioms crypto_sha256.crypto_alg_axioms
    by (simp_all add: alg_ready_def [abs_def] alg_holds_def [abs_def] alg_hash_def)
  with assms show ?thesis by (auto simp: njs_hash_algorithms_def)
qed

lemma alg_hash_simps [simp]:
  "alg_hash alg_md5 = rfc_md5" "alg_hash alg_sha1 = fips_sha1" "alg_hash alg_sha256 = fips_sha256"
  by (simp_all add: alg_hash_def alg_md5_def alg_sha1_def alg_sha256_def)

lemma crypto_alg_names:
  "njs_crypto_alg (ascii ''md5'') = Inr alg_md5"
  "njs_crypto_alg (ascii ''sha1'') = Inr alg_sha1"
  "njs_crypto_alg (ascii ''sha256'') = Inr alg_sha256"
  by (simp_all add: njs_crypto_alg_def njs_hash_algorithms_def alg_md5_def alg_sha1_def alg_sha256_def)

lemma crypto_alg_Inr: "njs_crypto_alg name = Inr alg \<Longrightarrow> alg \<in> set njs_hash_algorithms \<and> alg_name alg = name"
  by (auto simp: njs_crypto_alg_def find_Some_iff split: option.splits)

lemma ctx_ready_alg: "ctx_ready u \<Longrightarrow> alg_ready alg u"
  by (simp add: ctx_ready_def alg_ready_def)

section \<open>The objects of a run\<close>

text \<open>
  What every object satisfies: an open hash has absorbed some message; an open MAC has
  absorbed its inner pad and some message, and keeps the outer pad of the same key.
\<close>

definition hash_state :: "njs_digest_t \<Rightarrow> njs_hash_alg_t \<Rightarrow> bytes \<Rightarrow> bool" where
  "hash_state dgst alg m \<longleftrightarrow>
     alg \<in> set njs_hash_algorithms \<and> dgst_alg dgst = Some alg \<and> alg_holds alg (dgst_u dgst) m"

definition hmac_state :: "njs_hmac_t \<Rightarrow> njs_hash_alg_t \<Rightarrow> bytes \<Rightarrow> bytes \<Rightarrow> bool" where
  "hmac_state ctx alg key m \<longleftrightarrow>
     alg \<in> set njs_hash_algorithms \<and> hmac_alg ctx = Some alg \<and>
     alg_holds alg (hmac_u ctx) (map (\<lambda>b. b XOR 0x36) (hmac_key (alg_hash alg) key) @ m) \<and>
     hmac_opad ctx = map (\<lambda>b. b XOR 0x5c) (hmac_key (alg_hash alg) key)"

definition object_ok :: "crypto_object \<Rightarrow> bool" where
  "object_ok obj =
     (case obj of
        O_hash dgst \<Rightarrow> dgst_alg dgst = None \<or> (\<exists>alg m. hash_state dgst alg m)
      | O_hmac ctx \<Rightarrow> hmac_alg ctx = None \<or> (\<exists>alg key m. hmac_state ctx alg key m)
      | O_not_data \<Rightarrow> True)"

lemma hash_state_init:
  "alg \<in> set njs_hash_algorithms \<Longrightarrow> ctx_ready fresh \<Longrightarrow>
   hash_state \<lparr>dgst_u = alg_init alg fresh, dgst_alg = Some alg\<rparr> alg []"
  by (simp add: hash_state_def hash_alg.init_holds [OF crypto_alg.axioms(1) [OF alg_laws]] ctx_ready_alg)

lemma hash_state_update:
  "hash_state dgst alg m \<Longrightarrow>
   hash_state (dgst\<lparr>dgst_u := alg_update alg (dgst_u dgst) data\<rparr>) alg (m @ data)"
  by (simp add: hash_state_def hash_alg.update_holds [OF crypto_alg.axioms(1) [OF alg_laws]])

lemma hash_state_final:
  "hash_state dgst alg m \<Longrightarrow> take (alg_size alg) (fst (alg_final alg (dgst_u dgst))) = alg_hash alg m"
  by (simp add: hash_state_def crypto_alg.final_take [OF alg_laws])

lemma hmac_state_update:
  "hmac_state ctx alg key m \<Longrightarrow>
   hmac_state (ctx\<lparr>hmac_u := alg_update alg (hmac_u ctx) data\<rparr>) alg key (m @ data)"
  using hash_alg.update_holds [OF crypto_alg.axioms(1) [OF alg_laws]]
  by (fastforce simp: hmac_state_def)


lemmas table_init = hash_alg.init_holds [OF crypto_alg.axioms(1) [OF alg_laws]]
lemmas table_update = hash_alg.update_holds [OF crypto_alg.axioms(1) [OF alg_laws]]
lemmas table_final_ready = hash_alg.final_ready [OF crypto_alg.axioms(1) [OF alg_laws]]
lemmas table_final_take = crypto_alg.final_take [OF alg_laws]
lemmas table_hash_size = crypto_alg.hash_size [OF alg_laws]

lemma inner_pad:
  assumes "alg \<in> set njs_hash_algorithms" "alg_ready alg u" "key_buf = hmac_key (alg_hash alg) key"
  shows "hmac_state \<lparr>hmac_opad = map (\<lambda>b. b XOR 0x5c) key_buf,
      hmac_u = alg_update alg (alg_init alg u) (map (\<lambda>b. b XOR 0x36) key_buf), hmac_alg = Some alg\<rparr> alg key []"
  using assms table_update [OF assms(1) table_init [OF assms(1,2)]]
  by (simp add: hmac_state_def)

lemma hmac_state_init:
  assumes fresh: "ctx_ready fresh"
    and args: "2 < length args" "is_string (args ! 1)" "is_string (args ! 2)"
    and name: "njs_crypto_alg (string_get (args ! 1)) = Inr alg"
  shows "\<exists>ctx. njs_crypto_create_hmac fresh h args = (Inr (V_object_value (length h)), h @ [O_hmac ctx]) \<and>
    hmac_state ctx alg (string_get (args ! 2)) []"
proof -
  let ?key = "string_get (args ! 2)"
  have alg: "alg \<in> set njs_hash_algorithms" using crypto_alg_Inr [OF name] by simp
  show ?thesis
  proof (cases "64 < length ?key")
    case True
    let ?u = "alg_update alg (alg_init alg fresh) ?key"
    have "alg_holds alg ?u ?key"
      using table_update [OF alg table_init [OF alg ctx_ready_alg [OF fresh]]] by simp
    then have dig: "take (alg_size alg) (fst (alg_final alg ?u)) = alg_hash alg ?key"
      by (rule table_final_take [OF alg])
    have "take (alg_size alg) (fst (alg_final alg ?u)) @ replicate (64 - alg_size alg) 0 = hmac_key (alg_hash alg) ?key"
      unfolding dig hmac_key_def using True by (simp add: table_hash_size [OF alg])
    from inner_pad [OF alg table_final_ready [OF alg] this, of ?u] True args name show ?thesis
      by (simp add: njs_crypto_create_hmac_def Let_def case_prod_beta)
  next
    case False
    have "?key @ replicate (64 - length ?key) 0 = hmac_key (alg_hash alg) ?key"
      using False by (simp add: hmac_key_def Let_def)
    from inner_pad [OF alg ctx_ready_alg [OF fresh] this] False args name show ?thesis
      by (simp add: njs_crypto_create_hmac_def Let_def)
  qed
qed

lemma hmac_state_final:
  assumes "hmac_state ctx alg key m"
  shows "take (alg_size alg) (fst (alg_final alg (alg_update alg (alg_update alg (alg_init alg
      (snd (alg_final alg (hmac_u ctx)))) (hmac_opad ctx)) (take (alg_size alg) (fst (alg_final alg (hmac_u ctx))))))) =
    rfc_hmac (alg_hash alg) key m"
proof -
  have alg: "alg \<in> set njs_hash_algorithms" using assms by (simp add: hmac_state_def)
  have "length (rfc_hmac (alg_hash alg) key m) = alg_size alg"
    by (simp add: rfc_hmac_key table_hash_size [OF alg])
  then show ?thesis
    using crypto_alg.outer_hash [OF alg_laws [OF alg], of "hmac_u ctx" key m "hmac_opad ctx"] assms
    by (simp add: hmac_state_def)
qed

text \<open>A sequence of \<open>update\<close> calls on one object.\<close>

definition updates ::
  "(crypto_heap \<Rightarrow> crypto_value list \<Rightarrow> crypto_result) \<Rightarrow> crypto_value \<Rightarrow> njs_string list \<Rightarrow> crypto_heap \<Rightarrow> crypto_heap" where
  "updates upd this ds h = foldl (\<lambda>h d. snd (upd h [this, V_string d])) h ds"

lemma hash_update_step:
  assumes "i < length h" "h ! i = O_hash dgst" "hash_state dgst alg m"
  shows "\<exists>dgst'. njs_hash_prototype_update h [V_object_value i, V_string d] =
      (Inr (V_object_value i), h[i := O_hash dgst']) \<and> hash_state dgst' alg (m @ str_start d)"
proof -
  have "njs_hash_prototype_update h [V_object_value i, V_string d] =
      (Inr (V_object_value i), h[i := O_hash (dgst\<lparr>dgst_u := alg_update alg (dgst_u dgst) (str_start d)\<rparr>)])"
    using assms by (simp add: njs_hash_prototype_update_def this_data_def hash_state_def)
  with hash_state_update [OF assms(3)] show ?thesis by blast
qed

lemma hmac_update_step:
  assumes "i < length h" "h ! i = O_hmac ctx" "hmac_state ctx alg key m"
  shows "\<exists>ctx'. njs_hmac_prototype_update h [V_object_value i, V_string d] =
      (Inr (V_object_value i), h[i := O_hmac ctx']) \<and> hmac_state ctx' alg key (m @ str_start d)"
proof -
  have "njs_hmac_prototype_update h [V_object_value i, V_string d] =
      (Inr (V_object_value i), h[i := O_hmac (ctx\<lparr>hmac_u := alg_update alg (hmac_u ctx) (str_start d)\<rparr>)])"
    using assms by (simp add: njs_hmac_prototype_update_def this_data_def hmac_state_def)
  with hmac_state_update [OF assms(3)] show ?thesis by blast
qed

lemma hash_updates:
  assumes "i < length h" "h ! i = O_hash dgst" "hash_state dgst alg m"
  shows "\<exists>dgst'. updates njs_hash_prototype_update (V_object_value i) ds h = h[i := O_hash dgst'] \<and>
    hash_state dgst' alg (m @ concat (map str_start ds))"
  using assms
proof (induction ds arbitrary: h dgst m)
  case Nil
  then have "h = h[i := O_hash dgst]" by (metis list_update_id)
  with Nil(3) show ?case by (intro exI [of _ dgst]) (simp add: updates_def)
next
  case (Cons d ds)
  then obtain d1 where "njs_hash_prototype_update h [V_object_value i, V_string d] =
      (Inr (V_object_value i), h[i := O_hash d1])" "hash_state d1 alg (m @ str_start d)"
    using hash_update_step by blast
  with Cons.IH [of "h[i := O_hash d1]" d1 "m @ str_start d"] Cons.prems(1) show ?case
    by (auto simp: updates_def)
qed

lemma hmac_updates:
  assumes "i < length h" "h ! i = O_hmac ctx" "hmac_state ctx alg key m"
  shows "\<exists>ctx'. updates njs_hmac_prototype_update (V_object_value i) ds h = h[i := O_hmac ctx'] \<and>
    hmac_state ctx' alg key (m @ concat (map str_start ds))"
  using assms
proof (induction ds arbitrary: h ctx m)
  case Nil
  then have "h = h[i := O_hmac ctx]" by (metis list_update_id)
  with Nil(3) show ?case by (intro exI [of _ ctx]) (simp add: updates_def)
next
  case (Cons d ds)
  then obtain d1 where "njs_hmac_prototype_update h [V_object_value i, V_string d] =
      (Inr (V_object_value i), h[i := O_hmac d1])" "hmac_state d1 alg key (m @ str_start d)"
    using hmac_update_step by blast
  with Cons.IH [of "h[i := O_hmac d1]" d1 "m @ str_start d"] Cons.prems(1) show ?case
    by (auto simp: updates_def)
qed

lemma alg_size_32: "alg \<in> set njs_hash_algorithms \<Longrightarrow> alg_size alg \<le> 32"
  by (rule crypto_alg.size_range [OF alg_laws])

lemma digest_bytes:
  "length bs \<le> 32 \<Longrightarrow> digest_value None bs = Inr (V_string \<lparr>str_start = bs, str_length = 0, str_map = []\<rparr>)"
  by (simp add: digest_value_def njs_string_alloc_def NJS_STRING_MAX_LENGTH_def)

text \<open>
  C27. The life of a \<open>Hash\<close> object: created with the name of an algorithm, fed by any
  sequence of \<open>update\<close> calls, its \<open>digest\<close> is the hash of all data; no other object
  changes, and from then on every \<open>update\<close> and \<open>digest\<close> throws.
\<close>

theorem hash_object_digest:
  assumes "ctx_ready fresh" "njs_crypto_alg (str_start name) = Inr alg"
  shows "\<exists>h1 h2. njs_crypto_create_hash fresh h [V_undefined, V_string name] = (Inr (V_object_value (length h)), h1) \<and>
    njs_hash_prototype_digest (updates njs_hash_prototype_update (V_object_value (length h)) ds h1)
        [V_object_value (length h)] =
      (Inr (V_string \<lparr>str_start = alg_hash alg (concat (map str_start ds)), str_length = 0, str_map = []\<rparr>), h2) \<and>
    take (length h) h2 = h \<and>
    njs_hash_prototype_update h2 [V_object_value (length h), V_string d] = (Inl digest_called, h2) \<and>
    njs_hash_prototype_digest h2 [V_object_value (length h)] = (Inl digest_called, h2)"
proof -
  let ?i = "length h" and ?m = "concat (map str_start ds)"
  let ?dgst = "\<lparr>dgst_u = alg_init alg fresh, dgst_alg = Some alg\<rparr>"
  have alg: "alg \<in> set njs_hash_algorithms" using crypto_alg_Inr [OF assms(2)] by simp
  obtain d1 where d1: "updates njs_hash_prototype_update (V_object_value ?i) ds (h @ [O_hash ?dgst]) = h @ [O_hash d1]"
    "hash_state d1 alg ?m"
    using hash_updates [of ?i "h @ [O_hash ?dgst]" ?dgst alg "[]" ds] hash_state_init [OF alg assms(1)] by auto
  let ?h2 = "h @ [O_hash (d1\<lparr>dgst_u := snd (alg_final alg (dgst_u d1)), dgst_alg := None\<rparr>)]"
  have "length (alg_hash alg ?m) \<le> 32" using alg_size_32 [OF alg] by (simp add: table_hash_size [OF alg])
  then have "njs_hash_prototype_digest (h @ [O_hash d1]) [V_object_value ?i] =
      (Inr (V_string \<lparr>str_start = alg_hash alg ?m, str_length = 0, str_map = []\<rparr>), ?h2)"
    using d1(2) hash_state_final [OF d1(2)]
    by (simp add: njs_hash_prototype_digest_def digest_args_def this_data_def hash_state_def
        case_prod_beta digest_bytes)
  moreover have "njs_crypto_create_hash fresh h [V_undefined, V_string name] = (Inr (V_object_value ?i), h @ [O_hash ?dgst])"
    using assms(2) by (simp add: njs_crypto_create_hash_def)
  ultimately show ?thesis
    by (intro exI [of _ "h @ [O_hash ?dgst]"] exI [of _ ?h2])
      (simp add: d1(1) njs_hash_prototype_update_def njs_hash_prototype_digest_def digest_args_def this_data_def)
qed

text \<open>
  C28. The life of an \<open>Hmac\<close> object: created with the name of an algorithm and a key of any
  length, fed by any sequence of \<open>update\<close> calls, its \<open>digest\<close> is the HMAC of RFC 2104 of all
  data; no other object changes, and from then on every \<open>update\<close> and \<open>digest\<close> throws.
\<close>

theorem hmac_object_digest:
  assumes "ctx_ready fresh" "njs_crypto_alg (str_start name) = Inr alg"
  shows "\<exists>h1 h2. njs_crypto_create_hmac fresh h [V_undefined, V_string name, V_string key] =
      (Inr (V_object_value (length h)), h1) \<and>
    njs_hmac_prototype_digest (updates njs_hmac_prototype_update (V_object_value (length h)) ds h1)
        [V_object_value (length h)] =
      (Inr (V_string \<lparr>str_start = rfc_hmac (alg_hash alg) (str_start key) (concat (map str_start ds)),
              str_length = 0, str_map = []\<rparr>), h2) \<and>
    take (length h) h2 = h \<and>
    njs_hmac_prototype_update h2 [V_object_value (length h), V_string d] = (Inl digest_called, h2) \<and>
    njs_hmac_prototype_digest h2 [V_object_value (length h)] = (Inl digest_called, h2)"
proof -
  let ?i = "length h" and ?m = "concat (map str_start ds)"
  have alg: "alg \<in> set njs_hash_algorithms" using crypto_alg_Inr [OF assms(2)] by simp
  obtain ctx where ctx: "njs_crypto_create_hmac fresh h [V_undefined, V_string name, V_string key] =
      (Inr (V_object_value ?i), h @ [O_hmac ctx])" "hmac_state ctx alg (str_start key) []"
    using hmac_state_init [OF assms(1), of "[V_undefined, V_string name, V_string key]" alg h] assms(2) by auto
  obtain c1 where c1: "updates njs_hmac_prototype_update (V_object_value ?i) ds (h @ [O_hmac ctx]) = h @ [O_hmac c1]"
    "hmac_state c1 alg (str_start key) ?m"
    using hmac_updates [of ?i "h @ [O_hmac ctx]" ctx alg "str_start key" "[]" ds] ctx(2) by auto
  have "length (rfc_hmac (alg_hash alg) (str_start key) ?m) \<le> 32"
    using alg_size_32 [OF alg] by (simp add: rfc_hmac_key table_hash_size [OF alg])
  then obtain c2 where "njs_hmac_prototype_digest (h @ [O_hmac c1]) [V_object_value ?i] =
      (Inr (V_string \<lparr>str_start = rfc_hmac (alg_hash alg) (str_start key) ?m, str_length = 0, str_map = []\<rparr>),
       h @ [O_hmac c2]) \<and> hmac_alg c2 = None"
    using c1(2) hmac_state_final [OF c1(2)]
    by (simp add: njs_hmac_prototype_digest_def digest_args_def this_data_def hmac_state_def
        case_prod_beta digest_bytes Let_def)
  then show ?thesis
    using ctx(1)
    by (intro exI [of _ "h @ [O_hmac ctx]"] exI [of _ "h @ [O_hmac c2]"])
      (simp add: c1(1) njs_hmac_prototype_update_def digest_args_def this_data_def, simp add: njs_hmac_prototype_digest_def digest_args_def this_data_def)
qed


section \<open>Reachable states\<close>

text \<open>
  Any call of a method of the module, with any arguments; a new context may hold anything that
  is a context.
\<close>

inductive crypto_step :: "crypto_heap \<Rightarrow> crypto_heap \<Rightarrow> bool" where
  create_hash: "ctx_ready fresh \<Longrightarrow> crypto_step h (snd (njs_crypto_create_hash fresh h args))"
| hash_update: "crypto_step h (snd (njs_hash_prototype_update h args))"
| hash_digest: "crypto_step h (snd (njs_hash_prototype_digest h args))"
| create_hmac: "ctx_ready fresh \<Longrightarrow> crypto_step h (snd (njs_crypto_create_hmac fresh h args))"
| hmac_update: "crypto_step h (snd (njs_hmac_prototype_update h args))"
| hmac_digest: "crypto_step h (snd (njs_hmac_prototype_digest h args))"

inductive_cases crypto_step_cases: "crypto_step h h'"

fun object_closed :: "crypto_object \<Rightarrow> bool" where
  "object_closed (O_hash dgst) = (dgst_alg dgst = None)"
| "object_closed (O_hmac ctx) = (hmac_alg ctx = None)"
| "object_closed O_not_data = True"

text \<open>
  How a call may change the objects: some are added, at most one open object changes, and it
  keeps its kind.
\<close>

fun object_next :: "crypto_object \<Rightarrow> crypto_object \<Rightarrow> bool" where
  "object_next (O_hash d) (O_hash d') = (dgst_alg d' = dgst_alg d \<or> dgst_alg d' = None)"
| "object_next (O_hmac c) (O_hmac c') =
     (hmac_opad c' = hmac_opad c \<and> (hmac_alg c' = hmac_alg c \<or> hmac_alg c' = None))"
| "object_next O_not_data O_not_data = True"
| "object_next _ _ = False"

lemma object_next_refl [simp]: "object_next obj obj"
  by (cases obj) simp_all

definition heap_next :: "crypto_heap \<Rightarrow> crypto_heap \<Rightarrow> bool" where
  "heap_next h h' \<longleftrightarrow>
     (list_all object_ok h \<longrightarrow> list_all object_ok h') \<and> length h \<le> length h' \<and>
     (\<forall>i<length h. object_next (h ! i) (h' ! i) \<and> (object_closed (h ! i) \<longrightarrow> h' ! i = h ! i))"

lemma heap_next_refl [simp]: "heap_next h h"
  by (simp add: heap_next_def)

lemma heap_next_new: "object_ok obj \<Longrightarrow> heap_next h (h @ [obj])"
  by (simp add: heap_next_def nth_append)

lemma heap_next_update:
  "i < length h \<Longrightarrow> \<not> object_closed (h ! i) \<Longrightarrow> object_next (h ! i) obj \<Longrightarrow>
   (object_ok (h ! i) \<Longrightarrow> object_ok obj) \<Longrightarrow> heap_next h (h[i := obj])"
  by (auto simp: heap_next_def nth_list_update list_all_length)

lemma this_data_range: "this_data h v = Inr i \<Longrightarrow> i < length h"
  by (auto simp: this_data_def split: crypto_value.splits if_splits crypto_object.splits)

lemma digest_args_range: "digest_args h args = Inr (i, enc) \<Longrightarrow> i < length h"
  by (auto simp: digest_args_def split: if_splits sum.splits dest: this_data_range)

lemma create_hash_next: "ctx_ready fresh \<Longrightarrow> heap_next h (snd (njs_crypto_create_hash fresh h args))"
  using hash_state_init crypto_alg_Inr
  by (fastforce simp: njs_crypto_create_hash_def object_ok_def split: sum.splits intro!: heap_next_new)

lemma create_hmac_next: "ctx_ready fresh \<Longrightarrow> heap_next h (snd (njs_crypto_create_hmac fresh h args))"
proof -
  assume fresh: "ctx_ready fresh"
  show ?thesis
  proof (cases "2 < length args \<and> is_string (args ! 1) \<and> is_string (args ! 2) \<and>
      (\<exists>alg. njs_crypto_alg (string_get (args ! 1)) = Inr alg)")
    case True
    with hmac_state_init [OF fresh] obtain ctx alg where
      "njs_crypto_create_hmac fresh h args = (Inr (V_object_value (length h)), h @ [O_hmac ctx])"
      "hmac_state ctx alg (string_get (args ! 2)) []" by blast
    then show ?thesis by (auto simp: object_ok_def intro!: heap_next_new)
  next
    case False
    then have "snd (njs_crypto_create_hmac fresh h args) = h"
      by (auto simp: njs_crypto_create_hmac_def split: sum.splits)
    then show ?thesis by simp
  qed
qed

lemma object_ok_update:
  "object_ok (O_hash d) \<Longrightarrow> dgst_alg d = Some a \<Longrightarrow>
     object_ok (O_hash (d\<lparr>dgst_u := alg_update a (dgst_u d) data\<rparr>))"
  "object_ok (O_hmac c) \<Longrightarrow> hmac_alg c = Some a \<Longrightarrow>
     object_ok (O_hmac (c\<lparr>hmac_u := alg_update a (hmac_u c) data\<rparr>))"
proof -
  assume "object_ok (O_hash d)" "dgst_alg d = Some a"
  then obtain m where "hash_state d a m" by (auto simp: object_ok_def hash_state_def)
  from hash_state_update [OF this] show "object_ok (O_hash (d\<lparr>dgst_u := alg_update a (dgst_u d) data\<rparr>))"
    by (auto simp: object_ok_def)
next
  assume "object_ok (O_hmac c)" "hmac_alg c = Some a"
  then obtain key m where "hmac_state c a key m" by (auto simp: object_ok_def hmac_state_def)
  from hmac_state_update [OF this] show "object_ok (O_hmac (c\<lparr>hmac_u := alg_update a (hmac_u c) data\<rparr>))"
    by (auto simp: object_ok_def)
qed

lemma hash_update_next: "heap_next h (snd (njs_hash_prototype_update h args))"
  by (auto simp: njs_hash_prototype_update_def object_ok_update
      split: if_splits sum.splits crypto_object.splits option.splits
      dest!: this_data_range intro!: heap_next_update)

lemma hmac_update_next: "heap_next h (snd (njs_hmac_prototype_update h args))"
  by (auto simp: njs_hmac_prototype_update_def object_ok_update
      split: if_splits sum.splits crypto_object.splits option.splits
      dest!: this_data_range intro!: heap_next_update)

lemma hash_digest_next: "heap_next h (snd (njs_hash_prototype_digest h args))"
  by (auto simp: njs_hash_prototype_digest_def object_ok_def Let_def
      split: if_splits sum.splits crypto_object.splits option.splits prod.splits
      dest!: digest_args_range intro!: heap_next_update)

lemma hmac_digest_next: "heap_next h (snd (njs_hmac_prototype_digest h args))"
  by (auto simp: njs_hmac_prototype_digest_def object_ok_def Let_def
      split: if_splits sum.splits crypto_object.splits option.splits prod.splits
      dest!: digest_args_range intro!: heap_next_update)


lemma crypto_step_next: "crypto_step h h' \<Longrightarrow> heap_next h h'"
  by (induction rule: crypto_step.induct)
    (simp_all add: create_hash_next hash_update_next hash_digest_next create_hmac_next
      hmac_update_next hmac_digest_next)



lemma encoders_total: "enc \<in> set njs_encodings \<Longrightarrow> length bs \<le> 32 \<Longrightarrow> \<exists>s. enc_encode enc bs = Inr s"
proof -
  assume enc: "enc \<in> set njs_encodings" and bs: "length bs \<le> 32"
  have "(length bs + 2) div 3 * 4 \<le> (32 + 2) div 3 * 4" using bs by (intro mult_le_mono div_le_mono) simp_all
  then have len: "njs_base64_encoded_length (length bs) \<le> 100" by (simp add: njs_base64_encoded_length_def)
  have alloc: "\<exists>s. fill (njs_string_alloc n k) out = Inr s" if "n \<le> 100" for n k out
    using that by (simp add: njs_string_alloc_def NJS_STRING_MAX_LENGTH_def)
  from enc bs len show ?thesis
    by (auto simp: njs_encodings_def njs_string_hex_def njs_string_base64_def njs_string_base64url_def
        Let_def intro!: alloc)
qed


lemma digest_value_total:
  "length bs \<le> 32 \<Longrightarrow> (case enc of None \<Rightarrow> True | Some e \<Rightarrow> e \<in> set njs_encodings) \<Longrightarrow>
   \<not> isl (digest_value enc bs)"
  using encoders_total [of "the enc" bs]
  by (cases enc) (auto simp: digest_bytes, auto simp: digest_value_def)

lemma digest_args_enc:
  "digest_args h args = Inr (i, enc) \<Longrightarrow> (case enc of None \<Rightarrow> True | Some e \<Rightarrow> e \<in> set njs_encodings)"
  by (auto simp: digest_args_def njs_crypto_encoding_def find_Some_iff
      split: if_splits sum.splits option.splits)

definition atomic :: "crypto_heap \<Rightarrow> crypto_result \<Rightarrow> bool" where
  "atomic h r \<longleftrightarrow> \<not> isl (fst r) \<or> snd r = h"

lemma digest_size:
  "list_all object_ok h \<Longrightarrow> i < length h \<Longrightarrow> h ! i = O_hash d \<Longrightarrow> dgst_alg d = Some alg \<Longrightarrow> alg_size alg \<le> 32"
  "list_all object_ok h \<Longrightarrow> i < length h \<Longrightarrow> h ! i = O_hmac c \<Longrightarrow> hmac_alg c = Some alg \<Longrightarrow> alg_size alg \<le> 32"
  using alg_size_32 by (fastforce simp: list_all_length object_ok_def hash_state_def hmac_state_def)+

lemma hash_digest_atomic: "list_all object_ok h \<Longrightarrow> atomic h (njs_hash_prototype_digest h args)"
proof (cases "digest_args h args")
  case (Inr p)
  obtain i enc where p: "digest_args h args = Inr (i, enc)" using Inr by (cases p) simp
  assume ok: "list_all object_ok h"
  show ?thesis
  proof (cases "h ! i")
    case (O_hash d)
    then have "dgst_alg d = Some alg \<Longrightarrow> \<not> isl (digest_value enc (take (alg_size alg) bs))" for alg bs
      using digest_size(1) [OF ok digest_args_range [OF p], of d alg] digest_args_enc [OF p]
      by (intro digest_value_total) (simp_all add: min_le_iff_disj)
    with O_hash p show ?thesis
      by (simp add: njs_hash_prototype_digest_def atomic_def case_prod_beta split: option.split)
  qed (use p in \<open>simp_all add: njs_hash_prototype_digest_def atomic_def\<close>)
qed (simp add: njs_hash_prototype_digest_def atomic_def)

lemma hmac_digest_atomic: "list_all object_ok h \<Longrightarrow> atomic h (njs_hmac_prototype_digest h args)"
proof (cases "digest_args h args")
  case (Inr p)
  obtain i enc where p: "digest_args h args = Inr (i, enc)" using Inr by (cases p) simp
  assume ok: "list_all object_ok h"
  show ?thesis
  proof (cases "h ! i")
    case (O_hmac c)
    then have "hmac_alg c = Some alg \<Longrightarrow> \<not> isl (digest_value enc (take (alg_size alg) bs))" for alg bs
      using digest_size(2) [OF ok digest_args_range [OF p], of c alg] digest_args_enc [OF p]
      by (intro digest_value_total) (simp_all add: min_le_iff_disj)
    with O_hmac p show ?thesis
      by (simp add: njs_hmac_prototype_digest_def atomic_def case_prod_beta Let_def split: option.split)
  qed (use p in \<open>simp_all add: njs_hmac_prototype_digest_def atomic_def\<close>)
qed (simp add: njs_hmac_prototype_digest_def atomic_def)

text \<open>
  C30. A call of any method that throws leaves all objects as they were; in particular a \<open>digest\<close> that is
  refused for its arguments does not close the object.
\<close>

theorem crypto_errors_keep_objects:
  assumes "list_all object_ok h"
  shows "atomic h (njs_crypto_create_hash fresh h args) \<and> atomic h (njs_hash_prototype_update h args) \<and>
    atomic h (njs_hash_prototype_digest h args) \<and> atomic h (njs_crypto_create_hmac fresh h args) \<and>
    atomic h (njs_hmac_prototype_update h args) \<and> atomic h (njs_hmac_prototype_digest h args)"
proof (intro conjI hash_digest_atomic hmac_digest_atomic assms)
  show "atomic h (njs_crypto_create_hash fresh h args)"
    by (auto simp: atomic_def njs_crypto_create_hash_def split: sum.split)
  show "atomic h (njs_hash_prototype_update h args)"
    by (auto simp: atomic_def njs_hash_prototype_update_def split: sum.split crypto_object.split option.split)
  show "atomic h (njs_crypto_create_hmac fresh h args)"
    by (auto simp: atomic_def njs_crypto_create_hmac_def Let_def split: sum.split prod.split)
  show "atomic h (njs_hmac_prototype_update h args)"
    by (auto simp: atomic_def njs_hmac_prototype_update_def split: sum.split crypto_object.split option.split)
qed

theorem crypto_errors_keep_objects_witness:
  "atomic [O_not_data] (njs_hash_prototype_digest [O_not_data] [V_object_value 0]) \<and>
   fst (njs_hash_prototype_digest [O_not_data] [V_object_value 0]) =
     Inl (Type_error (ascii ''value of '' @ quoted (ascii ''this'') @ ascii '' is not a data type''))"
proof -
  have "list_all object_ok [O_not_data]" by (simp add: object_ok_def)
  from crypto_errors_keep_objects [OF this, of _ "[V_object_value 0]"] show ?thesis
    by (simp add: njs_hash_prototype_digest_def digest_args_def this_data_def)
qed

lemma fresh_ready:
  "ctx_ready (Ctx_md5 \<lparr>md5_bytes = 1, md5_a = 2, md5_b = 3, md5_c = 4, md5_d = 5, md5_buffer = replicate 64 6\<rparr>)"
  by (simp add: ctx_ready_def md5_ready_def sha1_ready_def sha2_ready_def ctx_md5_def ctx_sha1_def ctx_sha2_def)

theorem hash_object_digest_witness:
  "\<exists>h1 h2. njs_hash_prototype_digest
      (updates njs_hash_prototype_update (V_object_value 0) [\<lparr>str_start = [0x61], str_length = 1, str_map = []\<rparr>] h1)
      [V_object_value 0] = (Inr (V_string \<lparr>str_start = fips_sha256 [0x61], str_length = 0, str_map = []\<rparr>), h2)"
proof -
  have "njs_crypto_alg (str_start \<lparr>str_start = ascii ''sha256'', str_length = 6, str_map = []\<rparr>) = Inr alg_sha256"
    using crypto_alg_names(3) by simp
  from hash_object_digest [OF fresh_ready this, of "[]" "[\<lparr>str_start = [0x61], str_length = 1, str_map = []\<rparr>]" njs_string_empty]
  show ?thesis by auto
qed

theorem hmac_object_digest_witness:
  "\<exists>h1 h2. njs_hmac_prototype_digest
      (updates njs_hmac_prototype_update (V_object_value 0) [\<lparr>str_start = [0x61], str_length = 1, str_map = []\<rparr>] h1)
      [V_object_value 0] =
    (Inr (V_string \<lparr>str_start = rfc_hmac fips_sha1 [0x6B] [0x61], str_length = 0, str_map = []\<rparr>), h2)"
proof -
  have "njs_crypto_alg (str_start \<lparr>str_start = ascii ''sha1'', str_length = 4, str_map = []\<rparr>) = Inr alg_sha1"
    using crypto_alg_names(2) by simp
  from hmac_object_digest [OF fresh_ready this, of "[]" "\<lparr>str_start = [0x6B], str_length = 1, str_map = []\<rparr>"
      "[\<lparr>str_start = [0x61], str_length = 1, str_map = []\<rparr>]" njs_string_empty]
  show ?thesis by auto
qed

end
