(* ===== verification/Njs_Random.thy ===== *)
theory Njs_Random
  imports Njs_Prelude "HOL-Library.Multiset"
begin

text \<open>
  The pseudorandom generator (\<open>src/src/njs_random.c\<close>), a variant of arc4random. The
  operating system is a parameter: the process id and the 128 bytes of seed that a call of
  \<open>njs_random_stir\<close> obtains are arguments.
\<close>

section \<open>The code\<close>

record njs_random_t =
  rnd_count :: int
  rnd_pid :: int
  rnd_i :: u8
  rnd_j :: u8
  rnd_s :: "u8 list"

definition njs_random_init :: "njs_random_t \<Rightarrow> int \<Rightarrow> njs_random_t" where
  "njs_random_init r pid = r\<lparr>rnd_count := 0, rnd_pid := pid, rnd_i := 0, rnd_j := 0,
     rnd_s := map of_nat [0..<256]\<rparr>"

definition random_add_step :: "bytes \<Rightarrow> nat \<Rightarrow> njs_random_t \<Rightarrow> njs_random_t" where
  "random_add_step key n r =
     (let val = rnd_s r ! unat (rnd_i r);
          j = rnd_j r + (val + key ! (n mod length key));
          s = (rnd_s r)[unat (rnd_i r) := rnd_s r ! unat j];
          s = s[unat j := val]
      in r\<lparr>rnd_j := j, rnd_s := s, rnd_i := rnd_i r + 1\<rparr>)"

definition njs_random_add :: "njs_random_t \<Rightarrow> bytes \<Rightarrow> njs_random_t" where
  "njs_random_add r key =
     (let r = fold (random_add_step key) [0..<256] r;
          i = rnd_i r - 1
      in r\<lparr>rnd_i := i, rnd_j := i\<rparr>)"

definition njs_random_byte :: "njs_random_t \<Rightarrow> u8 \<times> njs_random_t" where
  "njs_random_byte r =
     (let i = rnd_i r + 1;
          si = rnd_s r ! unat i;
          j = rnd_j r + si;
          sj = rnd_s r ! unat j;
          s = (rnd_s r)[unat i := sj];
          s = s[unat j := si];
          si = si + sj
      in (s ! unat si, r\<lparr>rnd_i := i, rnd_j := j, rnd_s := s\<rparr>))"

definition NJS_RANDOM_KEY_SIZE :: nat where
  "NJS_RANDOM_KEY_SIZE = 128"

definition njs_random_stir :: "bytes \<Rightarrow> njs_random_t \<Rightarrow> int \<Rightarrow> njs_random_t" where
  "njs_random_stir key r pid =
     (let r = (if rnd_pid r = 0 then njs_random_init r pid else r);
          r = r\<lparr>rnd_pid := pid\<rparr>;
          r = njs_random_add r key;
          r = ((\<lambda>r. snd (njs_random_byte r)) ^^ 3072) r
      in r\<lparr>rnd_count := 400000\<rparr>)"

definition njs_random :: "int \<Rightarrow> bytes \<Rightarrow> njs_random_t \<Rightarrow> u32 \<times> njs_random_t" where
  "njs_random getpid key r =
     (let pid = (if rnd_pid r \<noteq> -1 then getpid else rnd_pid r);
          new_pid = (rnd_pid r \<noteq> -1 \<and> pid \<noteq> rnd_pid r);
          r = r\<lparr>rnd_count := rnd_count r - 1\<rparr>;
          r = (if rnd_count r \<le> 0 \<or> new_pid then njs_random_stir key r pid else r);
          (b0, r) = njs_random_byte r;
          (b1, r) = njs_random_byte r;
          (b2, r) = njs_random_byte r;
          (b3, r) = njs_random_byte r
      in (((push_bit 24 (ucast b0) OR push_bit 16 (ucast b1)) OR push_bit 8 (ucast b2)) OR ucast b3, r))"

section \<open>The state stays a permutation\<close>

definition random_perm :: "u8 list \<Rightarrow> bool" where
  "random_perm s \<longleftrightarrow> mset s = mset (map of_nat [0..<256])"

lemma random_perm_length: "random_perm s \<Longrightarrow> length s = 256"
  unfolding random_perm_def by (drule arg_cong [of _ _ size]) simp

lemma random_perm_swap:
  assumes "random_perm s" "i < 256" "j < 256"
  shows "random_perm (s[i := s ! j, j := s ! i])"
  using assms mset_swap [of j s i] random_perm_length [OF assms(1)] by (simp add: random_perm_def)

lemma random_perm_byte [intro]: "random_perm (rnd_s r) \<Longrightarrow> random_perm (rnd_s (snd (njs_random_byte r)))"
  by (simp add: njs_random_byte_def Let_def random_perm_swap)

lemma random_perm_bytes: "random_perm (rnd_s r) \<Longrightarrow> random_perm (rnd_s (((\<lambda>r. snd (njs_random_byte r)) ^^ n) r))"
  by (induction n) auto

lemma random_perm_add: "random_perm (rnd_s r) \<Longrightarrow> random_perm (rnd_s (njs_random_add r key))"
proof -
  assume "random_perm (rnd_s r)"
  then have "random_perm (rnd_s (fold (random_add_step key) ns r))" for ns
    by (induction ns arbitrary: r) (simp_all add: random_add_step_def Let_def random_perm_swap)
  then show ?thesis by (simp add: njs_random_add_def Let_def)
qed

lemma random_perm_init [simp]: "random_perm (rnd_s (njs_random_init r pid))"
  by (simp add: njs_random_init_def random_perm_def)

lemma random_byte_frame:
  "rnd_count (snd (njs_random_byte r)) = rnd_count r" "rnd_pid (snd (njs_random_byte r)) = rnd_pid r"
  by (simp_all add: njs_random_byte_def Let_def)

text \<open>
  A generator is zeroed memory or holds a permutation; its counter is within the 400000 calls
  that follow a stir.
\<close>

definition random_ok :: "njs_random_t \<Rightarrow> bool" where
  "random_ok r \<longleftrightarrow> (rnd_pid r = 0 \<or> random_perm (rnd_s r)) \<and> 0 \<le> rnd_count r \<and> rnd_count r \<le> 400000"

lemma random_bytes_frame:
  "rnd_pid (((\<lambda>r. snd (njs_random_byte r)) ^^ n) r) = rnd_pid r"
  by (induction n) (simp_all add: random_byte_frame)

lemma random_add_frame: "rnd_pid (njs_random_add r key) = rnd_pid r"
proof -
  have "rnd_pid (fold (random_add_step key) ns r) = rnd_pid r" for ns
    by (induction ns arbitrary: r) (simp_all add: random_add_step_def Let_def)
  then show ?thesis by (simp add: njs_random_add_def Let_def)
qed

lemma random_stir_ok:
  assumes "rnd_pid r = 0 \<or> random_perm (rnd_s r)"
  shows "random_perm (rnd_s (njs_random_stir key r pid)) \<and> rnd_count (njs_random_stir key r pid) = 400000 \<and>
    rnd_pid (njs_random_stir key r pid) = pid"
proof -
  let ?r = "(if rnd_pid r = 0 then njs_random_init r pid else r)\<lparr>rnd_pid := pid\<rparr>"
  have "random_perm (rnd_s ?r)" using assms by auto
  then show ?thesis
    by (simp add: njs_random_stir_def Let_def random_perm_bytes random_perm_add random_bytes_frame random_add_frame)
qed

lemma random_unfold:
  "njs_random getpid key r =
     (let pid = (if rnd_pid r \<noteq> -1 then getpid else rnd_pid r);
          r = (if rnd_count r \<le> 1 \<or> pid \<noteq> rnd_pid r
               then njs_random_stir key (r\<lparr>rnd_count := rnd_count r - 1\<rparr>) pid
               else r\<lparr>rnd_count := rnd_count r - 1\<rparr>);
          r1 = snd (njs_random_byte r); r2 = snd (njs_random_byte r1); r3 = snd (njs_random_byte r2)
      in (((push_bit 24 (ucast (fst (njs_random_byte r))) OR push_bit 16 (ucast (fst (njs_random_byte r1))))
            OR push_bit 8 (ucast (fst (njs_random_byte r2)))) OR ucast (fst (njs_random_byte r3)),
          snd (njs_random_byte r3)))"
  by (simp add: njs_random_def Let_def case_prod_beta)

text \<open>
  C31. The generator keeps its state well formed: from zeroed memory or an initialised
  generator, whatever the seeds and process ids, every call of \<open>njs_random\<close> works on a
  permutation of the 256 bytes and leaves one, so all its indices are in range; the counter
  stays positive and a stir happens at the latest after 400000 calls.
\<close>

theorem random_invariant:
  assumes "random_ok r" "getpid \<noteq> 0"
  shows "random_ok (snd (njs_random getpid key r)) \<and> random_perm (rnd_s (snd (njs_random getpid key r))) \<and>
    0 < rnd_count (snd (njs_random getpid key r)) \<and>
    rnd_count (snd (njs_random getpid key r)) =
      (if rnd_count r \<le> 1 \<or> (rnd_pid r \<noteq> -1 \<and> getpid \<noteq> rnd_pid r) then 400000 else rnd_count r - 1)"
proof -
  let ?pid = "if rnd_pid r \<noteq> -1 then getpid else rnd_pid r"
  let ?r = "r\<lparr>rnd_count := rnd_count r - 1\<rparr>"
  let ?b = "\<lambda>r. snd (njs_random_byte r)"
  show ?thesis
  proof (cases "rnd_count r \<le> 1 \<or> ?pid \<noteq> rnd_pid r")
    case True
    let ?s = "njs_random_stir key ?r ?pid"
    have "random_perm (rnd_s ?s)" "rnd_count ?s = 400000"
      using assms random_stir_ok [of ?r key ?pid] by (simp_all add: random_ok_def)
    moreover from this have "random_perm (rnd_s (?b (?b (?b (?b ?s)))))" by blast
    ultimately show ?thesis
      using True by (auto simp: random_unfold Let_def random_ok_def random_byte_frame)
  next
    case False
    then have "rnd_pid r \<noteq> 0" using assms(2) by auto
    with assms have "random_perm (rnd_s ?r)" by (simp add: random_ok_def)
    then have "random_perm (rnd_s (?b (?b (?b (?b ?r)))))" by blast
    with False assms show ?thesis
      by (auto simp: random_unfold Let_def random_ok_def random_byte_frame split: if_splits)
  qed
qed

theorem random_invariant_witness:
  "random_perm (rnd_s (snd (njs_random 42 (replicate 128 7)
     \<lparr>rnd_count = 0, rnd_pid = 0, rnd_i = 0, rnd_j = 0, rnd_s = replicate 256 0\<rparr>)))"
proof -
  have "random_ok \<lparr>rnd_count = 0, rnd_pid = 0, rnd_i = 0, rnd_j = 0, rnd_s = replicate 256 0\<rparr>"
    by (simp add: random_ok_def)
  from random_invariant [OF this, of 42] show ?thesis by simp
qed

section \<open>The output is RC4's\<close>

text \<open>
  The generation step of RC4 the way it is usually given, on a permutation of \<open>0..255\<close> and two
  indices, all natural numbers.
\<close>

type_synonym rc4 = "nat \<times> nat \<times> nat list"

definition rc4_step :: "rc4 \<Rightarrow> nat \<times> rc4" where
  "rc4_step = (\<lambda>(i, j, S).
     let i = (i + 1) mod 256;
         j = (j + S ! i) mod 256;
         S = S[i := S ! j, j := S ! i]
     in (S ! ((S ! i + S ! j) mod 256), i, j, S))"

definition rc4_of :: "njs_random_t \<Rightarrow> rc4" where
  "rc4_of r = (unat (rnd_i r), unat (rnd_j r), map unat (rnd_s r))"

lemma unat_u8_add: "unat (a + b) = (unat a + unat b) mod 256" for a b :: u8
  by (simp add: unat_word_ariths)

lemma random_byte_rc4:
  assumes "random_perm (rnd_s r)"
  shows "rc4_step (rc4_of r) = map_prod unat rc4_of (njs_random_byte r)"
proof -
  have len: "length (rnd_s r) = 256" using assms by (rule random_perm_length)
  let ?i = "rnd_i r + 1"
  let ?j = "rnd_j r + rnd_s r ! unat ?i"
  have i: "(unat (rnd_i r) + 1) mod 256 = unat ?i" by (simp add: unat_u8_add)
  have j: "(unat (rnd_j r) + map unat (rnd_s r) ! unat ?i) mod 256 = unat ?j"
    using len by (simp add: unat_u8_add)
  let ?S = "(rnd_s r)[unat ?i := rnd_s r ! unat ?j, unat ?j := rnd_s r ! unat ?i]"
  have S: "(map unat (rnd_s r))[unat ?i := map unat (rnd_s r) ! unat ?j, unat ?j := map unat (rnd_s r) ! unat ?i] = map unat ?S"
    using len by (simp add: map_update)
  have sum: "?S ! unat ?i + ?S ! unat ?j = rnd_s r ! unat ?i + rnd_s r ! unat ?j"
    using len by (cases "unat ?i = unat ?j") (simp_all add: nth_list_update add.commute)
  have "(map unat ?S ! unat ?i + map unat ?S ! unat ?j) mod 256 = unat (?S ! unat ?i + ?S ! unat ?j)"
    using len by (simp add: unat_u8_add)
  then have "map unat ?S ! ((map unat ?S ! unat ?i + map unat ?S ! unat ?j) mod 256) =
      unat (?S ! unat (rnd_s r ! unat ?i + rnd_s r ! unat ?j))"
    using len by (simp only: sum) simp
  then show ?thesis
    unfolding rc4_of_def rc4_step_def njs_random_byte_def Let_def prod.case i j S
    by simp
qed

text \<open>The bytes of the next \<open>n\<close> calls.\<close>

fun random_bytes :: "nat \<Rightarrow> njs_random_t \<Rightarrow> u8 list" where
  "random_bytes 0 r = []"
| "random_bytes (Suc n) r = (let (b, r) = njs_random_byte r in b # random_bytes n r)"

fun rc4_bytes :: "nat \<Rightarrow> rc4 \<Rightarrow> nat list" where
  "rc4_bytes 0 st = []"
| "rc4_bytes (Suc n) st = (let (b, st) = rc4_step st in b # rc4_bytes n st)"

lemma random_bytes_rc4:
  "random_perm (rnd_s r) \<Longrightarrow> map unat (random_bytes n r) = rc4_bytes n (rc4_of r)"
proof (induction n arbitrary: r)
  case (Suc n)
  obtain b r' where b: "njs_random_byte r = (b, r')" by fastforce
  then have "random_perm (rnd_s r')" using random_perm_byte [OF Suc.prems] by simp
  with b Suc show ?case by (simp add: random_byte_rc4)
qed simp

lemma random_number_bytes:
  assumes "1 < rnd_count r" "rnd_pid r = getpid"
  shows "unat (fst (njs_random getpid key r)) =
    foldl (\<lambda>v b. v * 256 + unat b) 0 (random_bytes 4 (r\<lparr>rnd_count := rnd_count r - 1\<rparr>))"
proof -
  let ?r = "r\<lparr>rnd_count := rnd_count r - 1\<rparr>"
  let ?b = "\<lambda>r. snd (njs_random_byte r)" and ?v = "\<lambda>r. fst (njs_random_byte r)"
  have four: "random_bytes 4 ?r = [?v ?r, ?v (?b ?r), ?v (?b (?b ?r)), ?v (?b (?b (?b ?r)))]"
    by (simp add: numeral_eq_Suc Let_def case_prod_beta)
  have "fst (njs_random getpid key r) = load32 (?v (?b (?b (?b ?r)))) (?v (?b (?b ?r))) (?v (?b ?r)) (?v ?r)"
    using assms by (simp add: random_unfold Let_def load32_def or.assoc or.commute or.left_commute)
  then show ?thesis by (simp add: four unat_load32)
qed

text \<open>
  C32. The bytes the generator delivers between two stirs are the RC4 key stream of its state,
  and a number is four of them, the most significant first.
\<close>

theorem random_is_rc4:
  assumes "random_perm (rnd_s r)" "1 < rnd_count r" "rnd_pid r = getpid"
  shows "map unat (random_bytes n r) = rc4_bytes n (rc4_of r) \<and>
    unat (fst (njs_random getpid key r)) = foldl (\<lambda>v b. v * 256 + b) 0 (rc4_bytes 4 (rc4_of r))"
proof -
  let ?r = "r\<lparr>rnd_count := rnd_count r - 1\<rparr>"
  have "rc4_of ?r = rc4_of r" by (simp add: rc4_of_def)
  then have "rc4_bytes 4 (rc4_of r) = map unat (random_bytes 4 ?r)"
    using random_bytes_rc4 [of ?r 4] assms(1) by simp
  moreover have "foldl (\<lambda>v b. v * 256 + b) 0 (map unat bs) = foldl (\<lambda>v b. v * 256 + unat b) 0 bs" for bs :: "u8 list"
    by (simp add: foldl_map)
  ultimately show ?thesis
    using random_bytes_rc4 [OF assms(1), of n] random_number_bytes [OF assms(2,3), of key] by simp
qed

theorem random_is_rc4_witness:
  "\<exists>r. map unat (random_bytes 3 r) = rc4_bytes 3 (rc4_of r) \<and> rnd_count r = 400000"
proof -
  let ?z = "\<lparr>rnd_count = 0, rnd_pid = 0, rnd_i = 0, rnd_j = 0, rnd_s = []\<rparr>"
  let ?r = "njs_random_stir (replicate 128 7) (njs_random_init ?z 5) 5"
  have "random_perm (rnd_s ?r)" "1 < rnd_count ?r" "rnd_pid ?r = 5"
    and cnt: "rnd_count ?r = 400000"
    using random_stir_ok [of "njs_random_init ?z 5" "replicate 128 7" 5] by simp_all
  then show ?thesis using random_is_rc4 [of ?r 5 3] by blast
qed

end
