(* ===== verification/Njs_Sprintf.thy ===== *)
theory Njs_Sprintf
  imports Njs_Prelude
begin

text \<open>
  The formatted output of \<open>src/src/njs_sprintf.c\<close>. A call writes to a buffer of \<open>room\<close> bytes
  (\<open>end - buf\<close> in the code) and yields the bytes written. The variable arguments are a list;
  a directive that meets an argument of another type, that reads behind a text or behind the
  format itself, has no result (\<open>None\<close>): the C code's behaviour is undefined there. The
  directive \<open>%f\<close> is not modelled, no argument of the list is a \<open>double\<close>.
\<close>

section \<open>The code\<close>

record njs_sprintf_t =
  spf_hex :: "string option"
  spf_width :: nat
  spf_frac_width :: int
  spf_max_width :: bool
  spf_padding :: char

datatype sprintf_arg =
    Arg_int int
  | Arg_len nat
  | Arg_text "bytes option"

abbreviation chr :: "char \<Rightarrow> u8" where
  "chr c \<equiv> of_nat (of_char c)"

abbreviation is_digit :: "char \<Rightarrow> bool" where
  "is_digit c \<equiv> 48 \<le> (of_char c :: nat) \<and> (of_char c :: nat) \<le> 57"

definition NJS_INT64_T_LEN :: nat where
  "NJS_INT64_T_LEN = 20"

definition NJS_INT_T_LEN :: nat where
  "NJS_INT_T_LEN = NJS_INT64_T_LEN"

fun integer_dec :: "nat \<Rightarrow> bytes \<Rightarrow> bytes" where
  "integer_dec ui64 p =
     (let p = of_nat (ui64 mod 10 + 48) # p;
          ui64 = ui64 div 10
      in if ui64 \<noteq> 0 then integer_dec ui64 p else p)"

fun integer_hex :: "string \<Rightarrow> nat \<Rightarrow> bytes \<Rightarrow> bytes" where
  "integer_hex hex ui64 p =
     (let p = chr (hex ! (ui64 mod 16)) # p;
          ui64 = ui64 div 16
      in if ui64 \<noteq> 0 then integer_hex hex ui64 p else p)"

definition njs_integer :: "njs_sprintf_t \<Rightarrow> nat \<Rightarrow> nat \<Rightarrow> bytes" where
  "njs_integer spf room ui64 =
     (let p = (case spf_hex spf of None \<Rightarrow> integer_dec ui64 [] | Some hex \<Rightarrow> integer_hex hex ui64 []);
          padding = (if spf_width spf \<noteq> 0
                     then replicate (min (spf_width spf - length p) room) (chr (spf_padding spf)) else [])
      in padding @ take (room - length padding) p)"

fun sprintf_width :: "nat \<Rightarrow> string \<Rightarrow> nat \<times> string" where
  "sprintf_width width [] = (width, [])"
| "sprintf_width width (c # fmt) =
     (if is_digit c then sprintf_width ((width * 10 + (of_char c - 48)) mod 2 ^ 32) fmt else (width, c # fmt))"

fun sprintf_frac :: "int \<Rightarrow> string \<Rightarrow> int \<times> string" where
  "sprintf_frac width [] = (width, [])"
| "sprintf_frac width (c # fmt) =
     (if is_digit c then sprintf_frac (width * 10 + (of_char c - 48)) fmt else (width, c # fmt))"

fun sprintf_flags :: "njs_sprintf_t \<Rightarrow> bool \<Rightarrow> string \<Rightarrow> njs_sprintf_t \<times> bool \<times> string" where
  "sprintf_flags spf sign [] = (spf, sign, [])"
| "sprintf_flags spf sign (c # fmt) =
     (if c = CHR ''u'' then sprintf_flags spf False fmt
      else if c = CHR ''m'' then sprintf_flags (spf\<lparr>spf_max_width := True\<rparr>) sign fmt
      else if c = CHR ''X'' then sprintf_flags (spf\<lparr>spf_hex := Some ''0123456789ABCDEF''\<rparr>) False fmt
      else if c = CHR ''x'' then sprintf_flags (spf\<lparr>spf_hex := Some ''0123456789abcdef''\<rparr>) False fmt
      else if c = CHR ''.'' then
        (let (frac, fmt) = sprintf_frac 0 fmt in (spf\<lparr>spf_frac_width := frac\<rparr>, sign, fmt))
      else (spf, sign, c # fmt))"

text \<open>What a directive writes, with the rest of the format and of the arguments.\<close>

type_synonym directive = "(bytes \<times> string \<times> sprintf_arg list) option"

definition sprintf_copy :: "nat \<Rightarrow> nat \<Rightarrow> bytes \<Rightarrow> string \<Rightarrow> sprintf_arg list \<Rightarrow> directive" where
  "sprintf_copy room len p fmt args =
     (let size = min room len in if size \<le> length p then Some (take size p, fmt, args) else None)"

fun sprintf_number :: "njs_sprintf_t \<Rightarrow> bool \<Rightarrow> nat \<Rightarrow> string \<Rightarrow> sprintf_arg list \<Rightarrow> directive" where
  "sprintf_number spf sign room fmt (Arg_int i64 # args) =
     (if sign \<and> i64 < 0
      then Some (0x2D # njs_integer spf (room - 1) (nat (- i64)), fmt, args)
      else Some (njs_integer spf room (nat i64), fmt, args))"
| "sprintf_number spf sign room fmt args = None"

definition sprintf_conversion :: "njs_sprintf_t \<Rightarrow> bool \<Rightarrow> nat \<Rightarrow> string \<Rightarrow> sprintf_arg list \<Rightarrow> directive" where
  "sprintf_conversion spf sign room fmt args =
     (case fmt of
        [] \<Rightarrow> None
      | c # fmt \<Rightarrow>
          if c = CHR ''O'' \<or> c = CHR ''T'' then sprintf_number spf True room fmt args
          else if c = CHR ''z'' \<or> c = CHR ''d'' \<or> c = CHR ''l'' \<or> c = CHR ''D'' \<or> c = CHR ''L'' then
            sprintf_number spf sign room fmt args
          else if c = CHR ''i'' then
            sprintf_number (if spf_max_width spf then spf\<lparr>spf_width := NJS_INT_T_LEN\<rparr> else spf) sign room fmt args
          else if c = CHR ''b'' then sprintf_number spf False room fmt args
          else if c = CHR ''f'' then None
          else if c = CHR ''p'' then
            sprintf_number (spf\<lparr>spf_hex := Some ''0123456789ABCDEF''\<rparr>) False room fmt args
          else if c = CHR ''c'' then
            (case args of Arg_int d # args \<Rightarrow> Some ([of_int d], fmt, args) | _ \<Rightarrow> None)
          else if c = CHR ''Z'' then Some ([0], fmt, args)
          else if c = CHR ''n'' then Some ([10], fmt, args)
          else if c = CHR ''%'' then Some ([0x25], fmt, args)
          else Some ([chr c], fmt, args))"

definition sprintf_directive :: "nat \<Rightarrow> string \<Rightarrow> sprintf_arg list \<Rightarrow> directive" where
  "sprintf_directive room fmt args =
     (case fmt of
        [] \<Rightarrow> None
      | c # rest \<Rightarrow>
          if c = CHR ''V'' then
            (case args of
               Arg_text (Some v) # args \<Rightarrow> sprintf_copy room (length v) v rest args
             | Arg_text None # args \<Rightarrow> Some ([], rest, args)
             | _ \<Rightarrow> None)
          else if c = CHR ''s'' then
            (case args of
               Arg_text (Some p) # args \<Rightarrow>
                 if 0 \<in> set p \<or> room < length p then Some (take room (takeWhile (\<lambda>b. b \<noteq> 0) p), rest, args) else None
             | Arg_text None # args \<Rightarrow> Some ([], rest, args)
             | _ \<Rightarrow> None)
          else if c = CHR ''*'' then
            (case args of
               Arg_len len # args \<Rightarrow>
                 (case rest of
                    d # rest' \<Rightarrow>
                      if d = CHR ''s'' then
                        (case args of
                           Arg_text (Some p) # args \<Rightarrow> sprintf_copy room len p rest' args
                         | Arg_text None # args \<Rightarrow> Some ([], rest', args)
                         | _ \<Rightarrow> None)
                      else Some ([], rest, args)
                  | [] \<Rightarrow> Some ([], rest, args))
             | _ \<Rightarrow> None)
          else
            (let padding = (if c = CHR ''0'' then CHR ''0'' else CHR '' '');
                 (width, fmt) = sprintf_width 0 fmt;
                 (spf, sign, fmt) = sprintf_flags \<lparr>spf_hex = None, spf_width = width, spf_frac_width = -1,
                                                  spf_max_width = False, spf_padding = padding\<rparr> True fmt
             in sprintf_conversion spf sign room fmt args))"

subsection \<open>The main loop\<close>

lemma sprintf_width_length: "length (snd (sprintf_width w fmt)) \<le> length fmt"
  by (induction w fmt rule: sprintf_width.induct) auto

lemma sprintf_frac_length: "length (snd (sprintf_frac w fmt)) \<le> length fmt"
  by (induction w fmt rule: sprintf_frac.induct) auto

lemma sprintf_flags_length: "length (snd (snd (sprintf_flags spf sign fmt))) \<le> length fmt"
proof (induction spf sign fmt rule: sprintf_flags.induct)
  case (2 spf sign c fmt)
  have "length (snd (sprintf_frac 0 fmt)) \<le> Suc (length fmt)"
    using sprintf_frac_length [of 0 fmt] by simp
  with 2 show ?case by (simp add: case_prod_beta le_SucI)
qed simp

text \<open>A directive leaves a rest of the format of at most \<open>n\<close> characters.\<close>

definition leaves :: "nat \<Rightarrow> directive \<Rightarrow> bool" where
  "leaves n d \<longleftrightarrow> (\<forall>out f a. d = Some (out, f, a) \<longrightarrow> length f \<le> n)"

named_theorems leaves_intros "directives that leave a short rest"

lemma leaves_cases [leaves_intros]:
  "leaves n d \<Longrightarrow> leaves n e \<Longrightarrow> leaves n (if b then d else e)"
  "(\<And>i. leaves n (I i)) \<Longrightarrow> (\<And>m. leaves n (N m)) \<Longrightarrow> (\<And>t. leaves n (T t)) \<Longrightarrow>
     leaves n (case arg of Arg_int i \<Rightarrow> I i | Arg_len m \<Rightarrow> N m | Arg_text t \<Rightarrow> T t)"
  "leaves n d \<Longrightarrow> (\<And>t. leaves n (S t)) \<Longrightarrow> leaves n (case p of None \<Rightarrow> d | Some t \<Rightarrow> S t)"
  "leaves n d \<Longrightarrow> (\<And>x xs. leaves n (H x xs)) \<Longrightarrow> leaves n (case args of [] \<Rightarrow> d | x # xs \<Rightarrow> H x xs)"
  for args :: "sprintf_arg list" and p :: "bytes option"
     apply (cases b; simp)
    apply (cases arg; simp)
   apply (cases p; simp)
  apply (cases args; simp)
  done

lemma leaves_rest [leaves_intros]:
  "leaves n d \<Longrightarrow> (\<And>x xs. length xs \<le> n \<Longrightarrow> leaves n (H x xs)) \<Longrightarrow> length fmt \<le> n \<Longrightarrow>
    leaves n (case fmt of [] \<Rightarrow> d | x # xs \<Rightarrow> H x xs)" for fmt :: string
  by (cases fmt) simp_all

lemma leaves_values [leaves_intros]:
  "leaves n None" "length f \<le> n \<Longrightarrow> leaves n (Some (out, f, a))"
  "length f \<le> n \<Longrightarrow> leaves n (sprintf_copy room len p f a)"
  by (simp_all add: leaves_def sprintf_copy_def Let_def)

lemma leaves_number [leaves_intros]: "length f \<le> n \<Longrightarrow> leaves n (sprintf_number spf sign room f args)"
  by (cases "(spf, sign, room, f, args)" rule: sprintf_number.cases) (simp_all add: leaves_def)

lemma leaves_conversion: "length fmt \<le> Suc n \<Longrightarrow> leaves n (sprintf_conversion spf sign room fmt args)"
  unfolding sprintf_conversion_def by (cases fmt) (auto intro!: leaves_intros)

lemma leaves_directive: "leaves (length fmt - 1) (sprintf_directive room fmt args)"
proof (cases fmt)
  case (Cons c rest)
  let ?spf = "\<lparr>spf_hex = None, spf_width = fst (sprintf_width 0 fmt), spf_frac_width = -1,
    spf_max_width = False, spf_padding = (if c = CHR ''0'' then CHR ''0'' else CHR '' '')\<rparr>"
  have "length (snd (snd (sprintf_flags ?spf True (snd (sprintf_width 0 fmt))))) \<le> Suc (length rest)"
    using sprintf_flags_length [of ?spf True "snd (sprintf_width 0 fmt)"] sprintf_width_length [of 0 fmt] Cons by simp
  then have "leaves (length rest) (case sprintf_width 0 fmt of (width, fmt) \<Rightarrow>
      case sprintf_flags ?spf True fmt of (spf, sign, fmt) \<Rightarrow> sprintf_conversion spf sign room fmt args)"
    by (simp add: case_prod_beta leaves_conversion del: sprintf_width.simps)
  then show ?thesis
    unfolding sprintf_directive_def Let_def Cons list.case case_prod_beta
    by (auto intro!: leaves_intros simp del: sprintf_width.simps)
qed (simp add: sprintf_directive_def leaves_def)

lemma sprintf_directive_length:
  "sprintf_directive room fmt args = Some (out, f, a) \<Longrightarrow> length f < length fmt"
  using leaves_directive [of fmt room args] by (cases fmt) (simp_all add: leaves_def sprintf_directive_def)

function (sequential) njs_vsprintf :: "nat \<Rightarrow> string \<Rightarrow> sprintf_arg list \<Rightarrow> bytes option" where
  "njs_vsprintf room [] args = Some []"
| "njs_vsprintf room (c # fmt) args =
     (if room = 0 then Some []
      else if c \<noteq> CHR ''%'' then map_option ((#) (chr c)) (njs_vsprintf (room - 1) fmt args)
      else case sprintf_directive room fmt args of
             None \<Rightarrow> None
           | Some (out, fmt', args') \<Rightarrow> map_option ((@) out) (njs_vsprintf (room - length out) fmt' args'))"
  by pat_completeness auto
termination
  by (relation "measure (\<lambda>(room, fmt, args). length fmt)")
    (auto dest: sprintf_directive_length)

definition njs_sprintf :: "nat \<Rightarrow> string \<Rightarrow> sprintf_arg list \<Rightarrow> bytes option" where
  "njs_sprintf = njs_vsprintf"

section \<open>The output stays within the buffer\<close>

declare integer_dec.simps [simp del] integer_hex.simps [simp del]

lemma njs_integer_take:
  "room' \<le> room \<Longrightarrow> njs_integer spf room' n = take room' (njs_integer spf room n)"
  by (auto simp: njs_integer_def Let_def min_def)

lemma length_njs_integer: "length (njs_integer spf room n) \<le> room"
  by (auto simp: njs_integer_def Let_def)

text \<open>
  A writer is cut when, given less room (but some), it writes a prefix of the same and goes on
  with the same rest. Every directive is cut, which follows from the shape of the code.
\<close>

definition cut :: "(nat \<Rightarrow> directive) \<Rightarrow> bool" where
  "cut F \<longleftrightarrow> (\<forall>room room' out f a. F room = Some (out, f, a) \<longrightarrow> room' \<le> room \<longrightarrow> 0 < room' \<longrightarrow>
     length out \<le> room \<and> F room' = Some (take room' out, f, a))"

named_theorems cut_intros "writers that are cut"

lemma cut_cases [cut_intros]:
  "cut F \<Longrightarrow> cut G \<Longrightarrow> cut (\<lambda>room. if b then F room else G room)"
  "cut F \<Longrightarrow> (\<And>x xs. cut (H x xs)) \<Longrightarrow> cut (\<lambda>room. case ys of [] \<Rightarrow> F room | x # xs \<Rightarrow> H x xs room)"
  "(\<And>i. cut (I i)) \<Longrightarrow> (\<And>n. cut (N n)) \<Longrightarrow> (\<And>t. cut (T t)) \<Longrightarrow>
     cut (\<lambda>room. case arg of Arg_int i \<Rightarrow> I i room | Arg_len n \<Rightarrow> N n room | Arg_text t \<Rightarrow> T t room)"
  "cut F \<Longrightarrow> (\<And>t. cut (S t)) \<Longrightarrow> cut (\<lambda>room. case p of None \<Rightarrow> F room | Some t \<Rightarrow> S t room)"
  for ys :: "'a list" and p :: "'b option"
     apply (cases b; simp)
    apply (cases ys; simp)
   apply (cases arg; simp)
  apply (cases p; simp)
  done

lemma cut_values [cut_intros]:
  "cut (\<lambda>room. None)" "cut (\<lambda>room. Some ([], f, a))" "cut (\<lambda>room. Some ([b], f, a))"
  by (auto simp: cut_def Suc_le_eq take_Cons split: nat.splits)

lemma cut_copy [cut_intros]: "cut (\<lambda>room. sprintf_copy room len p f a)"
  by (auto simp: cut_def sprintf_copy_def Let_def min_def split: if_splits)

lemma cut_text [cut_intros]:
  "cut (\<lambda>room. if 0 \<in> set p \<or> room < length p then Some (take room (takeWhile (\<lambda>b. b \<noteq> 0) p), f, a) else None)"
  by (auto simp: cut_def split: if_splits)

lemma cut_number [cut_intros]: "cut (\<lambda>room. sprintf_number spf sign room f args)"
proof -
  have minus: "x # njs_integer spf (room' - Suc 0) n = take room' (x # njs_integer spf (room - Suc 0) n)"
    if "0 < room'" "room' \<le> room" for x n room room'
    using that njs_integer_take [of "room' - 1" "room - 1" spf n] by (cases room') simp_all
  have len: "length (njs_integer spf (room - Suc 0) n) < room" if "0 < room'" "room' \<le> room" for n room room'
    using that length_njs_integer [of spf "room - 1" n] by simp
  show ?thesis
    unfolding cut_def
    by (cases "(spf, sign, 0 :: nat, f, args)" rule: sprintf_number.cases)
      (auto simp: minus njs_integer_take length_njs_integer len Suc_le_eq split: if_splits)
qed

lemma cut_conversion [cut_intros]: "cut (\<lambda>room. sprintf_conversion spf sign room fmt args)"
  unfolding sprintf_conversion_def by (intro cut_intros)

lemma cut_directive: "cut (\<lambda>room. sprintf_directive room fmt args)"
  unfolding sprintf_directive_def Let_def case_prod_beta by (intro cut_intros)

lemma vsprintf_zero [simp]: "njs_vsprintf 0 fmt args = Some []"
  by (cases fmt) simp_all

lemma vsprintf_take:
  "njs_vsprintf room fmt args = Some out \<Longrightarrow> room' \<le> room \<Longrightarrow>
    length out \<le> room \<and> njs_vsprintf room' fmt args = Some (take room' out)"
proof (induction room fmt args arbitrary: out room' rule: njs_vsprintf.induct)
  case (2 room c fmt args)
  consider "room = 0" | "room \<noteq> 0" "c \<noteq> CHR ''%''" | "room \<noteq> 0" "c = CHR ''%''" by blast
  then show ?case
  proof cases
    case 2
    with "2.prems" obtain out' where out': "njs_vsprintf (room - 1) fmt args = Some out'" "out = chr c # out'"
      by auto
    then show ?thesis
      using 2 "2.IH"(1) [of out' "room' - 1"] "2.prems" by (cases room; cases room') auto
  next
    case 3
    with "2.prems" obtain o1 f a out' where
      o1: "sprintf_directive room fmt args = Some (o1, f, a)"
        "njs_vsprintf (room - length o1) f a = Some out'" "out = o1 @ out'"
      by (auto split: option.splits)
    then have IH: "\<And>r. r \<le> room - length o1 \<Longrightarrow>
        length out' \<le> room - length o1 \<and> njs_vsprintf r f a = Some (take r out')"
      using 3 "2.IH"(2) by simp
    have len: "length o1 \<le> room"
      using o1(1) cut_directive [of fmt args] 3(1) unfolding cut_def by blast
    show ?thesis
    proof (cases "room' = 0")
      case False
      then have "sprintf_directive room' fmt args = Some (take room' o1, f, a)"
        using o1(1) cut_directive [of fmt args] "2.prems"(2) unfolding cut_def by blast
      then show ?thesis
        using 3 False o1(3) len IH [OF diff_le_mono [OF "2.prems"(2)]] "2.prems"(2) by (auto simp: min_def)
    qed (use len IH [of 0] o1(3) in auto)
  qed (use "2.prems" in simp)
qed simp

text \<open>
  C33. Formatted output never passes the end of its buffer, and what a smaller buffer receives
  is the beginning of what a larger one receives.
\<close>

theorem sprintf_truncates:
  assumes "njs_sprintf room fmt args = Some out" "room' \<le> room"
  shows "length out \<le> room \<and> njs_sprintf room' fmt args = Some (take room' out)"
  using assms vsprintf_take unfolding njs_sprintf_def by blast

section \<open>Numbers\<close>

text \<open>The decimal digits of a number in a field of fixed width.\<close>

fun fixed_digits :: "nat \<Rightarrow> nat \<Rightarrow> bytes" where
  "fixed_digits 0 n = []"
| "fixed_digits (Suc w) n = fixed_digits w (n div 10) @ [of_nat (48 + n mod 10)]"

lemma length_fixed_digits [simp]: "length (fixed_digits w n) = w"
  by (induction w n rule: fixed_digits.induct) simp_all

lemma integer_dec_acc: "integer_dec n p = integer_dec n [] @ p"
proof (induction n arbitrary: p rule: less_induct)
  case (less n)
  show ?case
  proof (cases "n < 10")
    case False
    let ?d = "of_nat (n mod 10 + 48)"
    have "integer_dec (n div 10) (?d # p) = integer_dec (n div 10) [?d] @ p"
      using False less [of "n div 10" "?d # p"] less [of "n div 10" "[?d]"] by simp
    then show ?thesis by (simp add: integer_dec.simps [of n] Let_def)
  qed (simp add: integer_dec.simps [of n] Let_def)
qed

lemma integer_dec_digits:
  "integer_dec n [] = (if n < 10 then [] else integer_dec (n div 10) []) @ [of_nat (48 + n mod 10)]"
proof -
  have "integer_dec n [] = (if n < 10 then [] else integer_dec (n div 10) []) @ [of_nat (n mod 10 + 48)]"
    using integer_dec_acc [of "n div 10" "[of_nat (n mod 10 + 48)]"]
    by (auto simp: integer_dec.simps [of n] Let_def)
  then show ?thesis by (simp only: add.commute)
qed

lemma replicate_zero_digits: "replicate w 48 = fixed_digits w 0"
proof (induction w)
  case (Suc w)
  have "replicate (Suc w) 48 = replicate w (48 :: u8) @ [48]" by (simp add: replicate_append_same)
  also have "\<dots> = fixed_digits (Suc w) 0" using Suc by simp
  finally show ?case .
qed simp

lemma fixed_digits_pad:
  "n < 10 ^ w \<Longrightarrow> 0 < w \<Longrightarrow>
    length (integer_dec n []) \<le> w \<and> replicate (w - length (integer_dec n [])) 48 @ integer_dec n [] = fixed_digits w n"
proof (induction w arbitrary: n)
  case (Suc w)
  show ?case
  proof (cases "n < 10")
    case True
    then show ?thesis by (subst (1 2 3) integer_dec_digits) (simp add: replicate_zero_digits)
  next
    case False
    with Suc have "n div 10 < 10 ^ w" "0 < w" by (auto simp: less_mult_imp_div_less intro: Nat.gr0I)
    with Suc.IH [of "n div 10"] False show ?thesis
      by (subst (1 2 3) integer_dec_digits) simp
  qed
qed simp

lemma njs_integer_fixed:
  assumes "spf_hex spf = None" "spf_padding spf = CHR ''0''" "n < 10 ^ spf_width spf" "0 < spf_width spf"
  shows "njs_integer spf room n = take room (fixed_digits (spf_width spf) n)"
proof -
  have "njs_integer spf room n =
      take room (replicate (spf_width spf - length (integer_dec n [])) 48 @ integer_dec n [])"
    using assms by (auto simp: njs_integer_def Let_def min_def)
  then show ?thesis using fixed_digits_pad [OF assms(3,4)] by simp
qed

text \<open>A directive with a field width of one digit, padded with zeros.\<close>

definition zero_padded :: "nat \<Rightarrow> njs_sprintf_t" where
  "zero_padded w = \<lparr>spf_hex = None, spf_width = w, spf_frac_width = -1, spf_max_width = False, spf_padding = CHR ''0''\<rparr>"

lemma sprintf_directive_zero:
  assumes "is_digit k" "k \<noteq> CHR ''0''" "c = CHR ''d'' \<or> c = CHR ''L''"
  shows "0 < (of_char k - 48 :: nat) \<and> sprintf_directive room (CHR ''0'' # k # c # fmt) args =
    sprintf_number (zero_padded (of_char k - 48)) True room fmt args"
proof -
  let ?w = "of_char k - 48 :: nat"
  have "?w \<le> 9" using assms(1) by linarith
  then have "?w mod 2 ^ 32 = ?w" by (intro mod_less) (simp add: order.strict_trans1)
  then have 1: "sprintf_width 0 (CHR ''0'' # k # c # fmt) = (?w, c # fmt)"
    using assms(1,3) by auto
  have 2: "sprintf_flags (zero_padded ?w) True (c # fmt) = (zero_padded ?w, True, c # fmt)"
    using assms(3) by auto
  have "(of_char k :: nat) \<noteq> of_char CHR ''0''" using assms(2) by (simp only: of_char_eq_iff not_False_eq_True)
  then have "0 < ?w" using assms(1) by simp
  then show ?thesis
    using assms(3) 2 unfolding sprintf_directive_def Let_def zero_padded_def
    by (auto simp: 1 sprintf_conversion_def simp del: sprintf_width.simps)
qed

lemma sprintf_directive_fixed:
  assumes "is_digit k" "k \<noteq> CHR ''0''" "c = CHR ''d'' \<or> c = CHR ''L''" "\<bar>v\<bar> < 10 ^ (of_char k - 48)"
  shows "sprintf_directive room (CHR ''0'' # k # c # fmt) (Arg_int v # args) =
    Some (if v < 0 then 0x2D # take (room - 1) (fixed_digits (of_char k - 48) (nat \<bar>v\<bar>))
          else take room (fixed_digits (of_char k - 48) (nat \<bar>v\<bar>)), fmt, args)"
proof -
  let ?w = "of_char k - 48 :: nat"
  note z = sprintf_directive_zero [OF assms(1-3), of room fmt "Arg_int v # args"]
  have "njs_integer (zero_padded ?w) r (nat \<bar>v\<bar>) = take r (fixed_digits ?w (nat \<bar>v\<bar>))" for r
    using z assms(4) njs_integer_fixed [of "zero_padded ?w" "nat \<bar>v\<bar>" r]
    by (simp add: zero_padded_def nat_less_iff)
  then show ?thesis using z by (cases "v < 0") simp_all
qed

lemma sprintf_directive_text:
  assumes "0 \<notin> set p" "room \<ge> length p"
  shows "sprintf_directive room (CHR ''s'' # fmt) (Arg_text (Some (p @ [0])) # args) = Some (p, fmt, args)"
proof -
  have "takeWhile (\<lambda>b. b \<noteq> 0) (p @ [0]) = p" using assms(1) by (induction p) auto
  then show ?thesis using assms by (simp add: sprintf_directive_def)
qed

lemma sprintf_directive_char:
  "sprintf_directive room (CHR ''c'' # fmt) (Arg_int d # args) = Some ([of_int d], fmt, args)"
  by (simp add: sprintf_directive_def sprintf_conversion_def)

definition dec_value :: "bytes \<Rightarrow> nat" where
  "dec_value = foldl (\<lambda>v b. v * 10 + (unat b - 48)) 0"

lemma unat_digit [simp]: "unat (of_nat (48 + n mod 10) :: u8) = 48 + n mod 10"
proof -
  have "48 + n mod 10 < 2 ^ 8" using mod_less_divisor [of 10 n] by simp
  then show ?thesis by (simp add: unsigned_of_nat take_bit_nat_eq_self del: of_nat_add)
qed

lemma dec_value_fixed: "dec_value (fixed_digits w n) = n mod 10 ^ w"
  by (induction w n rule: fixed_digits.induct)
    (simp_all add: dec_value_def mod_mult2_eq del: of_nat_add)

lemma dec_value_digits:
  "dec_value (integer_dec n []) = n \<and> integer_dec n [] \<noteq> [] \<and> (\<forall>b \<in> set (integer_dec n []). 48 \<le> unat b \<and> unat b \<le> 57) \<and>
    (n \<noteq> 0 \<longrightarrow> unat (hd (integer_dec n [])) \<noteq> 48)"
proof (induction n rule: less_induct)
  case (less n)
  show ?case
  proof (cases "n < 10")
    case True
    then have "integer_dec n [] = [of_nat (48 + n mod 10)]" by (simp add: integer_dec_digits [of n])
    with True unat_digit [of n] show ?thesis by (simp add: dec_value_def del: of_nat_add)
  next
    case False
    then have "integer_dec n [] = integer_dec (n div 10) [] @ [of_nat (48 + n mod 10)]"
      by (simp add: integer_dec_digits [of n])
    with False less [of "n div 10"] show ?thesis
      by (auto simp: dec_value_def hd_append simp del: of_nat_add)
  qed
qed

text \<open>
  An integer of 64 bits is written with \<open>%L\<close> in decimal: a minus sign for a negative
  number, then at least one digit, no leading zero, digits whose value is the magnitude. There
  are at most 20 digits, so the temporary buffer of \<open>njs_integer\<close> is never exceeded.
\<close>

theorem sprintf_integer:
  assumes "\<bar>v\<bar> < 2 ^ 64" "21 \<le> room"
  shows "\<exists>ds. njs_sprintf room ''%L'' [Arg_int v] = Some ((if v < 0 then [0x2D] else []) @ ds) \<and>
    dec_value ds = nat \<bar>v\<bar> \<and> ds \<noteq> [] \<and> (\<forall>b \<in> set ds. 48 \<le> unat b \<and> unat b \<le> 57) \<and>
    (v \<noteq> 0 \<longrightarrow> unat (hd ds) \<noteq> 48) \<and> length ds \<le> NJS_INT64_T_LEN"
proof -
  let ?ds = "integer_dec (nat \<bar>v\<bar>) []"
  let ?spf = "\<lparr>spf_hex = None, spf_width = 0, spf_frac_width = -1, spf_max_width = False, spf_padding = CHR '' ''\<rparr>"
  have "nat \<bar>v\<bar> < 10 ^ 20" using assms(1) by simp
  then have len: "length ?ds \<le> 20" using fixed_digits_pad [of "nat \<bar>v\<bar>" 20] by simp
  then have int: "njs_integer ?spf r (nat \<bar>v\<bar>) = ?ds" if "20 \<le> r" for r
    using that by (simp add: njs_integer_def Let_def)
  have r: "20 \<le> room - 1" using assms(2) by simp
  have "sprintf_number ?spf True room [] [Arg_int v] = Some ((if v < 0 then [0x2D] else []) @ ?ds, [], [])"
    using int [of room] int [of "room - 1"] r assms(2) by (cases "v < 0") simp_all
  then have "sprintf_directive room ''L'' [Arg_int v] = Some ((if v < 0 then [0x2D] else []) @ ?ds, [], [])"
    by (simp add: sprintf_directive_def sprintf_conversion_def)
  then have "njs_sprintf room ''%L'' [Arg_int v] = Some ((if v < 0 then [0x2D] else []) @ ?ds)"
    using assms(2) by (simp add: njs_sprintf_def)
  then show ?thesis
    using dec_value_digits [of "nat \<bar>v\<bar>"] len by (auto simp: NJS_INT64_T_LEN_def)
qed

theorem sprintf_integer_witness:
  "\<exists>ds. njs_sprintf 42 ''%L'' [Arg_int (-9223372036854775808)] = Some (0x2D # ds) \<and> dec_value ds = 9223372036854775808"
  using sprintf_integer [of "-9223372036854775808" 42] by auto

theorem sprintf_truncates_witness:
  "njs_sprintf 5 ''%03L-%s'' [Arg_int 7, Arg_text (Some [0x61, 0x62, 0])] = Some [48, 48, 55, 0x2D, 0x61]"
proof -
  have "njs_sprintf 9 ''%03L-%s'' [Arg_int 7, Arg_text (Some [0x61, 0x62, 0])] = Some [48, 48, 55, 0x2D, 0x61, 0x62]"
    using sprintf_directive_fixed [of "CHR ''3''" "CHR ''L''" 7] sprintf_directive_text [of "[0x61, 0x62]" 5]
    by (simp add: njs_sprintf_def numeral_3_eq_3)
  from sprintf_truncates [OF this, of 5] show ?thesis by simp
qed

end
