(* ===== verification/Njs_Date.thy ===== *)
theory Njs_Date
  imports Complex_Main Njs_Sprintf
begin

text \<open>
  The \<open>Date\<close> object (\<open>src/src/njs_date.c\<close>): the civil calendar on integers, and the
  composition, access and update of the fields of a time. The texts are in \<open>Njs_Date_Text\<close>.

  A time value is an \<^typ>\<open>int option\<close>, milliseconds since the epoch or \<open>None\<close> for NaN. The
  local time zone is a parameter \<open>tz\<close>, the result of \<open>njs_tz_offset\<close> for a time, in minutes west
  of Greenwich; the clock is an argument. An argument of a method stands for the outcome of its
  conversion to a number, an exception or a number.
\<close>

section \<open>Numbers and division of C\<close>

datatype number = NaN | Infinity | Neg_infinity | Finite rat

text \<open>Conversion of a finite \<open>double\<close> to an integer, also \<open>trunc\<close>.\<close>

definition trunc :: "rat \<Rightarrow> int" where
  "trunc x = (if x < 0 then - \<lfloor>- x\<rfloor> else \<lfloor>x\<rfloor>)"

definition njs_mod :: "int \<Rightarrow> int \<Rightarrow> int" where
  "njs_mod a b = (let m = a smod b in m + of_bool (m < 0) * b)"

definition njs_floor_div :: "int \<Rightarrow> int \<Rightarrow> int" where
  "njs_floor_div a b = (let m = a smod b in (a - (m + of_bool (m < 0) * b)) sdiv b)"

section \<open>The calendar\<close>

type_synonym time = "int option"
type_synonym tm = "int list"

definition NJS_DATE_MAX_FIELDS :: nat where "NJS_DATE_MAX_FIELDS = 8"
definition NJS_DATE_WDAY :: nat where "NJS_DATE_WDAY = 0"
definition NJS_DATE_YR :: nat where "NJS_DATE_YR = 1"
definition NJS_DATE_MON :: nat where "NJS_DATE_MON = 2"
definition NJS_DATE_DAY :: nat where "NJS_DATE_DAY = 3"
definition NJS_DATE_HR :: nat where "NJS_DATE_HR = 4"
definition NJS_DATE_MIN :: nat where "NJS_DATE_MIN = 5"
definition NJS_DATE_SEC :: nat where "NJS_DATE_SEC = 6"
definition NJS_DATE_MSEC :: nat where "NJS_DATE_MSEC = 7"

lemmas date_fields = NJS_DATE_MAX_FIELDS_def NJS_DATE_WDAY_def NJS_DATE_YR_def NJS_DATE_MON_def
  NJS_DATE_DAY_def NJS_DATE_HR_def NJS_DATE_MIN_def NJS_DATE_SEC_def NJS_DATE_MSEC_def

definition njs_timeclip :: "number \<Rightarrow> time" where
  "njs_timeclip time =
     (case time of
        Finite x \<Rightarrow> if x < -8640000000000000 \<or> x > 8640000000000000 then None else Some (trunc x)
      | _ \<Rightarrow> None)"

definition njs_days_in_year :: "int \<Rightarrow> int" where
  "njs_days_in_year y = 365 + of_bool (y smod 4 = 0) - of_bool (y smod 100 = 0) + of_bool (y smod 400 = 0)"

definition njs_days_from_year :: "int \<Rightarrow> int" where
  "njs_days_from_year y =
     365 * (y - 1970) + njs_floor_div (y - 1969) 4
       - njs_floor_div (y - 1901) 100 + njs_floor_div (y - 1601) 400"

definition month_days :: "int list" where
  "month_days = [31, 28, 31, 30, 31, 30, 31, 31, 30, 31, 30, 31]"

text \<open>The length of month \<open>i\<close>, the body of both month loops.\<close>

definition days_in_month :: "int \<Rightarrow> nat \<Rightarrow> int" where
  "days_in_month y i =
     (let md = month_days ! i in if i = 1 then md + (njs_days_in_year y - 365) else md)"

definition njs_make_day :: "int \<Rightarrow> int \<Rightarrow> int \<Rightarrow> int" where
  "njs_make_day yr month date =
     (let mn = njs_mod month 12;
          ym = yr + (month - mn) sdiv 12;
          days = fold (\<lambda>i days. days + days_in_month ym i) [0..<nat mn] (njs_days_from_year ym)
      in days + date - 1)"

text \<open>\<open>gmtoff\<close>: the seconds east of Greenwich that \<open>localtime\<close> reports for a time in seconds.\<close>

definition njs_tz_offset :: "(int \<Rightarrow> int) \<Rightarrow> int \<Rightarrow> int" where
  "njs_tz_offset gmtoff time = (- gmtoff (time sdiv 1000)) sdiv 60"

subsection \<open>Division\<close>

lemma njs_mod_eq [simp]: "0 < b \<Longrightarrow> njs_mod a b = a mod b"
proof -
  assume b: "0 < b"
  have "a smod b = (if 0 \<le> a then a mod b else - ((- a) mod b))"
    using b by (simp add: signed_modulo_int_def sgn_if)
  moreover have "(- a) mod b = (if a mod b = 0 then 0 else b - a mod b)"
    by (simp add: zmod_zminus1_eq_if)
  ultimately show ?thesis
    using b pos_mod_bound [OF b, of a] pos_mod_sign [OF b, of a] by (auto simp: njs_mod_def Let_def)
qed

lemma sdiv_nonneg [simp]: "0 \<le> a \<Longrightarrow> 0 \<le> b \<Longrightarrow> a sdiv b = a div b" for a b :: int
  by (auto simp: signed_divide_int_def sgn_if)

lemma smod_nonneg [simp]: "0 \<le> a \<Longrightarrow> 0 \<le> b \<Longrightarrow> a smod b = a mod b" for a b :: int
  by (auto simp: signed_modulo_int_def sgn_if)

lemma sdiv_exact: "0 < b \<Longrightarrow> (k * b) sdiv b = k" for b k :: int
  by (simp add: signed_divide_int_def sgn_mult abs_mult sgn_mult_abs)

lemma njs_floor_div_eq [simp]: "0 < b \<Longrightarrow> njs_floor_div a b = a div b"
proof -
  assume b: "0 < b"
  have "njs_floor_div a b = (a - njs_mod a b) sdiv b"
    by (simp add: njs_floor_div_def njs_mod_def Let_def)
  also have "a - njs_mod a b = (a div b) * b"
    using b by (simp add: minus_mod_eq_div_mult)
  finally show ?thesis using sdiv_exact [OF b] by simp
qed

lemma smod_zero_iff: "0 < b \<Longrightarrow> y smod b = 0 \<longleftrightarrow> b dvd y" for y b :: int
  by (auto simp: signed_modulo_int_def sgn_0_0 mod_eq_0_iff_dvd)

subsection \<open>The year loop\<close>

lemma div_pred: "0 < b \<Longrightarrow> y div b = (y - 1) div b + of_bool (b dvd y)" for y b :: int
proof -
  assume b: "0 < b"
  have "y = b * (y div b) + y mod b" by simp
  then have "(y - 1) div b = y div b + (y mod b - 1) div b"
    using b by (metis add_diff_eq div_mult_self4 order_less_irrefl add.commute)
  moreover have "(y mod b - 1) div b = - of_bool (y mod b = 0)"
    using b pos_mod_bound [OF b, of y] pos_mod_sign [OF b, of y] by (auto simp: zdiv_eq_0_iff div_eq_minus1)
  ultimately show ?thesis by (simp add: dvd_eq_mod_eq_0)
qed

lemma days_from_year_Suc: "njs_days_from_year (y + 1) = njs_days_from_year y + njs_days_in_year y"
proof -
  have shift: "(y - c + 1) div b = (y - c) div b + of_bool (b dvd y)" if "0 < b" "b dvd c - 1" for b c :: int
  proof -
    have "b dvd y - (c - 1) \<longleftrightarrow> b dvd y" by (metis dvd_add dvd_diff diff_add_cancel that(2))
    then have "b dvd y - c + 1 \<longleftrightarrow> b dvd y" by (simp add: algebra_simps)
    then show ?thesis using div_pred [OF that(1), of "y - c + 1"] by simp
  qed
  show ?thesis
    using shift [of 4 1969] shift [of 100 1901] shift [of 400 1601]
    by (simp add: njs_days_from_year_def njs_days_in_year_def smod_zero_iff algebra_simps)
qed

lemma century_dvd: "100 dvd y \<Longrightarrow> 4 dvd y" "400 dvd y \<Longrightarrow> 100 dvd y" for y :: int
  using dvd_trans [of 4 100 y] dvd_trans [of 100 400 y] by simp_all

lemma days_in_year_bounds: "365 \<le> njs_days_in_year y" "njs_days_in_year y \<le> 366"
  using century_dvd [of y] by (auto simp: njs_days_in_year_def smod_zero_iff)

function year_loop :: "int \<Rightarrow> int \<Rightarrow> int \<times> int" where
  "year_loop d y =
     (let d1 = d - njs_days_from_year y
      in if d1 < 0 then year_loop d (y - 1)
         else (let nd = njs_days_in_year y in if d1 < nd then (y, d1) else year_loop d (y + 1)))"
  by pat_completeness auto
termination
proof (relation "measure (\<lambda>(d, y). let d1 = d - njs_days_from_year y in
    if d1 < 0 then nat (- d1) else if d1 < njs_days_in_year y then 0 else nat d1)")
  fix d y d1 :: int
  assume d1: "d1 = d - njs_days_from_year y" "d1 < 0"
  then show "((d, y - 1), d, y) \<in> measure (\<lambda>(d, y). let d1 = d - njs_days_from_year y in
    if d1 < 0 then nat (- d1) else if d1 < njs_days_in_year y then 0 else nat d1)"
    using days_from_year_Suc [of "y - 1"] days_in_year_bounds [of "y - 1"] by (auto simp: Let_def)
next
  fix d y d1 nd :: int
  assume "d1 = d - njs_days_from_year y" "\<not> d1 < 0" "nd = njs_days_in_year y" "\<not> d1 < nd"
  then show "((d, y + 1), d, y) \<in> measure (\<lambda>(d, y). let d1 = d - njs_days_from_year y in
    if d1 < 0 then nat (- d1) else if d1 < njs_days_in_year y then 0 else nat d1)"
    using days_from_year_Suc [of y] days_in_year_bounds [of y] by (auto simp: Let_def)
qed simp

declare year_loop.simps [simp del]

text \<open>The year of a day number and the day's index in its year.\<close>

definition njs_year_from_days :: "int \<Rightarrow> int \<times> int" where
  "njs_year_from_days days = year_loop days (njs_floor_div (days * 10000) 3652425 + 1970)"

lemma year_loop_correct:
  "year_loop d y = (y', d1) \<Longrightarrow> 0 \<le> d1 \<and> d1 < njs_days_in_year y' \<and> d = njs_days_from_year y' + d1"
proof (induction d y rule: year_loop.induct)
  case (1 d y)
  then show ?case by (subst (asm) (3) year_loop.simps) (auto simp: Let_def split: if_splits)
qed

lemma days_from_year_mono: "y < y' \<Longrightarrow> njs_days_from_year y + njs_days_in_year y \<le> njs_days_from_year y'"
proof (induction y' rule: int_gr_induct [where k = y])
  case (step i)
  then show ?case using days_from_year_Suc [of i] days_in_year_bounds [of i] by simp
qed (simp_all add: days_from_year_Suc)

lemma year_from_days_unique:
  assumes "0 \<le> r" "r < njs_days_in_year y"
  shows "njs_year_from_days (njs_days_from_year y + r) = (y, r)"
proof -
  obtain y' r' where yr: "njs_year_from_days (njs_days_from_year y + r) = (y', r')" by fastforce
  then have "0 \<le> r' \<and> r' < njs_days_in_year y' \<and> njs_days_from_year y + r = njs_days_from_year y' + r'"
    using year_loop_correct by (simp add: njs_year_from_days_def)
  then show ?thesis
    using yr assms days_from_year_mono [of y y'] days_from_year_mono [of y' y] by (cases y y' rule: linorder_cases) auto
qed

subsection \<open>Months\<close>

lemma njs_make_day_eq:
  "0 \<le> mon \<Longrightarrow> mon < 12 \<Longrightarrow>
    njs_make_day y mon d = njs_days_from_year y + (\<Sum>i < nat mon. days_in_month y i) + d - 1"
proof -
  assume mon: "0 \<le> mon" "mon < 12"
  have "fold (\<lambda>i days. days + days_in_month y i) [0..<n] s = s + (\<Sum>i < n. days_in_month y i)" for n s
    by (induction n) (simp_all add: lessThan_Suc algebra_simps)
  then show ?thesis using mon by (simp add: njs_make_day_def Let_def)
qed

lemma months_of_year: "(\<Sum>i < 12. days_in_month y i) = njs_days_in_year y"
  by (simp add: eval_nat_numeral lessThan_Suc days_in_month_def month_days_def)

text \<open>The month loop of \<open>njs_destruct_date\<close>: the month from \<open>i\<close> on and the day's index in it.\<close>

function destruct_month :: "int \<Rightarrow> nat \<Rightarrow> int \<Rightarrow> nat \<times> int" where
  "destruct_month y i days =
     (if i < 11 then
        (let md = days_in_month y i
         in if days < md then (i, days) else destruct_month y (i + 1) (days - md))
      else (i, days))"
  by pat_completeness auto
termination by (relation "measure (\<lambda>(y, i, days). 11 - i)") auto

declare destruct_month.simps [simp del]

lemma destruct_month_correct:
  assumes "0 \<le> days" "i \<le> 11" "(\<Sum>j < i. days_in_month y j) + days < njs_days_in_year y"
    "destruct_month y i days = (mon, r)"
  shows "mon \<le> 11 \<and> 0 \<le> r \<and> r < days_in_month y mon \<and>
    (\<Sum>j < i. days_in_month y j) + days = (\<Sum>j < mon. days_in_month y j) + r"
  using assms
proof (induction y i days rule: destruct_month.induct)
  case (1 y i days)
  have unfold: "destruct_month y i days = (if i < 11 then
      (if days < days_in_month y i then (i, days) else destruct_month y (i + 1) (days - days_in_month y i))
      else (i, days))"
    using destruct_month.simps [of y i days] by (simp add: Let_def)
  consider "i < 11" "\<not> days < days_in_month y i" | "i < 11" "days < days_in_month y i" | "i = 11"
    using 1(3) by linarith
  then show ?case
  proof cases
    case 1
    with "1.prems" have "(\<Sum>j < i + 1. days_in_month y j) + (days - days_in_month y i) = (\<Sum>j < i. days_in_month y j) + days"
      "destruct_month y (i + 1) (days - days_in_month y i) = (mon, r)"
      by (simp_all add: unfold)
    with 1 "1.IH" [OF 1(1) refl 1(2)] "1.prems" show ?thesis by simp
  next
    case 2
    with "1.prems" show ?thesis by (simp add: unfold)
  next
    case 3
    have "(\<Sum>j < 11. days_in_month y j) + days_in_month y 11 = njs_days_in_year y"
      using sum.lessThan_Suc [of "days_in_month y" 11] months_of_year [of y] by simp
    with 3 "1.prems" unfold show ?thesis by simp
  qed
qed

section \<open>Composing and decomposing a time\<close>

definition njs_make_date :: "(int \<Rightarrow> int) \<Rightarrow> tm \<Rightarrow> bool \<Rightarrow> time" where
  "njs_make_date tz tm local =
     (let days = njs_make_day (tm ! NJS_DATE_YR) (tm ! NJS_DATE_MON) (tm ! NJS_DATE_DAY);
          time = ((tm ! NJS_DATE_HR * 60 + tm ! NJS_DATE_MIN) * 60 + tm ! NJS_DATE_SEC) * 1000 + tm ! NJS_DATE_MSEC;
          time = time + days * 86400000;
          time = (if local then time + tz time * 60000 else time)
      in njs_timeclip (Finite (of_int time)))"

definition njs_destruct_date :: "(int \<Rightarrow> int) \<Rightarrow> time \<Rightarrow> bool \<Rightarrow> tm" where
  "njs_destruct_date tz time local =
     (let time = (case time of None \<Rightarrow> 0 | Some time \<Rightarrow> if local then time - tz time * 60000 else time);
          h = njs_mod time 86400000;
          days = (time - h) sdiv 86400000;
          ms = h smod 1000;
          h = (h - ms) sdiv 1000;
          s = h smod 60;
          h = (h - s) sdiv 60;
          m = h smod 60;
          h = (h - m) sdiv 60;
          wd = njs_mod (days + 4) 7;
          (y, days) = njs_year_from_days days;
          (i, days) = destruct_month y 0 days
      in [wd, y, int i, days + 1, h, m, s, ms])"

text \<open>The fields of a time in a zone \<open>off\<close> milliseconds east: a valid civil date and time of day.\<close>

definition civil :: "int \<Rightarrow> int \<Rightarrow> int \<Rightarrow> bool" where
  "civil y mon day \<longleftrightarrow> 0 \<le> mon \<and> mon < 12 \<and> 1 \<le> day \<and> day \<le> days_in_month y (nat mon)"

definition day_clock :: "int \<Rightarrow> int \<Rightarrow> int \<Rightarrow> int \<Rightarrow> bool" where
  "day_clock h m s ms \<longleftrightarrow> 0 \<le> h \<and> h < 24 \<and> 0 \<le> m \<and> m < 60 \<and> 0 \<le> s \<and> s < 60 \<and> 0 \<le> ms \<and> ms < 1000"

lemma month_sum_le: "i \<le> 11 \<Longrightarrow> (\<Sum>j < i. days_in_month y j) + days_in_month y i \<le> njs_days_in_year y"
proof -
  assume i: "i \<le> 11"
  have nonneg: "0 \<le> days_in_month y j" if "j < 12" for j
    using that days_in_year_bounds [of y]
    by (auto simp: days_in_month_def month_days_def Let_def nth_Cons split: nat.splits)
  have "(\<Sum>j < Suc i. days_in_month y j) \<le> (\<Sum>j < 12. days_in_month y j)"
    using i by (intro sum_mono2) (auto intro: nonneg)
  then show ?thesis by (simp add: months_of_year)
qed

lemma days_in_month_bounds: "i < 12 \<Longrightarrow> 28 \<le> days_in_month y i \<and> days_in_month y i \<le> 31"
  using days_in_year_bounds [of y]
  by (auto simp: days_in_month_def month_days_def Let_def nth_Cons split: nat.splits)

lemma days_in_month_nonneg: "i < 12 \<Longrightarrow> 0 \<le> days_in_month y i"
  using days_in_month_bounds [of i y] by simp

lemma civil_unique:
  assumes "civil y mon day" "civil y' mon' day'" "njs_make_day y mon day = njs_make_day y' mon' day'"
  shows "y = y' \<and> mon = mon' \<and> day = day'"
proof -
  let ?S = "\<lambda>y m. \<Sum>i < nat m. days_in_month y i"
  have range: "0 \<le> ?S y m + d - 1 \<and> ?S y m + d - 1 < njs_days_in_year y"
    if "civil y m d" for y m d
  proof -
    have "0 \<le> ?S y m" using that
      by (intro sum_nonneg days_in_month_nonneg) (simp add: civil_def zless_nat_eq_int_zless)
    moreover have "nat m \<le> 11" using that by (simp add: civil_def nat_le_iff)
    ultimately show ?thesis using that month_sum_le [of "nat m" y] by (simp add: civil_def)
  qed
  have yr: "y = y' \<and> ?S y mon + day = ?S y' mon' + day'"
    using assms year_from_days_unique [of "?S y mon + day - 1" y] year_from_days_unique [of "?S y' mon' + day' - 1" y']
      range [OF assms(1)] range [OF assms(2)]
    by (simp add: njs_make_day_eq civil_def algebra_simps)
  have mono: "?S y m + days_in_month y (nat m) \<le> ?S y m'" if "0 \<le> m" "m < m'" "m' < 12" for m m'
  proof -
    have "(\<Sum>j < Suc (nat m). days_in_month y j) \<le> ?S y m'"
      using that by (intro sum_mono2 days_in_month_nonneg) (auto simp: zless_nat_eq_int_zless)
    then show ?thesis by simp
  qed
  show ?thesis
    using yr assms(1,2) mono [of mon mon'] mono [of mon' mon] by (cases mon mon' rule: linorder_cases) (auto simp: civil_def)
qed

lemma timeclip_int: "njs_timeclip (Finite (of_int t)) = (if \<bar>t\<bar> \<le> 8640000000000000 then Some t else None)"
proof -
  have "(rat_of_int t < - 8640000000000000) = (t < - 8640000000000000)"
    "(rat_of_int t > 8640000000000000) = (t > 8640000000000000)"
    by linarith+
  moreover have "trunc (of_int t) = t" by (simp add: trunc_def flip: of_int_minus)
  ultimately show ?thesis by (auto simp: njs_timeclip_def)
qed

lemma make_date_fields:
  assumes "njs_make_day y m d * 86400000 + (((h * 60 + mi) * 60 + s) * 1000 + ms) = t"
  shows "njs_make_date tz [wd, y, m, d, h, mi, s, ms] local =
    njs_timeclip (Finite (of_int (if local then t + tz t * 60000 else t)))"
proof -
  have "((h * 60 + mi) * 60 + s) * 1000 + ms + njs_make_day y m d * 86400000 = t" using assms by simp
  then show ?thesis by (simp add: njs_make_date_def Let_def date_fields)
qed

lemma day_hour:
  fixes h :: int
  assumes "0 \<le> h" "h < 86400000"
  shows "0 \<le> h div 1000 div 60 div 60 \<and> h div 1000 div 60 div 60 < 24"
proof -
  have "h div 1000 div 60 div 60 = h div 3600000"
    using zdiv_zmult2_eq [of 60 "h div 1000" 60] zdiv_zmult2_eq [of 3600 h 1000] by simp
  moreover have "h div 3600000 \<le> 86399999 div 3600000" using assms by (intro zdiv_mono1) simp_all
  ultimately show ?thesis using assms by (simp add: pos_imp_zdiv_nonneg_iff)
qed

text \<open>What the fields of a time are, with the local time already taken.\<close>

lemma destruct_fields:
  assumes "t = (case time of None \<Rightarrow> 0 | Some time \<Rightarrow> if local then time - tz time * 60000 else time)"
  obtains y mon day h m s ms where
    "njs_destruct_date tz time local = [(t div 86400000 + 4) mod 7, y, mon, day, h, m, s, ms]"
    "civil y mon day" "day_clock h m s ms"
    "njs_make_day y mon day = t div 86400000"
    "((h * 60 + m) * 60 + s) * 1000 + ms = t mod 86400000"
proof -
  obtain h d where hd: "t mod 86400000 = h" "t div 86400000 = d" by simp
  then have h: "0 \<le> h" "h < 86400000" by auto
  obtain y r where yr: "njs_year_from_days d = (y, r)" by fastforce
  then have r: "0 \<le> r" "r < njs_days_in_year y" "d = njs_days_from_year y + r"
    using year_loop_correct by (auto simp: njs_year_from_days_def)
  obtain i q where iq: "destruct_month y 0 r = (i, q)" by fastforce
  have i: "i \<le> 11 \<and> 0 \<le> q \<and> q < days_in_month y i \<and> r = (\<Sum>j < i. days_in_month y j) + q"
    using destruct_month_correct [of r 0 y i q] r iq by simp
  let ?ms = "h mod 1000" and ?s = "h div 1000 mod 60" and ?m = "h div 1000 div 60 mod 60" and ?hr = "h div 1000 div 60 div 60"
  have sub: "(x - x mod b) sdiv b = x div b" if "0 < b" for x b :: int
    using sdiv_exact [OF that, of "x div b"] by (simp add: minus_mod_eq_div_mult)
  have day: "(t - h) sdiv 86400000 = d" using sub [of 86400000 t] hd by simp
  have "njs_destruct_date tz time local = [(d + 4) mod 7, y, int i, q + 1, ?hr, ?m, ?s, ?ms]"
    using h unfolding njs_destruct_date_def Let_def assms [symmetric]
    by (simp add: hd day sub yr iq)
  moreover have "civil y (int i) (q + 1)" using i by (simp add: civil_def)
  moreover have "day_clock ?hr ?m ?s ?ms" using day_hour [OF h] by (simp add: day_clock_def)
  moreover have "njs_make_day y (int i) (q + 1) = d" using i r by (simp add: njs_make_day_eq)
  moreover have "((?hr * 60 + ?m) * 60 + ?s) * 1000 + ?ms = h" by simp
  ultimately show ?thesis unfolding hd by (rule that [unfolded hd])
qed

subsection \<open>The Gregorian calendar\<close>

definition leap_year :: "int \<Rightarrow> bool" where
  "leap_year y \<longleftrightarrow> 4 dvd y \<and> (\<not> 100 dvd y \<or> 400 dvd y)"

definition month_length :: "int \<Rightarrow> int \<Rightarrow> int" where
  "month_length y m =
     (if m = 1 then if leap_year y then 29 else 28 else if m \<in> {3, 5, 8, 10} then 30 else 31)"

definition next_date :: "int \<times> int \<times> int \<Rightarrow> int \<times> int \<times> int" where
  "next_date = (\<lambda>(y, m, d). if d < month_length y m then (y, m, d + 1) else if m < 11 then (y, m + 1, 1) else (y + 1, 0, 1))"

lemma month_length: "0 \<le> m \<Longrightarrow> m < 12 \<Longrightarrow> days_in_month y (nat m) = month_length y m"
proof -
  assume m: "0 \<le> m" "m < 12"
  have leap: "njs_days_in_year y = 365 + of_bool (leap_year y)"
    unfolding njs_days_in_year_def leap_year_def using century_dvd [of y]
    by (cases "4 dvd y"; cases "100 dvd y"; cases "400 dvd y") (simp_all add: smod_zero_iff)
  have "\<forall>i < 12. days_in_month y i = month_length y (int i)"
    by (simp add: eval_nat_numeral All_less_Suc days_in_month_def month_days_def month_length_def leap)
  with m show ?thesis by (simp add: nat_less_iff)
qed

lemma make_day_next:
  assumes "civil y m d" "next_date (y, m, d) = (y', m', d')"
  shows "civil y' m' d' \<and> njs_make_day y' m' d' = njs_make_day y m d + 1"
proof -
  note m = assms(1) [unfolded civil_def]
  consider "d < month_length y m" | "d = month_length y m" "m < 11" | "d = month_length y m" "m = 11"
    using m month_length [of m y] by fastforce
  then show ?thesis
  proof cases
    case 1
    with assms m show ?thesis by (auto simp: next_date_def civil_def month_length njs_make_day_eq)
  next
    case 2
    have "nat (m + 1) = Suc (nat m)" using m by linarith
    moreover have "1 \<le> days_in_month y (nat m + 1)"
      using 2 m days_in_month_bounds [of "nat m + 1" y] by (simp add: nat_less_iff)
    ultimately show ?thesis
      using 2 assms m by (auto simp: next_date_def civil_def njs_make_day_eq simp flip: month_length)
  next
    case 3
    have "(\<Sum>i < 11. days_in_month y i) + days_in_month y 11 = njs_days_in_year y"
      using sum.lessThan_Suc [of "days_in_month y" 11] months_of_year [of y] by simp
    with 3 assms m days_in_month_bounds [of 0 "y + 1"] show ?thesis
      by (auto simp: next_date_def civil_def njs_make_day_eq days_from_year_Suc simp flip: month_length)
  qed
qed

abbreviation date_of :: "tm \<Rightarrow> int \<times> int \<times> int" where
  "date_of tm \<equiv> (tm ! NJS_DATE_YR, tm ! NJS_DATE_MON, tm ! NJS_DATE_DAY)"

abbreviation utc_fields :: "int \<Rightarrow> tm" where
  "utc_fields t \<equiv> njs_destruct_date (\<lambda>_. 0) (Some t) False"

lemma destruct_utc_tz: "njs_destruct_date tz time False = njs_destruct_date tz' time False"
  unfolding njs_destruct_date_def by (cases time) (simp_all only: option.case if_False)

text \<open>
  C34. The fields of a time are those of the Gregorian calendar: day 0 is Thursday the first of
  January 1970, a day later is the next date of the calendar and the next day of the week, for
  every day before and after the epoch, and the rest of the day is split into hours, minutes,
  seconds and milliseconds.
\<close>

theorem date_calendar:
  "date_of (utc_fields 0) = (1970, 0, 1) \<and> utc_fields 0 ! NJS_DATE_WDAY = 4 \<and>
   date_of (utc_fields (t + 86400000)) = next_date (date_of (utc_fields t)) \<and>
   utc_fields (t + 86400000) ! NJS_DATE_WDAY = (utc_fields t ! NJS_DATE_WDAY + 1) mod 7 \<and>
   day_clock (utc_fields t ! NJS_DATE_HR) (utc_fields t ! NJS_DATE_MIN) (utc_fields t ! NJS_DATE_SEC) (utc_fields t ! NJS_DATE_MSEC) \<and>
   ((utc_fields t ! NJS_DATE_HR * 60 + utc_fields t ! NJS_DATE_MIN) * 60 + utc_fields t ! NJS_DATE_SEC) * 1000
     + utc_fields t ! NJS_DATE_MSEC = t mod 86400000"
proof -
  let ?z = "\<lambda>_ :: int. 0 :: int"
  obtain y m d h mi s ms where t:
    "utc_fields t = [(t div 86400000 + 4) mod 7, y, m, d, h, mi, s, ms]"
    "civil y m d" "day_clock h mi s ms" "njs_make_day y m d = t div 86400000"
    "((h * 60 + mi) * 60 + s) * 1000 + ms = t mod 86400000"
    by (rule destruct_fields [where t = t and time = "Some t" and local = False and tz = ?z]) (simp, blast)
  obtain y' m' d' h' mi' s' ms' where t':
    "utc_fields (t + 86400000) = [((t + 86400000) div 86400000 + 4) mod 7, y', m', d', h', mi', s', ms']"
    "civil y' m' d'" "njs_make_day y' m' d' = (t + 86400000) div 86400000"
    by (rule destruct_fields [where t = "t + 86400000" and time = "Some (t + 86400000)" and local = False and tz = ?z]) (simp, blast)
  obtain y'' m'' d'' where n: "next_date (y, m, d) = (y'', m'', d'')" using prod_cases3 by blast
  have "y'' = y' \<and> m'' = m' \<and> d'' = d'"
    using make_day_next [OF t(2) n] t(4) t'(2,3) by (intro civil_unique) simp_all
  moreover have "utc_fields 0 = [4, 1970, 0, 1, 0, 0, 0, 0]"
    using year_from_days_unique [of 0 1970] days_in_year_bounds [of 1970]
    by (simp add: njs_destruct_date_def Let_def njs_days_from_year_def destruct_month.simps [of 1970 0 0] days_in_month_def month_days_def)
  ultimately show ?thesis
    using t t' n by (simp add: date_fields mod_simps algebra_simps)
qed

lemma make_destruct:
  "njs_make_date tz (njs_destruct_date tz (Some t) local) local' =
    (let u = (if local then t - tz t * 60000 else t)
     in njs_timeclip (Finite (of_int (if local' then u + tz u * 60000 else u))))"
proof -
  let ?t = "if local then t - tz t * 60000 else t"
  obtain y m d h mi s ms where f:
    "njs_destruct_date tz (Some t) local = [(?t div 86400000 + 4) mod 7, y, m, d, h, mi, s, ms]"
    "njs_make_day y m d = ?t div 86400000" "((h * 60 + mi) * 60 + s) * 1000 + ms = ?t mod 86400000"
    by (rule destruct_fields [where t = ?t and time = "Some t" and local = local and tz = tz]) (simp, blast)
  then have "njs_make_day y m d * 86400000 + (((h * 60 + mi) * 60 + s) * 1000 + ms) = ?t" by simp
  from make_date_fields [OF this, of tz _ local'] show ?thesis
    unfolding f(1) Let_def .
qed

text \<open>
  C35. Composing the fields of a time gives the time back, in UTC and in local time where the
  zone has the same offset at the time and at its local reading.
\<close>

theorem date_fields_roundtrip:
  assumes "\<bar>t\<bar> \<le> 8640000000000000" "local \<longrightarrow> tz (t - tz t * 60000) = tz t"
  shows "njs_make_date tz (njs_destruct_date tz (Some t) local) local = Some t"
  using assms by (simp add: make_destruct timeclip_int)

theorem date_fields_roundtrip_witness:
  "njs_make_date (\<lambda>_. -180) (njs_destruct_date (\<lambda>_. -180) (Some 23328000000) True) True = Some 23328000000"
  by (rule date_fields_roundtrip) simp_all

subsection \<open>Machine integers\<close>

text \<open>
  The model computes with integers, the code with \<open>int64_t\<close>. These are the values the code
  computes for the fields of a time in UTC, in the order of their evaluation.
\<close>

definition make_date_values :: "tm \<Rightarrow> int list" where
  "make_date_values tm =
     (let yr = tm ! NJS_DATE_YR; month = tm ! NJS_DATE_MON; date = tm ! NJS_DATE_DAY;
          mn = njs_mod month 12; ym = yr + (month - mn) sdiv 12;
          h = tm ! NJS_DATE_HR; m = tm ! NJS_DATE_MIN; s = tm ! NJS_DATE_SEC; ms = tm ! NJS_DATE_MSEC;
          days = njs_make_day yr month date
      in [month - mn, ym, ym - 1970, 365 * (ym - 1970), ym - 1969, ym - 1901, ym - 1601, njs_days_from_year ym,
          days - date, days, h * 60, h * 60 + m, (h * 60 + m) * 60, (h * 60 + m) * 60 + s,
          ((h * 60 + m) * 60 + s) * 1000, ((h * 60 + m) * 60 + s) * 1000 + ms, days * 86400000,
          ((h * 60 + m) * 60 + s) * 1000 + ms + days * 86400000])"

lemma days_from_year_bounds: "\<bar>njs_days_from_year y\<bar> \<le> 367 * \<bar>y\<bar> + 720000"
proof -
  have "njs_days_from_year y = 365 * (y - 1970) + (y - 1969) div 4 - (y - 1901) div 100 + (y - 1601) div 400"
    by (simp add: njs_days_from_year_def)
  moreover have "4 * ((y - 1969) div 4) \<le> y - 1969 \<and> y - 1969 < 4 * ((y - 1969) div 4) + 4"
    "100 * ((y - 1901) div 100) \<le> y - 1901 \<and> y - 1901 < 100 * ((y - 1901) div 100) + 100"
    "400 * ((y - 1601) div 400) \<le> y - 1601 \<and> y - 1601 < 400 * ((y - 1601) div 400) + 400"
    by linarith+
  ultimately show ?thesis by (cases "0 \<le> y") auto
qed

lemma make_date_values_bounded:
  assumes "\<bar>tm ! NJS_DATE_YR\<bar> \<le> 10 ^ 8" "\<bar>tm ! NJS_DATE_MON\<bar> \<le> 10 ^ 8"
    "\<forall>i \<in> {NJS_DATE_DAY, NJS_DATE_HR, NJS_DATE_MIN, NJS_DATE_SEC, NJS_DATE_MSEC}. \<bar>tm ! i\<bar> \<le> 10 ^ 10"
  shows "\<forall>v \<in> set (make_date_values tm). \<bar>v\<bar> \<le> 9200000000000000000"
proof -
  let ?yr = "tm ! NJS_DATE_YR" and ?mon = "tm ! NJS_DATE_MON" and ?d = "tm ! NJS_DATE_DAY"
  obtain ym where ym: "?yr + (?mon - ?mon mod 12) sdiv 12 = ym" by simp
  have "(?mon - ?mon mod 12) sdiv 12 = ?mon div 12"
    using sdiv_exact [of 12 "?mon div 12"] by (simp add: minus_mod_eq_div_mult)
  then have ym_le: "\<bar>ym\<bar> \<le> 2 * 10 ^ 8" using assms(1,2) ym by linarith
  obtain n where n: "nat (?mon mod 12) = n" "n \<le> 11" by (simp add: nat_le_iff)
  obtain S where S: "(\<Sum>i < n. days_in_month ym i) = S" by simp
  then have S_le: "0 \<le> S" "S \<le> 366"
    using month_sum_le [of n ym] n days_in_year_bounds [of ym] days_in_month_nonneg [of n ym]
    by (auto intro!: sum_nonneg days_in_month_nonneg)
  have "fold (\<lambda>i days. days + days_in_month ym i) [0..<k] x = x + (\<Sum>i < k. days_in_month ym i)" for k x
    by (induction k) (simp_all add: algebra_simps)
  then have days: "njs_make_day ?yr ?mon ?d = njs_days_from_year ym + S + ?d - 1"
    using n(1) ym S by (simp add: njs_make_day_def Let_def)
  have y: "\<bar>njs_days_from_year ym\<bar> \<le> 73500000000" using days_from_year_bounds [of ym] ym_le by simp
  obtain mm where mm: "?mon - ?mon mod 12 = mm" by simp
  with assms(2) have mm_le: "\<bar>mm\<bar> \<le> 200000000" by simp
  have f: "\<bar>?d\<bar> \<le> 10 ^ 10" "\<bar>tm ! NJS_DATE_HR\<bar> \<le> 10 ^ 10" "\<bar>tm ! NJS_DATE_MIN\<bar> \<le> 10 ^ 10"
    "\<bar>tm ! NJS_DATE_SEC\<bar> \<le> 10 ^ 10" "\<bar>tm ! NJS_DATE_MSEC\<bar> \<le> 10 ^ 10"
    using assms(3) by simp_all
  have mod: "njs_mod ?mon 12 = ?mon mod 12" by simp
  let ?h = "tm ! NJS_DATE_HR" and ?m = "tm ! NJS_DATE_MIN" and ?s = "tm ! NJS_DATE_SEC" and ?ms = "tm ! NJS_DATE_MSEC"
  let ?days = "njs_days_from_year ym + S + ?d - 1"
  have h: "\<bar>?h * 60\<bar> \<le> 600000000000" using f(2) by simp
  have hm: "\<bar>?h * 60 + ?m\<bar> \<le> 610000000000" using h f(3) by simp
  have hm60: "\<bar>(?h * 60 + ?m) * 60\<bar> \<le> 36600000000000" using hm by (subst abs_mult) simp
  have hms: "\<bar>(?h * 60 + ?m) * 60 + ?s\<bar> \<le> 36610000000000" using hm60 f(4) by simp
  have hms1000: "\<bar>((?h * 60 + ?m) * 60 + ?s) * 1000\<bar> \<le> 36610000000000000" using hms by (subst abs_mult) simp
  have time: "\<bar>((?h * 60 + ?m) * 60 + ?s) * 1000 + ?ms\<bar> \<le> 36620000000000000" using hms1000 f(5) by simp
  have d: "\<bar>?days\<bar> \<le> 83600000000" using y S_le f(1) by simp
  have d8: "\<bar>?days * 86400000\<bar> \<le> 7300000000000000000" using d by (subst abs_mult) simp
  have dt: "\<bar>((?h * 60 + ?m) * 60 + ?s) * 1000 + ?ms + ?days * 86400000\<bar> \<le> 7400000000000000000"
    using abs_triangle_ineq [of "((?h * 60 + ?m) * 60 + ?s) * 1000 + ?ms" "?days * 86400000"] time d8 by (elim order_trans) simp
  have yr: "\<bar>365 * (ym - 1970)\<bar> \<le> 74000000000" "\<bar>ym - 1970\<bar> \<le> 300000000" "\<bar>ym - 1969\<bar> \<le> 300000000"
    "\<bar>ym - 1901\<bar> \<le> 300000000" "\<bar>ym - 1601\<bar> \<le> 300000000"
    using ym_le by simp_all
  have dd: "\<bar>?days - ?d\<bar> \<le> 83600000000" using y S_le by simp
  show ?thesis
    unfolding make_date_values_def Let_def mod ym days
    unfolding mm list.set ball_simps
    by (intro conjI TrueI; rule order_trans, rule mm_le ym_le yr y dd d h hm hm60 hms hms1000 time d8 dt, simp)
qed



section \<open>Methods\<close>

record njs_date_t =
  date_time :: time

datatype date_this = Date_this njs_date_t | Other_this bytes

definition not_a_date :: "bytes \<Rightarrow> njs_error" where
  "not_a_date type = Type_error (ascii ''cannot convert '' @ type @ ascii '' to date'')"

text \<open>
  The loop that stores arguments to fields: an exception, or NaN at the first argument that is
  not finite, the arguments behind it unconverted.
\<close>

type_synonym date_arg = "njs_error + number"

fun date_args :: "nat \<Rightarrow> date_arg list \<Rightarrow> tm \<Rightarrow> njs_error + tm option" where
  "date_args i [] tm = Inr (Some tm)"
| "date_args i (Inl e # args) tm = Inl e"
| "date_args i (Inr (Finite num) # args) tm = date_args (i + 1) args (tm[i := trunc num])"
| "date_args i (Inr num # args) tm = Inr None"

text \<open>The arguments of the constructor and of \<open>Date.UTC\<close>.\<close>

definition date_from_args :: "(int \<Rightarrow> int) \<Rightarrow> date_arg list \<Rightarrow> bool \<Rightarrow> njs_error + time" where
  "date_from_args tz args local =
     (let tm = (replicate NJS_DATE_MAX_FIELDS 0)[NJS_DATE_DAY := 1] in
      case date_args 1 (take 7 args) tm of
        Inl e \<Rightarrow> Inl e
      | Inr None \<Rightarrow> Inr None
      | Inr (Some tm) \<Rightarrow>
          (let tm = (if tm ! NJS_DATE_YR \<ge> 0 \<and> tm ! NJS_DATE_YR < 100
                     then tm[NJS_DATE_YR := tm ! NJS_DATE_YR + 1900] else tm)
           in Inr (njs_make_date tz tm local)))"

definition njs_date_utc :: "date_arg list \<Rightarrow> njs_error + time" where
  "njs_date_utc args = (if args \<noteq> [] then date_from_args (\<lambda>_. 0) args False else Inr None)"

definition njs_date_now :: "int \<Rightarrow> time" where
  "njs_date_now gettime = Some gettime"

definition njs_date_prototype_value_of :: "date_this \<Rightarrow> njs_error + time" where
  "njs_date_prototype_value_of this =
     (case this of Other_this type \<Rightarrow> Inl (not_a_date type) | Date_this d \<Rightarrow> Inr (date_time d))"

definition njs_date_magic :: "nat \<Rightarrow> nat \<Rightarrow> nat" where
  "njs_date_magic field local = push_bit 6 local + field"

definition njs_date_magic2 :: "nat \<Rightarrow> nat \<Rightarrow> nat \<Rightarrow> nat" where
  "njs_date_magic2 since len local = push_bit 6 local + push_bit 3 (len AND 7) + since"

definition njs_date_prototype_get_field :: "(int \<Rightarrow> int) \<Rightarrow> nat \<Rightarrow> date_this \<Rightarrow> njs_error + time" where
  "njs_date_prototype_get_field tz magic this =
     (case this of
        Other_this type \<Rightarrow> Inl (not_a_date type)
      | Date_this d \<Rightarrow>
          Inr (case date_time d of
                 None \<Rightarrow> None
               | Some value \<Rightarrow> Some (njs_destruct_date tz (Some value) (magic AND 0x40 \<noteq> 0) ! (magic AND 0xf))))"

definition njs_date_prototype_get_timezone_offset :: "(int \<Rightarrow> int) \<Rightarrow> date_this \<Rightarrow> njs_error + time" where
  "njs_date_prototype_get_timezone_offset tz this =
     (case this of
        Other_this type \<Rightarrow> Inl (not_a_date type)
      | Date_this d \<Rightarrow> Inr (map_option tz (date_time d)))"

text \<open>A setter yields the value returned and the object it leaves.\<close>

definition njs_date_prototype_set_time :: "date_arg list \<Rightarrow> date_this \<Rightarrow> njs_error + time \<times> njs_date_t" where
  "njs_date_prototype_set_time args this =
     (case this of
        Other_this type \<Rightarrow> Inl (not_a_date type)
      | Date_this d \<Rightarrow>
          (case args of
             [] \<Rightarrow> Inr (None, d\<lparr>date_time := None\<rparr>)
           | Inl e # _ \<Rightarrow> Inl e
           | Inr num # _ \<Rightarrow> Inr (njs_timeclip num, d\<lparr>date_time := njs_timeclip num\<rparr>)))"

definition njs_date_prototype_set_fields ::
    "(int \<Rightarrow> int) \<Rightarrow> nat \<Rightarrow> date_arg list \<Rightarrow> date_this \<Rightarrow> njs_error + time \<times> njs_date_t" where
  "njs_date_prototype_set_fields tz magic args this =
     (case this of
        Other_this type \<Rightarrow> Inl (not_a_date type)
      | Date_this d \<Rightarrow>
          (let time = date_time d;
               since = magic AND 7
           in if args = [] \<or> (since \<noteq> NJS_DATE_YR \<and> time = None) then Inr (None, d\<lparr>date_time := None\<rparr>)
              else
                (let left = min (drop_bit 3 magic AND 7) (length args);
                     tm = njs_destruct_date tz time (magic AND 0x40 \<noteq> 0)
                 in case date_args since (take left args) tm of
                      Inl e \<Rightarrow> Inl e
                    | Inr None \<Rightarrow> Inr (None, d\<lparr>date_time := None\<rparr>)
                    | Inr (Some tm) \<Rightarrow>
                        (let time = njs_make_date tz tm True in Inr (time, d\<lparr>date_time := time\<rparr>)))))"

lemma and_7: "n AND 7 = n mod 8" for n :: nat
proof -
  have "n AND 7 = take_bit 3 n" by (simp add: take_bit_eq_mask mask_eq_exp_minus_1)
  then show ?thesis by (simp add: take_bit_eq_mod)
qed

lemma and_64: "0 < n AND 64 \<longleftrightarrow> odd (n div 64)" for n :: nat
  using and_exp_eq_0_iff_not_bit [of n 6] by (simp add: bit_iff_odd) (metis gr_zeroI less_numeral_extra(3))

lemma date_magic2:
  assumes "field < 8" "len < 8" "local < 2"
  shows "njs_date_magic2 field len local AND 7 = field" "drop_bit 3 (njs_date_magic2 field len local) AND 7 = len"
    "njs_date_magic2 field len local AND 64 > 0 \<longleftrightarrow> local = 1"
proof -
  have eq: "njs_date_magic2 field len local = 64 * local + 8 * len + field"
    using assms by (simp add: njs_date_magic2_def and_7 push_bit_eq_mult)
  have "(64 * local + 8 * len + field) mod 8 = field"
    using assms(1) mod_mult_self2 [of field 8 "8 * local + len"] by (simp add: algebra_simps)
  then show "njs_date_magic2 field len local AND 7 = field" by (simp add: eq and_7)
  have "(64 * local + 8 * len + field) div 8 = len + 8 * local" using assms(1) by linarith
  then show "drop_bit 3 (njs_date_magic2 field len local) AND 7 = len"
    using assms(2) by (simp add: eq and_7 drop_bit_eq_div)
  have "(64 * local + 8 * len + field) div 64 = local" using assms by linarith
  then show "njs_date_magic2 field len local AND 64 > 0 \<longleftrightarrow> local = 1"
    using assms(3) by (auto simp: eq and_64 less_Suc_eq numeral_2_eq_2)
qed

lemma date_magic:
  assumes "field < 8" "local < 2"
  shows "njs_date_magic field local AND 0xf = field" "njs_date_magic field local AND 64 > 0 \<longleftrightarrow> local = 1"
proof -
  have eq: "njs_date_magic field local = 64 * local + field"
    by (simp add: njs_date_magic_def push_bit_eq_mult)
  have "m AND 0xf = m mod 16" for m :: nat
  proof -
    have "m AND 0xf = take_bit 4 m" by (simp add: take_bit_eq_mask mask_eq_exp_minus_1)
    then show ?thesis by (simp add: take_bit_eq_mod)
  qed
  moreover have "(64 * local + field) mod 16 = field"
    using assms(1) mod_mult_self2 [of field 16 "4 * local"] by (simp add: add.commute)
  moreover have "(64 * local + field) div 64 = local" using assms(1) by linarith
  ultimately show "njs_date_magic field local AND 0xf = field" "njs_date_magic field local AND 64 > 0 \<longleftrightarrow> local = 1"
    using assms(2) by (auto simp: eq and_64 less_Suc_eq numeral_2_eq_2)
qed

text \<open>
  Setting a field of a valid date to the value it has does not change the date with the
  local setters; the UTC setters compose the UTC fields as if they were local, so they move the
  date by the offset of the zone.
\<close>

theorem date_set_own_value:
  assumes "NJS_DATE_YR \<le> field" "field \<le> NJS_DATE_MSEC" "0 < len" "len < 8" "local < 2"
    "njs_date_prototype_get_field (\<lambda>_. c) (njs_date_magic field local) (Date_this \<lparr>date_time = Some t\<rparr>) = Inr (Some v)"
    "t' = (if local = 1 then t else t + c * 60000)" "\<bar>t'\<bar> \<le> 8640000000000000"
  shows "njs_date_prototype_set_fields (\<lambda>_. c) (njs_date_magic2 field len local) [Inr (Finite (of_int v))]
      (Date_this \<lparr>date_time = Some t\<rparr>) = Inr (Some t', \<lparr>date_time = Some t'\<rparr>)"
proof -
  let ?tm = "njs_destruct_date (\<lambda>_. c) (Some t) (local = 1)"
  have field: "field < 8" using assms(2) by (simp add: date_fields)
  have v: "?tm ! field = v"
    using assms(6) date_magic [OF field assms(5)] by (simp add: njs_date_prototype_get_field_def)
  have "trunc (of_int v) = v" by (simp add: trunc_def flip: of_int_minus)
  then have args: "date_args field [Inr (Finite (of_int v))] ?tm = Inr (Some ?tm)"
    using v by (simp add: list_update_same_conv) (metis list_update_id)
  have "njs_make_date (\<lambda>_. c) ?tm True = Some t'"
  proof -
    have "(if local = 1 then t - c * 60000 else t) + c * 60000 = t'" using assms(7) by simp
    then show ?thesis using assms(8) by (simp only: make_destruct Let_def if_True timeclip_int)
  qed
  then show ?thesis
    using assms(3) args by (simp add: njs_date_prototype_set_fields_def date_magic2 [OF field assms(4,5)] Let_def min_def)
qed

theorem date_set_own_value_witness:
  "njs_date_prototype_set_fields (\<lambda>_. -180) (njs_date_magic2 NJS_DATE_HR 4 0) [Inr (Finite 0)]
      (Date_this \<lparr>date_time = Some 0\<rparr>) = Inr (Some (-10800000), \<lparr>date_time = Some (-10800000)\<rparr>)"
proof -
  have "njs_destruct_date (\<lambda>_. -180) (Some 0) False = [4, 1970, 0, 1, 0, 0, 0, 0]"
    using year_from_days_unique [of 0 1970] days_in_year_bounds [of 1970]
    by (simp add: njs_destruct_date_def Let_def njs_days_from_year_def destruct_month.simps [of 1970 0 0]
        days_in_month_def month_days_def)
  then have "njs_date_prototype_get_field (\<lambda>_. -180) (njs_date_magic NJS_DATE_HR 0) (Date_this \<lparr>date_time = Some 0\<rparr>) =
      Inr (Some 0)"
    using date_magic [of NJS_DATE_HR 0] by (simp add: njs_date_prototype_get_field_def date_fields)
  from date_set_own_value [OF _ _ _ _ _ this refl, of 4] show ?thesis by (simp add: date_fields)
qed

end
