(* ===== verification/Njs_Date_Text.thy ===== *)
theory Njs_Date_Text
  imports Njs_Date "HOL-Library.Monad_Syntax"
begin

text \<open>
  Dates as texts (\<open>src/src/njs_date.c\<close>): the five output formats, written with the formatted
  output of \<^theory_text>\<open>Njs_Sprintf\<close>, the parser of the ISO, RFC 2822 and \<open>toString\<close> formats, the
  constructor and the methods of the prototype by name. A position in a text is the list of the
  bytes from there to the end.
\<close>

section \<open>Output\<close>

datatype njs_date_fmt_t =
    NJS_DATE_FMT_TO_TIME_STRING
  | NJS_DATE_FMT_TO_DATE_STRING
  | NJS_DATE_FMT_TO_STRING
  | NJS_DATE_FMT_TO_UTC_STRING
  | NJS_DATE_FMT_TO_ISO_STRING

definition NJS_DATE_TIME_LEN :: nat where
  "NJS_DATE_TIME_LEN = length (ascii ''Mon Sep 28 1970 12:00:00 GMT+0600 (XXXXX)'') + 1"

definition week_names :: "string list" where
  "week_names = [''Sun'', ''Mon'', ''Tue'', ''Wed'', ''Thu'', ''Fri'', ''Sat'']"

definition month_names :: "string list" where
  "month_names = [''Jan'', ''Feb'', ''Mar'', ''Apr'', ''May'', ''Jun'',
            ''Jul'', ''Aug'', ''Sep'', ''Oct'', ''Nov'', ''Dec'']"

text \<open>A C string as an argument, and output behind the bytes \<open>p\<close> that the buffer holds.\<close>

abbreviation c_string :: "string \<Rightarrow> sprintf_arg" where
  "c_string s \<equiv> Arg_text (Some (ascii s @ [0]))"

definition date_sprintf :: "bytes \<Rightarrow> string \<Rightarrow> sprintf_arg list \<Rightarrow> bytes option" where
  "date_sprintf p fmt args = map_option ((@) p) (njs_sprintf (NJS_DATE_TIME_LEN - length p) fmt args)"

definition njs_date_string :: "(int \<Rightarrow> int) \<Rightarrow> njs_date_fmt_t \<Rightarrow> time \<Rightarrow> bytes option" where
  "njs_date_string tz fmt time =
     (case time of
        None \<Rightarrow> Some (ascii ''Invalid Date'')
      | Some t \<Rightarrow>
          if fmt = NJS_DATE_FMT_TO_ISO_STRING \<or> fmt = NJS_DATE_FMT_TO_UTC_STRING then
            (let tm = njs_destruct_date tz time False;
                 year = tm ! NJS_DATE_YR
             in if fmt = NJS_DATE_FMT_TO_UTC_STRING then
                  date_sprintf [] ''%s, %02L %s %04d %02L:%02L:%02L GMT''
                    [c_string (week_names ! nat (tm ! NJS_DATE_WDAY)), Arg_int (tm ! NJS_DATE_DAY),
                     c_string (month_names ! nat (tm ! NJS_DATE_MON)), Arg_int year, Arg_int (tm ! NJS_DATE_HR),
                     Arg_int (tm ! NJS_DATE_MIN), Arg_int (tm ! NJS_DATE_SEC)]
                else
                  do {
                    p \<leftarrow> (if year \<ge> 0 \<and> year \<le> 9999 then date_sprintf [] ''%04d'' [Arg_int year]
                         else date_sprintf (if year > 0 then [0x2B] else []) ''%06d'' [Arg_int year]);
                    date_sprintf p ''-%02L-%02LT%02L:%02L:%02L.%03LZ''
                      [Arg_int (tm ! NJS_DATE_MON + 1), Arg_int (tm ! NJS_DATE_DAY), Arg_int (tm ! NJS_DATE_HR),
                       Arg_int (tm ! NJS_DATE_MIN), Arg_int (tm ! NJS_DATE_SEC), Arg_int (tm ! NJS_DATE_MSEC)]
                  })
          else
            (let tm = njs_destruct_date tz time True
             in do {
                  p \<leftarrow> (if fmt \<noteq> NJS_DATE_FMT_TO_TIME_STRING
                       then date_sprintf [] ''%s %s %02L %04L''
                              [c_string (week_names ! nat (tm ! NJS_DATE_WDAY)), c_string (month_names ! nat (tm ! NJS_DATE_MON)),
                               Arg_int (tm ! NJS_DATE_DAY), Arg_int (tm ! NJS_DATE_YR)]
                       else Some []);
                  if fmt \<noteq> NJS_DATE_FMT_TO_DATE_STRING
                  then (let tz = - tz t;
                            sign = (if tz < 0 then 0x2D else 0x2B);
                            tz = (if tz < 0 then - tz else tz);
                            p = (if p \<noteq> [] then p @ [0x20] else p)
                        in date_sprintf p ''%02L:%02L:%02L GMT%c%02d%02d''
                             [Arg_int (tm ! NJS_DATE_HR), Arg_int (tm ! NJS_DATE_MIN), Arg_int (tm ! NJS_DATE_SEC),
                              Arg_int sign, Arg_int (tz sdiv 60), Arg_int (tz smod 60)])
                  else Some p
                }))"

section \<open>Parsing\<close>

text \<open>\<open>size\<close> digits; a text with fewer has no value.\<close>

fun number_parse_loop :: "int \<Rightarrow> bytes \<Rightarrow> nat \<Rightarrow> (int \<times> bytes) option" where
  "number_parse_loop n [] sz = None"
| "number_parse_loop n (c # p) sz =
     (let c = c - 0x30
      in if c > 9 then None
         else (let n = n * 10 + uint c
               in if sz = 1 then Some (n, p) else number_parse_loop n p (sz - 1)))"

definition njs_date_number_parse :: "bytes \<Rightarrow> nat \<Rightarrow> (int \<times> bytes) option" where
  "njs_date_number_parse p sz = number_parse_loop 0 p sz"

fun njs_date_skip_week_day :: "bytes \<Rightarrow> bytes option" where
  "njs_date_skip_week_day [] = None"
| "njs_date_skip_week_day (c # p) = (if c = 0x20 then Some (c # p) else njs_date_skip_week_day p)"

definition njs_date_skip_spaces :: "bytes \<Rightarrow> bytes option" where
  "njs_date_skip_spaces p =
     (case p of [] \<Rightarrow> None | c # p \<Rightarrow> if c = 0x20 then Some (dropWhile (\<lambda>c. c = 0x20) p) else None)"

definition njs_date_month_parse :: "bytes \<Rightarrow> int" where
  "njs_date_month_parse p =
     (if 2 < length p then
        (let a = p ! 0; b = p ! 1; c = p ! 2 in
         if a = chr CHR ''J'' then
           (if b = chr CHR ''a'' \<and> c = chr CHR ''n'' then 0
            else if b = chr CHR ''u'' then (if c = chr CHR ''n'' then 5 else if c = chr CHR ''l'' then 6 else -1)
            else -1)
         else if a = chr CHR ''F'' then (if b = chr CHR ''e'' \<and> c = chr CHR ''b'' then 1 else -1)
         else if a = chr CHR ''M'' then
           (if b = chr CHR ''a'' then (if c = chr CHR ''r'' then 2 else if c = chr CHR ''y'' then 4 else -1) else -1)
         else if a = chr CHR ''A'' then
           (if b = chr CHR ''p'' \<and> c = chr CHR ''r'' then 3
            else if b = chr CHR ''u'' \<and> c = chr CHR ''g'' then 7 else -1)
         else if a = chr CHR ''S'' then (if b = chr CHR ''e'' \<and> c = chr CHR ''p'' then 8 else -1)
         else if a = chr CHR ''O'' then (if b = chr CHR ''c'' \<and> c = chr CHR ''t'' then 9 else -1)
         else if a = chr CHR ''N'' then (if b = chr CHR ''o'' \<and> c = chr CHR ''v'' then 10 else -1)
         else if a = chr CHR ''D'' then (if b = chr CHR ''e'' \<and> c = chr CHR ''c'' then 11 else -1)
         else -1)
      else -1)"

definition njs_date_time_parse :: "tm \<Rightarrow> bytes \<Rightarrow> (tm \<times> bytes) option" where
  "njs_date_time_parse tm p = do {
     (h, p) \<leftarrow> njs_date_number_parse p 2;
     if p = [] \<or> hd p \<noteq> 0x3A then None
     else do {
       (m, p) \<leftarrow> njs_date_number_parse (tl p) 2;
       if p = [] then Some (tm[NJS_DATE_HR := h, NJS_DATE_MIN := m], p)
       else if hd p \<noteq> 0x3A then None
       else do {
         (s, p) \<leftarrow> njs_date_number_parse (tl p) 2;
         Some (tm[NJS_DATE_HR := h, NJS_DATE_MIN := m, NJS_DATE_SEC := s], p)
       }
     }
   }"

text \<open>Minutes east of Greenwich, \<open>-1\<close> where the text is no offset.\<close>

definition njs_date_gmtoff_parse :: "bytes \<Rightarrow> int" where
  "njs_date_gmtoff_parse start =
     (if 4 < length start \<and> (hd start = 0x2B \<or> hd start = 0x2D) then
        (case njs_date_number_parse (tl start) 2 of
           None \<Rightarrow> -1
         | Some (hour, p) \<Rightarrow>
             (case njs_date_number_parse p 2 of
                None \<Rightarrow> -1
              | Some (mn, p) \<Rightarrow>
                  (let gmtoff = hour * 60 + mn
                   in if hd start = 0x2D then - gmtoff else gmtoff)))
      else -1)"

definition njs_date_rfc2822_string_parse :: "tm \<Rightarrow> bytes \<Rightarrow> time" where
  "njs_date_rfc2822_string_parse tm p =
     (let finish = (\<lambda>tm gmtoff. njs_make_date (\<lambda>_. 0) (tm[NJS_DATE_MSEC := - gmtoff * 60000]) False) in
      do {
        p \<leftarrow> njs_date_skip_spaces p;
        let mon = njs_date_month_parse p;
        let tm = tm[NJS_DATE_MON := mon];
        if mon < 0 then None
        else do {
          p \<leftarrow> njs_date_skip_spaces (drop 3 p);
          (yr, p) \<leftarrow> njs_date_number_parse p 4;
          let tm = tm[NJS_DATE_YR := yr];
          if p = [] then finish tm 0
          else do {
            p \<leftarrow> njs_date_skip_spaces p;
            if p = [] then finish tm 0
            else do {
              (tm, p) \<leftarrow> njs_date_time_parse tm p;
              if p = [] then finish tm 0
              else do {
                p \<leftarrow> njs_date_skip_spaces p;
                if p = [] then finish tm 0
                else if length p \<le> 2 then None
                else if take 3 p = ascii ''GMT'' \<or> take 3 p = ascii ''UTC'' then finish tm 0
                else (let gmtoff = njs_date_gmtoff_parse p
                      in if gmtoff = -1 then None else finish tm gmtoff)
              }
            }
          }
        }
      })"

definition njs_date_js_string_parse :: "tm \<Rightarrow> bytes \<Rightarrow> time" where
  "njs_date_js_string_parse tm p =
     (let finish = (\<lambda>tm. njs_make_date (\<lambda>_. 0) tm False) in
      do {
        p \<leftarrow> njs_date_skip_spaces p;
        (day, p) \<leftarrow> njs_date_number_parse p 2;
        let tm = tm[NJS_DATE_DAY := day];
        p \<leftarrow> njs_date_skip_spaces p;
        (yr, p) \<leftarrow> njs_date_number_parse p 4;
        let tm = tm[NJS_DATE_YR := yr];
        if p = [] then finish tm
        else do {
          p \<leftarrow> njs_date_skip_spaces p;
          if p = [] then finish tm
          else do {
            (tm, p) \<leftarrow> njs_date_time_parse tm p;
            if p = [] then finish tm
            else do {
              p \<leftarrow> njs_date_skip_spaces p;
              if p = [] then finish tm
              else if take 3 p = ascii ''GMT'' then
                (let gmtoff = njs_date_gmtoff_parse (drop 3 p)
                 in if gmtoff \<noteq> -1 then finish (tm[NJS_DATE_MSEC := - gmtoff * 60000]) else None)
              else None
            }
          }
        }
      })"

text \<open>The ISO format behind the first four digits; \<open>negative\<close>: the text begins with a minus sign.\<close>

definition date_iso_time_parse :: "(int \<Rightarrow> int) \<Rightarrow> tm \<Rightarrow> bytes \<Rightarrow> time" where
  "date_iso_time_parse tz tm p =
     (let utc = (last p = chr CHR ''Z'');
          p = (if utc then butlast (tl p) else tl p)
      in do {
        (tm, p) \<leftarrow> njs_date_time_parse tm p;
        if p = [] then njs_make_date tz tm False
        else if hd p \<noteq> 0x2E then None
        else do {
          let p = tl p;
          let ms_length = (if length p < 3 then length p else 3);
          (ms, p) \<leftarrow> njs_date_number_parse p ms_length;
          _ \<leftarrow> (if p \<noteq> [] then njs_date_number_parse p (length p) else Some (0, p));
          let ms = (if ms_length = 1 then ms * 100 else if ms_length = 2 then ms * 10 else ms);
          njs_make_date tz (tm[NJS_DATE_MSEC := ms]) (\<not> utc)
        }
      })"

definition date_iso_date_parse :: "(int \<Rightarrow> int) \<Rightarrow> tm \<Rightarrow> bytes \<Rightarrow> time" where
  "date_iso_date_parse tz tm next = do {
     (mon, p) \<leftarrow> njs_date_number_parse (tl next) 2;
     let tm = tm[NJS_DATE_MON := mon - 1];
     if p = [] then njs_make_date tz tm False
     else if hd p \<noteq> 0x2D then None
     else do {
       (day, p) \<leftarrow> njs_date_number_parse (tl p) 2;
       let tm = tm[NJS_DATE_DAY := day];
       if p = [] then njs_make_date tz tm False
       else if hd p \<noteq> chr CHR ''T'' then None
       else date_iso_time_parse tz tm p
     }
   }"

definition date_iso_year_parse :: "(int \<Rightarrow> int) \<Rightarrow> bool \<Rightarrow> tm \<Rightarrow> bytes \<Rightarrow> time" where
  "date_iso_year_parse tz negative tm next =
     (if next = [] then njs_make_date tz tm False
      else if hd next \<noteq> 0x2D then do {
        (ext, next) \<leftarrow> njs_date_number_parse next 2;
        let yr = tm ! NJS_DATE_YR * 100 + ext;
        if negative \<and> yr = 0 then None
        else do {
          let tm = tm[NJS_DATE_YR := if negative then - yr else yr];
          if next = [] then njs_make_date tz tm False
          else if hd next \<noteq> 0x2D then None
          else date_iso_date_parse tz tm next
        }
      }
      else date_iso_date_parse tz tm next)"

text \<open>The loop over the other formats, which runs a second time behind the name of a week day.\<close>

function date_words_parse :: "bool \<Rightarrow> tm \<Rightarrow> bytes \<Rightarrow> time" where
  "date_words_parse week tm p =
     (case njs_date_number_parse p 2 of
        Some (day, next) \<Rightarrow> njs_date_rfc2822_string_parse (tm[NJS_DATE_DAY := day]) next
      | None \<Rightarrow>
          (let mon = njs_date_month_parse p
           in if mon \<ge> 0 then njs_date_js_string_parse (tm[NJS_DATE_MON := mon]) (drop 3 p)
              else if \<not> week then None
              else do {
                p \<leftarrow> njs_date_skip_week_day p;
                p \<leftarrow> njs_date_skip_spaces p;
                date_words_parse False tm p
              }))"
  by pat_completeness auto
termination by (relation "measure (\<lambda>(week, tm, p). of_bool week)") auto

declare date_words_parse.simps [simp del]

definition njs_date_string_parse :: "(int \<Rightarrow> int) \<Rightarrow> bytes \<Rightarrow> time" where
  "njs_date_string_parse tz date =
     (if date = [] then None
      else
        (let sign = (hd date = 0x2B \<or> hd date = 0x2D);
             p = (if sign then tl date else date);
             tm = (replicate NJS_DATE_MAX_FIELDS 0)[NJS_DATE_DAY := 1]
         in case njs_date_number_parse p 4 of
              Some (yr, next) \<Rightarrow> date_iso_year_parse tz (hd date = 0x2D) (tm[NJS_DATE_YR := yr]) next
            | None \<Rightarrow> if sign then None else date_words_parse True tm p))"

section \<open>Construction and methods by name\<close>

text \<open>The argument of the constructor after its conversion to a primitive value.\<close>

datatype constructor_arg = Date_arg njs_date_t | String_arg bytes | Number_arg number

datatype constructor_result = New_date njs_date_t | Date_text "bytes option"

definition njs_date_constructor ::
    "(int \<Rightarrow> int) \<Rightarrow> int \<Rightarrow> bool \<Rightarrow> (njs_error + constructor_arg) \<Rightarrow> date_arg list \<Rightarrow> njs_error + constructor_result" where
  "njs_date_constructor tz gettime ctor primitive args =
     (if \<not> ctor then Inr (Date_text (njs_date_string tz NJS_DATE_FMT_TO_STRING (Some gettime)))
      else
        (case (case args of
                 [] \<Rightarrow> Inr (Some gettime)
               | [_] \<Rightarrow>
                   (case primitive of
                      Inl e \<Rightarrow> Inl e
                    | Inr (Date_arg d) \<Rightarrow> Inr (date_time d)
                    | Inr (String_arg s) \<Rightarrow> Inr (njs_date_string_parse tz s)
                    | Inr (Number_arg x) \<Rightarrow> Inr (njs_timeclip x))
               | _ \<Rightarrow> date_from_args tz args True) of
           Inl e \<Rightarrow> Inl e
         | Inr time \<Rightarrow> Inr (New_date \<lparr>date_time = time\<rparr>)))"

definition njs_date_parse :: "(int \<Rightarrow> int) \<Rightarrow> (njs_error + bytes) option \<Rightarrow> njs_error + time" where
  "njs_date_parse tz arg =
     (case arg of
        None \<Rightarrow> Inr None
      | Some (Inl e) \<Rightarrow> Inl e
      | Some (Inr s) \<Rightarrow> Inr (njs_date_string_parse tz s))"

definition njs_date_prototype_to_string ::
    "(int \<Rightarrow> int) \<Rightarrow> njs_date_fmt_t \<Rightarrow> date_this \<Rightarrow> njs_error + bytes option" where
  "njs_date_prototype_to_string tz fmt this =
     (case this of
        Other_this type \<Rightarrow> Inl (not_a_date type)
      | Date_this d \<Rightarrow> Inr (njs_date_string tz fmt (date_time d)))"

definition njs_date_to_string :: "(int \<Rightarrow> int) \<Rightarrow> date_this \<Rightarrow> njs_error + bytes option" where
  "njs_date_to_string tz date =
     (case date of
        Other_this type \<Rightarrow> Inl (not_a_date type)
      | Date_this d \<Rightarrow> Inr (njs_date_string tz NJS_DATE_FMT_TO_ISO_STRING (date_time d)))"

section \<open>Digits and names, written and read\<close>

lemma fixed_digits_Nil [simp]: "fixed_digits w n = [] \<longleftrightarrow> w = 0"
  using length_fixed_digits [of w n] by (cases "fixed_digits w n") auto

lemma digit_value: "(of_nat (48 + n mod 10) :: u8) - 0x30 = of_nat (n mod 10)"
  "\<not> (of_nat (n mod 10) :: u8) > 9" "uint (of_nat (n mod 10) :: u8) = int (n mod 10)"
proof -
  have "n mod 10 < 10" by simp
  then have u: "unat (of_nat (n mod 10) :: u8) = n mod 10"
    by (simp add: unsigned_of_nat take_bit_nat_eq_self)
  then show "\<not> (of_nat (n mod 10) :: u8) > 9" by (simp add: word_less_nat_alt not_less)
  show "uint (of_nat (n mod 10) :: u8) = int (n mod 10)" by (simp only: uint_nat u)
qed simp

lemma number_parse_fixed_loop:
  "0 < j \<Longrightarrow> number_parse_loop k (fixed_digits w n @ q) (w + j) = number_parse_loop (k * 10 ^ w + int (n mod 10 ^ w)) q j"
proof (induction w arbitrary: n q j)
  case (Suc w)
  have "number_parse_loop k (fixed_digits (Suc w) n @ q) (Suc w + j) =
      number_parse_loop (k * 10 ^ w + int (n div 10 mod 10 ^ w)) (of_nat (48 + n mod 10) # q) (Suc j)"
    using Suc.IH [of "Suc j" "n div 10" "of_nat (48 + n mod 10) # q"] by simp
  also have "\<dots> = number_parse_loop ((k * 10 ^ w + int (n div 10 mod 10 ^ w)) * 10 + int (n mod 10)) q j"
    using Suc.prems by (simp only: number_parse_loop.simps Let_def digit_value) simp
  also have "(k * 10 ^ w + int (n div 10 mod 10 ^ w)) * 10 + int (n mod 10) = k * 10 ^ Suc w + int (n mod 10 ^ Suc w)"
    by (simp add: mod_mult2_eq algebra_simps)
  finally show ?case .
qed simp

lemma number_parse_fixed [simp]:
  "0 < w \<Longrightarrow> n < 10 ^ w \<Longrightarrow> njs_date_number_parse (fixed_digits w n @ p) w = Some (int n, p)"
proof -
  assume w: "0 < w" "n < 10 ^ w"
  then obtain v where v: "w = Suc v" by (cases w) auto
  have "njs_date_number_parse (fixed_digits w n @ p) w =
      number_parse_loop (int (n div 10 mod 10 ^ v)) (of_nat (48 + n mod 10) # p) 1"
    using number_parse_fixed_loop [of 1 0 v "n div 10" "of_nat (48 + n mod 10) # p"]
    by (simp add: njs_date_number_parse_def v)
  also have "\<dots> = Some (int (n div 10 mod 10 ^ v) * 10 + int (n mod 10), p)"
    by (simp only: number_parse_loop.simps Let_def digit_value) simp
  also have "int (n div 10 mod 10 ^ v) * 10 + int (n mod 10) = int (n mod 10 ^ w)"
    by (simp add: v mod_mult2_eq)
  finally show ?thesis using w(2) by simp
qed

lemma number_parse_fixed_end [simp]:
  "0 < w \<Longrightarrow> n < 10 ^ w \<Longrightarrow> njs_date_number_parse (fixed_digits w n) w = Some (int n, [])"
  using number_parse_fixed [of w n "[]"] by simp

lemma hd_fixed_digits: "0 < w \<Longrightarrow> 48 \<le> unat (hd (fixed_digits w n)) \<and> unat (hd (fixed_digits w n)) \<le> 57"
  by (induction w n rule: fixed_digits.induct) (auto simp: hd_append simp del: of_nat_add)

lemma sprintf_two [simp]:
  "0 \<le> v \<Longrightarrow> v < 100 \<Longrightarrow> 2 \<le> room \<Longrightarrow>
    sprintf_directive room (CHR ''0'' # CHR ''2'' # CHR ''L'' # fmt) (Arg_int v # args) = Some (fixed_digits 2 (nat v), fmt, args)"
  "0 \<le> v \<Longrightarrow> v < 100 \<Longrightarrow> 2 \<le> room \<Longrightarrow>
    sprintf_directive room (CHR ''0'' # CHR ''2'' # CHR ''d'' # fmt) (Arg_int v # args) = Some (fixed_digits 2 (nat v), fmt, args)"
  "0 \<le> v \<Longrightarrow> v < 1000 \<Longrightarrow> 3 \<le> room \<Longrightarrow>
    sprintf_directive room (CHR ''0'' # CHR ''3'' # CHR ''L'' # fmt) (Arg_int v # args) = Some (fixed_digits 3 (nat v), fmt, args)"
  "0 \<le> v \<Longrightarrow> v < 10000 \<Longrightarrow> 4 \<le> room \<Longrightarrow>
    sprintf_directive room (CHR ''0'' # CHR ''4'' # CHR ''d'' # fmt) (Arg_int v # args) = Some (fixed_digits 4 (nat v), fmt, args)"
  "0 \<le> v \<Longrightarrow> v < 10000 \<Longrightarrow> 4 \<le> room \<Longrightarrow>
    sprintf_directive room (CHR ''0'' # CHR ''4'' # CHR ''L'' # fmt) (Arg_int v # args) = Some (fixed_digits 4 (nat v), fmt, args)"
  "0 \<le> v \<Longrightarrow> v < 1000000 \<Longrightarrow> 6 \<le> room \<Longrightarrow>
    sprintf_directive room (CHR ''0'' # CHR ''6'' # CHR ''d'' # fmt) (Arg_int v # args) = Some (fixed_digits 6 (nat v), fmt, args)"
  by (simp_all add: sprintf_directive_fixed)

lemma sprintf_six_negative [simp]:
  "v < 0 \<Longrightarrow> - 1000000 < v \<Longrightarrow> 7 \<le> room \<Longrightarrow>
    sprintf_directive room (CHR ''0'' # CHR ''6'' # CHR ''d'' # fmt) (Arg_int v # args) =
      Some (0x2D # fixed_digits 6 (nat (- v)), fmt, args)"
  by (simp add: sprintf_directive_fixed)

declare sprintf_directive_text [simp] sprintf_directive_char [simp]

lemma all_names:
  "(\<forall>i < 12. P i) \<longleftrightarrow> P 0 \<and> P 1 \<and> P 2 \<and> P 3 \<and> P 4 \<and> P 5 \<and> P 6 \<and> P 7 \<and> P 8 \<and> P 9 \<and> P 10 \<and> P 11"
  "(\<forall>i < 7. P i) \<longleftrightarrow> P 0 \<and> P 1 \<and> P 2 \<and> P 3 \<and> P 4 \<and> P 5 \<and> P 6" for P :: "nat \<Rightarrow> bool"
  by (auto simp: eval_nat_numeral All_less_Suc)

lemma month_name:
  assumes "0 \<le> mon" "mon < 12"
  obtains a b c where "month_names ! nat mon = [a, b, c]" "0 \<notin> set (ascii [a, b, c])" "chr a \<noteq> 0x20"
    "\<And>p. njs_date_month_parse (chr a # chr b # chr c # p) = mon" "\<And>p. njs_date_number_parse (chr a # p) 2 = None"
proof -
  let ?ok = "\<lambda>i. \<exists>a b c. month_names ! i = [a, b, c] \<and> 0 \<notin> set (ascii [a, b, c]) \<and> chr a \<noteq> 0x20 \<and>
    (\<forall>p. njs_date_month_parse (chr a # chr b # chr c # p) = int i) \<and> (\<forall>p. njs_date_number_parse (chr a # p) 2 = None)"
  have "\<forall>i < 12. ?ok i"
    unfolding all_names by (simp add: month_names_def njs_date_month_parse_def njs_date_number_parse_def)
  moreover have "nat mon < 12" using assms by simp
  ultimately have "?ok (nat mon)" by blast
  with assms that show ?thesis by auto
qed

lemma week_name:
  assumes "0 \<le> wd" "wd < 7"
  obtains a b c where "week_names ! nat wd = [a, b, c]" "0 \<notin> set (ascii [a, b, c])" "0x20 \<notin> set (ascii [a, b, c])" "chr a \<noteq> 0x2B" "chr a \<noteq> 0x2D"
    "\<And>p. njs_date_month_parse (chr a # chr b # chr c # p) = - 1" "\<And>p n. njs_date_number_parse (chr a # p) (Suc n) = None"
proof -
  let ?ok = "\<lambda>i. \<exists>a b c. week_names ! i = [a, b, c] \<and> 0 \<notin> set (ascii [a, b, c]) \<and> 0x20 \<notin> set (ascii [a, b, c]) \<and> chr a \<noteq> 0x2B \<and> chr a \<noteq> 0x2D \<and>
    (\<forall>p. njs_date_month_parse (chr a # chr b # chr c # p) = - 1) \<and> (\<forall>p n. njs_date_number_parse (chr a # p) (Suc n) = None)"
  have "\<forall>i < 7. ?ok i"
    unfolding all_names by (simp add: week_names_def njs_date_month_parse_def njs_date_number_parse_def)
  moreover have "nat wd < 7" using assms by simp
  ultimately have "?ok (nat wd)" by blast
  with that show ?thesis by auto
qed

section \<open>Texts of dates are read back\<close>

lemma time_len [simp]: "NJS_DATE_TIME_LEN = 42"
  by (simp add: NJS_DATE_TIME_LEN_def)

lemma year_bounds:
  assumes "civil y m d" "njs_make_day y m d = n" "\<bar>n\<bar> \<le> 100000000"
  shows "- 300000 < y \<and> y < 300000"
proof -
  obtain S where S: "(\<Sum>i < nat m. days_in_month y i) = S" by simp
  have "nat m \<le> 11" using assms(1) by (simp add: civil_def nat_le_iff)
  then have "0 \<le> S" "S + d \<le> 366"
    using assms(1) S month_sum_le [of "nat m" y] days_in_year_bounds [of y]
    by (auto simp: civil_def intro!: sum_nonneg days_in_month_nonneg)
  moreover have "njs_days_from_year y + S + d - 1 = n" "1 \<le> d"
    using assms(1,2) S by (simp_all add: civil_def njs_make_day_eq)
  moreover have "njs_days_from_year y = 365 * (y - 1970) + (y - 1969) div 4 - (y - 1901) div 100 + (y - 1601) div 400"
    by (simp add: njs_days_from_year_def)
  moreover have "4 * ((y - 1969) div 4) \<le> y - 1969 \<and> y - 1969 < 4 * ((y - 1969) div 4) + 4"
    "100 * ((y - 1901) div 100) \<le> y - 1901 \<and> y - 1901 < 100 * ((y - 1901) div 100) + 100"
    "400 * ((y - 1601) div 400) \<le> y - 1601 \<and> y - 1601 < 400 * ((y - 1601) div 400) + 400"
    by linarith+
  ultimately show ?thesis using assms(3) by (auto simp: abs_le_iff)
qed

text \<open>What the ISO format writes.\<close>

definition iso_text :: "int \<Rightarrow> int \<Rightarrow> int \<Rightarrow> int \<Rightarrow> int \<Rightarrow> int \<Rightarrow> int \<Rightarrow> bytes" where
  "iso_text y mon d h m s ms =
     (if 0 \<le> y \<and> y \<le> 9999 then fixed_digits 4 (nat y)
      else (if 0 < y then 0x2B else 0x2D) # fixed_digits 6 (nat \<bar>y\<bar>)) @
     0x2D # fixed_digits 2 (nat (mon + 1)) @ 0x2D # fixed_digits 2 (nat d) @ 0x54 # fixed_digits 2 (nat h) @
     0x3A # fixed_digits 2 (nat m) @ 0x3A # fixed_digits 2 (nat s) @ 0x2E # fixed_digits 3 (nat ms) @ [0x5A]"

lemma civil_bounds: "civil y m d \<Longrightarrow> 0 \<le> m \<and> m < 12 \<and> 1 \<le> d \<and> d \<le> 31"
proof -
  assume c: "civil y m d"
  then have "nat m < 12" by (simp add: civil_def nat_less_iff)
  with c days_in_month_bounds [of "nat m" y] show ?thesis by (auto simp: civil_def)
qed

lemma iso_string:
  assumes "njs_destruct_date tz (Some t) False = [wd, y, mon, d, h, m, s, ms]"
    "civil y mon d" "day_clock h m s ms" "- 300000 < y" "y < 300000"
  shows "njs_date_string tz NJS_DATE_FMT_TO_ISO_STRING (Some t) = Some (iso_text y mon d h m s ms)"
proof -
  have tail: "date_sprintf p ''-%02L-%02LT%02L:%02L:%02L.%03LZ''
      [Arg_int (mon + 1), Arg_int d, Arg_int h, Arg_int m, Arg_int s, Arg_int ms] =
    Some (p @ 0x2D # fixed_digits 2 (nat (mon + 1)) @ 0x2D # fixed_digits 2 (nat d) @ 0x54 # fixed_digits 2 (nat h) @
     0x3A # fixed_digits 2 (nat m) @ 0x3A # fixed_digits 2 (nat s) @ 0x2E # fixed_digits 3 (nat ms) @ [0x5A])"
    if "length p \<le> 7" for p
    using civil_bounds [OF assms(2)] assms(3) that
    by (simp add: date_sprintf_def njs_sprintf_def day_clock_def)
  consider "0 \<le> y" "y \<le> 9999" | "9999 < y" | "y < 0" by linarith
  then show ?thesis
  proof cases
    case 1
    then have "date_sprintf [] ''%04d'' [Arg_int y] = Some (fixed_digits 4 (nat y))"
      by (simp add: date_sprintf_def njs_sprintf_def)
    with 1 show ?thesis by (simp add: njs_date_string_def assms(1) date_fields tail iso_text_def)
  next
    case 2
    then have "date_sprintf [0x2B] ''%06d'' [Arg_int y] = Some (0x2B # fixed_digits 6 (nat y))"
      using assms(5) by (simp add: date_sprintf_def njs_sprintf_def)
    with 2 show ?thesis by (simp add: njs_date_string_def assms(1) date_fields tail iso_text_def)
  next
    case 3
    then have "date_sprintf [] ''%06d'' [Arg_int y] = Some (0x2D # fixed_digits 6 (nat (- y)))"
      using assms(4) by (simp add: date_sprintf_def njs_sprintf_def)
    with 3 show ?thesis by (simp add: njs_date_string_def assms(1) date_fields tail iso_text_def)
  qed
qed

lemma time_parse_fixed:
  assumes "h < 100" "m < 100" "s < 100" "length tm = 8"
  shows "njs_date_time_parse tm (fixed_digits 2 h @ 0x3A # fixed_digits 2 m @ 0x3A # fixed_digits 2 s @ p) =
    Some (tm[NJS_DATE_HR := int h, NJS_DATE_MIN := int m, NJS_DATE_SEC := int s], p)"
  using assms by (simp add: njs_date_time_parse_def)

lemma iso_time_parse:
  assumes "h < 100" "m < 100" "s < 100" "ms < 1000" "length tm = 8"
  shows "date_iso_time_parse tz tm (0x54 # fixed_digits 2 h @ 0x3A # fixed_digits 2 m @ 0x3A # fixed_digits 2 s @
      0x2E # fixed_digits 3 ms @ [0x5A]) =
    njs_make_date tz (tm[NJS_DATE_HR := int h, NJS_DATE_MIN := int m, NJS_DATE_SEC := int s, NJS_DATE_MSEC := int ms]) False"
  using assms by (simp add: date_iso_time_parse_def butlast_append time_parse_fixed Let_def)

lemma iso_date_parse:
  assumes "mon < 99" "d < 100" "h < 100" "m < 100" "s < 100" "ms < 1000" "length tm = 8"
  shows "date_iso_date_parse tz tm (0x2D # fixed_digits 2 (mon + 1) @ 0x2D # fixed_digits 2 d @ 0x54 # fixed_digits 2 h @
      0x3A # fixed_digits 2 m @ 0x3A # fixed_digits 2 s @ 0x2E # fixed_digits 3 ms @ [0x5A]) =
    njs_make_date tz (tm[NJS_DATE_MON := int mon, NJS_DATE_DAY := int d, NJS_DATE_HR := int h, NJS_DATE_MIN := int m,
      NJS_DATE_SEC := int s, NJS_DATE_MSEC := int ms]) False"
  using assms by (simp add: date_iso_date_parse_def iso_time_parse)

lemma fixed_digits_split: "fixed_digits (w + 2) n = fixed_digits w (n div 100) @ fixed_digits 2 (n mod 100)"
proof -
  have "n mod 100 = 10 * (n div 10 mod 10) + n mod 10" using mod_mult2_eq [of n 10 10] by simp
  then have "n mod 100 div 10 = n div 10 mod 10" "n mod 100 mod 10 = n mod 10" by simp_all
  moreover have "n div 10 div 10 = n div 100" using div_mult2_eq [of n 10 10] by simp
  ultimately show ?thesis by (simp add: numeral_2_eq_2 del: of_nat_add)
qed

lemma make_date_utc: "njs_make_date tz tm False = njs_make_date tz' tm False"
  by (simp add: njs_make_date_def)

lemma iso_year_six:
  assumes "negative \<longrightarrow> n \<noteq> 0" "length tm = 8"
  shows "date_iso_year_parse tz negative (tm[NJS_DATE_YR := int (n div 100)]) (fixed_digits 2 (n mod 100) @ 0x2D # rest) =
    date_iso_date_parse tz (tm[NJS_DATE_YR := if negative then - int n else int n]) (0x2D # rest)"
proof -
  have "int (n div 100 * 100 + n mod 100) = int n" by (simp only: div_mult_mod_eq)
  then have yr: "int (n div 100) * 100 + int (n mod 100) = int n" by (simp only: of_nat_add of_nat_mult of_nat_numeral)
  have "hd (fixed_digits 2 (n mod 100) @ 0x2D # rest) \<noteq> 0x2D"
    using hd_fixed_digits [of 2 "n mod 100"] by (auto simp: u8_eq_iff)
  moreover have "njs_date_number_parse (fixed_digits 2 (n mod 100) @ 0x2D # rest) 2 = Some (int (n mod 100), 0x2D # rest)"
    by simp
  moreover have "(tm[NJS_DATE_YR := int (n div 100)]) ! NJS_DATE_YR = int (n div 100)"
    using assms(2) by (simp add: date_fields)
  ultimately show ?thesis
    using assms(1) unfolding date_iso_year_parse_def by (auto simp: yr Let_def simp del: number_parse_fixed)
qed

lemma iso_parse:
  assumes "civil y mon d" "day_clock h m s ms" "- 300000 < y" "y < 300000"
  shows "njs_date_string_parse tz (iso_text y mon d h m s ms) = njs_make_date tz [0, y, mon, d, h, m, s, ms] False"
proof -
  note c = civil_bounds [OF assms(1)] assms(2) [unfolded day_clock_def]
  have mon: "nat (mon + 1) = nat mon + 1" using c by linarith
  let ?tm = "[0, 0, 0, 1, 0, 0, 0, 0] :: int list"
  have tm: "(replicate NJS_DATE_MAX_FIELDS 0)[NJS_DATE_DAY := 1] = ?tm" by (simp add: date_fields eval_nat_numeral)
  let ?tail = "0x2D # fixed_digits 2 (nat (mon + 1)) @ 0x2D # fixed_digits 2 (nat d) @ 0x54 # fixed_digits 2 (nat h) @
     0x3A # fixed_digits 2 (nat m) @ 0x3A # fixed_digits 2 (nat s) @ 0x2E # fixed_digits 3 (nat ms) @ [0x5A] :: bytes"
  have date: "date_iso_date_parse tz [a, yr, 0, 1, 0, 0, 0, 0] ?tail = njs_make_date tz [a, yr, mon, d, h, m, s, ms] False" for a yr
    using c iso_date_parse [of "nat mon" "nat d" "nat h" "nat m" "nat s" "nat ms" "[a, yr, 0, 1, 0, 0, 0, 0]" tz]
    by (simp add: mon date_fields nat_less_iff)
  have sign: "hd (fixed_digits 4 n) \<noteq> 0x2B" "hd (fixed_digits 4 n) \<noteq> 0x2D" for n
    using hd_fixed_digits [of 4 n] by (auto simp: u8_eq_iff)
  show ?thesis
  proof (cases "0 \<le> y \<and> y \<le> 9999")
    case True
    then show ?thesis
      unfolding njs_date_string_parse_def iso_text_def Let_def tm
      using sign by (simp add: date_iso_year_parse_def date date_fields nat_less_iff)
  next
    case False
    let ?n = "nat \<bar>y\<bar>"
    have n: "?n div 100 < 10 ^ 4" using assms(3,4) by auto
    have six: "fixed_digits 6 ?n = fixed_digits 4 (?n div 100) @ fixed_digits 2 (?n mod 100)"
      using fixed_digits_split [of 4 ?n] by simp
    have year: "date_iso_year_parse tz negative [0, int (?n div 100), 0, 1, 0, 0, 0, 0] (fixed_digits 2 (?n mod 100) @ ?tail) =
        njs_make_date tz [0, if negative then - int ?n else int ?n, mon, d, h, m, s, ms] False" if "negative \<longrightarrow> y < 0" for negative
      using iso_year_six [of negative ?n ?tm tz] that by (cases negative) (simp_all add: date date_fields)
    have parse: "njs_date_number_parse (fixed_digits 4 (?n div 100) @ q) 4 = Some (int (?n div 100), q)" for q
      using n by simp
    show ?thesis
    proof (cases "0 < y")
      case True
      show ?thesis
        unfolding njs_date_string_parse_def iso_text_def Let_def tm six
        using True False year [of False] parse by (simp add: date_fields del: number_parse_fixed)
    next
      case neg: False
      then have "y < 0" using False by auto
      show ?thesis
        unfolding njs_date_string_parse_def iso_text_def Let_def tm six
        using \<open>y < 0\<close> year [of True] parse by (simp add: date_fields del: number_parse_fixed)
    qed
  qed
qed

text \<open>
  C37. The ISO text of every valid time is read back as that time, whatever the local time
  zone, four digit years and the six digit years before and behind them alike.
\<close>

theorem date_iso_roundtrip:
  assumes "\<bar>t\<bar> \<le> 8640000000000000"
  shows "\<exists>s. njs_date_string tz NJS_DATE_FMT_TO_ISO_STRING (Some t) = Some s \<and> njs_date_string_parse tz s = Some t"
proof -
  obtain y mon d h m s ms where f:
    "njs_destruct_date tz (Some t) False = [(t div 86400000 + 4) mod 7, y, mon, d, h, m, s, ms]"
    "civil y mon d" "day_clock h m s ms" "njs_make_day y mon d = t div 86400000"
    "((h * 60 + m) * 60 + s) * 1000 + ms = t mod 86400000"
    by (rule destruct_fields [where t = t and time = "Some t" and local = False and tz = tz]) (simp, blast)
  have "\<bar>t div 86400000\<bar> \<le> 100000000" using assms by linarith
  then have y: "- 300000 < y \<and> y < 300000" using year_bounds [OF f(2,4)] by simp
  have "njs_make_day y mon d * 86400000 + (((h * 60 + m) * 60 + s) * 1000 + ms) = t" using f(4,5) by simp
  from make_date_fields [OF this, of tz 0 False] show ?thesis
    using y iso_string [OF f(1-3)] iso_parse [OF f(2,3)] assms by (simp add: timeclip_int)
qed

theorem date_iso_roundtrip_witness:
  "\<exists>s. njs_date_string (\<lambda>_. 0) NJS_DATE_FMT_TO_ISO_STRING (Some (- 8640000000000000)) = Some s \<and>
    njs_date_string_parse (\<lambda>_. 0) s = Some (- 8640000000000000)"
  by (rule date_iso_roundtrip) simp

subsection \<open>The formats with names\<close>

lemma sprintf_name [simp]:
  "0 \<notin> {a, b, c} \<Longrightarrow> 3 \<le> room \<Longrightarrow>
    sprintf_directive room (CHR ''s'' # fmt) (Arg_text (Some [a, b, c, 0]) # args) = Some ([a, b, c], fmt, args)"
  using sprintf_directive_text [of "[a, b, c]" room fmt args] by simp

definition clock_text :: "int \<Rightarrow> int \<Rightarrow> int \<Rightarrow> bytes" where
  "clock_text h m s = fixed_digits 2 (nat h) @ 0x3A # fixed_digits 2 (nat m) @ 0x3A # fixed_digits 2 (nat s)"

lemma utc_string:
  assumes "njs_destruct_date tz (Some t) False = [wd, y, mon, d, h, m, s, ms]"
    "civil y mon d" "day_clock h m s ms" "0 \<le> y" "y \<le> 9999" "0 \<le> wd" "wd < 7"
  shows "njs_date_string tz NJS_DATE_FMT_TO_UTC_STRING (Some t) = Some (ascii (week_names ! nat wd) @
    0x2C # 0x20 # fixed_digits 2 (nat d) @ 0x20 # ascii (month_names ! nat mon) @ 0x20 # fixed_digits 4 (nat y) @
    0x20 # clock_text h m s @ ascii '' GMT'')"
proof -
  obtain a b c where w: "week_names ! nat wd = [a, b, c]" "0 \<notin> set (ascii [a, b, c])"
    by (rule week_name [OF assms(6,7)]) blast
  obtain a' b' c' where n: "month_names ! nat mon = [a', b', c']" "0 \<notin> set (ascii [a', b', c'])"
    using civil_bounds [OF assms(2)] by (elim conjE) (erule (1) month_name, blast)
  show ?thesis
    using civil_bounds [OF assms(2)] assms(3-5) w n
    by (simp add: njs_date_string_def assms(1) date_fields date_sprintf_def njs_sprintf_def day_clock_def clock_text_def)
qed

lemma local_string:
  assumes "njs_destruct_date tz (Some t) True = [wd, y, mon, d, h, m, s, ms]"
    "civil y mon d" "day_clock h m s ms" "0 \<le> y" "y \<le> 9999" "0 \<le> wd" "wd < 7" "\<bar>tz t\<bar> < 6000"
  shows "njs_date_string tz NJS_DATE_FMT_TO_STRING (Some t) = Some (ascii (week_names ! nat wd) @
    0x20 # ascii (month_names ! nat mon) @ 0x20 # fixed_digits 2 (nat d) @ 0x20 # fixed_digits 4 (nat y) @
    0x20 # clock_text h m s @ ascii '' GMT'' @ (if 0 < tz t then 0x2D else 0x2B) #
    fixed_digits 2 (nat (\<bar>tz t\<bar> div 60)) @ fixed_digits 2 (nat (\<bar>tz t\<bar> mod 60)))"
proof -
  obtain a b c where w: "week_names ! nat wd = [a, b, c]" "0 \<notin> set (ascii [a, b, c])"
    by (rule week_name [OF assms(6,7)]) blast
  obtain a' b' c' where n: "month_names ! nat mon = [a', b', c']" "0 \<notin> set (ascii [a', b', c'])"
    using civil_bounds [OF assms(2)] by (elim conjE) (erule (1) month_name, blast)
  have z: "0 \<le> \<bar>tz t\<bar> div 60" "\<bar>tz t\<bar> div 60 < 100" "0 \<le> \<bar>tz t\<bar> mod 60" "\<bar>tz t\<bar> mod 60 < 100"
    using assms(8) by (auto intro: order_less_trans [OF pos_mod_bound])
  show ?thesis
    using civil_bounds [OF assms(2)] assms(3-5) w n z
    by (simp add: njs_date_string_def assms(1) date_fields date_sprintf_def njs_sprintf_def day_clock_def clock_text_def Let_def)
qed

lemma skip_spaces_one:
  "hd p \<noteq> 0x20 \<Longrightarrow> njs_date_skip_spaces (0x20 # p) = Some p"
  by (cases p) (simp_all add: njs_date_skip_spaces_def)

lemma skip_spaces_fixed [simp]:
  "0 < w \<Longrightarrow> njs_date_skip_spaces (0x20 # fixed_digits w n @ p) = Some (fixed_digits w n @ p)"
  using hd_fixed_digits [of w n] by (intro skip_spaces_one) (auto simp: u8_eq_iff)

lemma skip_spaces_letter [simp]:
  "c \<noteq> 0x20 \<Longrightarrow> njs_date_skip_spaces (0x20 # c # p) = Some (c # p)"
  by (simp add: skip_spaces_one)

lemma parse_behind_week_day:
  assumes "0 \<le> wd" "wd < 7" "p \<noteq> []" "hd p = 0x20 \<or> hd p = 0x2C \<and> tl p \<noteq> [] \<and> hd (tl p) = 0x20"
    "njs_date_skip_spaces (if hd p = 0x20 then p else tl p) = Some q"
  shows "njs_date_string_parse tz (ascii (week_names ! nat wd) @ p) =
    date_words_parse False ((replicate NJS_DATE_MAX_FIELDS 0)[NJS_DATE_DAY := 1]) q"
proof -
  obtain a b c where w: "week_names ! nat wd = [a, b, c]" "0x20 \<notin> set (ascii [a, b, c])"
    and sign: "chr a \<noteq> 0x2B" "chr a \<noteq> 0x2D" and w': "\<And>p. njs_date_month_parse (chr a # chr b # chr c # p) = - 1"
    "\<And>p n. njs_date_number_parse (chr a # p) (Suc n) = None"
    by (rule week_name [OF assms(1,2)]) blast
  have none: "njs_date_number_parse (chr a # p) 4 = None" "njs_date_number_parse (chr a # p) 2 = None" for p
    using w'(2) [of p 3] w'(2) [of p 1] by (simp_all add: numeral_2_eq_2)
  obtain r where r: "njs_date_skip_week_day p = Some r" "njs_date_skip_spaces r = Some q"
    using assms(3-5) by (cases p; cases "tl p") (auto split: if_splits)
  then show ?thesis
    using w(1,2) sign
    by (simp add: njs_date_string_parse_def none date_words_parse.simps [of True] w'(1))
qed

lemma time_parse_clock:
  assumes "day_clock h m s ms" "length tm = 8"
  shows "njs_date_time_parse tm (clock_text h m s @ p) = Some (tm[NJS_DATE_HR := h, NJS_DATE_MIN := m, NJS_DATE_SEC := s], p)"
  using assms time_parse_fixed [of "nat h" "nat m" "nat s" tm p]
  by (simp add: clock_text_def day_clock_def nat_less_iff)

lemma skip_spaces_clock: "njs_date_skip_spaces (0x20 # clock_text h m s @ p) = Some (clock_text h m s @ p)"
  by (simp add: clock_text_def)

lemma clock_text_Nil [simp]: "clock_text h m s \<noteq> []"
  by (simp add: clock_text_def)

lemma rfc2822_parse:
  assumes "civil y mon d" "day_clock h m s ms" "0 \<le> y" "y \<le> 9999"
  shows "njs_date_rfc2822_string_parse [wd, 0, 0, d, 0, 0, 0, 0] (0x20 # ascii (month_names ! nat mon) @ 0x20 #
      fixed_digits 4 (nat y) @ 0x20 # clock_text h m s @ ascii '' GMT'') =
    njs_make_date (\<lambda>_. 0) [wd, y, mon, d, h, m, s, 0] False"
proof -
  obtain a b c where n: "month_names ! nat mon = [a, b, c]" "chr a \<noteq> 0x20"
    "\<And>p. njs_date_month_parse (chr a # chr b # chr c # p) = mon"
    using civil_bounds [OF assms(1)] by (elim conjE) (erule (1) month_name, blast)
  show ?thesis
    using n(1,2) assms civil_bounds [OF assms(1)]
    by (simp add: njs_date_rfc2822_string_parse_def Let_def n(3) skip_spaces_clock time_parse_clock date_fields nat_less_iff)
qed

lemma gmtoff_parse_fixed:
  assumes "\<bar>off\<bar> < 6000" "c = (if 0 < off then 0x2D else 0x2B)"
  shows "njs_date_gmtoff_parse (c # fixed_digits 2 (nat (\<bar>off\<bar> div 60)) @ fixed_digits 2 (nat (\<bar>off\<bar> mod 60))) = - off"
proof -
  have "0 \<le> \<bar>off\<bar> div 60" "\<bar>off\<bar> div 60 < 100" "0 \<le> \<bar>off\<bar> mod 60" "\<bar>off\<bar> mod 60 < 100"
    using assms(1) by (auto intro: order_less_trans [OF pos_mod_bound])
  moreover have "\<bar>off\<bar> div 60 * 60 + \<bar>off\<bar> mod 60 = \<bar>off\<bar>" by (rule div_mult_mod_eq)
  ultimately show ?thesis
    using assms(2) by (auto simp: njs_date_gmtoff_parse_def nat_less_iff Let_def)
qed

lemma js_parse:
  assumes "civil y mon d" "day_clock h m s ms" "0 \<le> y" "y \<le> 9999" "\<bar>off\<bar> < 6000" "off \<noteq> 1"
    "c = (if 0 < off then 0x2D else 0x2B)"
  shows "njs_date_js_string_parse [wd, 0, mon, 1, 0, 0, 0, 0] (0x20 # fixed_digits 2 (nat d) @ 0x20 #
      fixed_digits 4 (nat y) @ 0x20 # clock_text h m s @ ascii '' GMT'' @ c #
      fixed_digits 2 (nat (\<bar>off\<bar> div 60)) @ fixed_digits 2 (nat (\<bar>off\<bar> mod 60))) =
    njs_make_date (\<lambda>_. 0) [wd, y, mon, d, h, m, s, off * 60000] False"
  using assms civil_bounds [OF assms(1)] gmtoff_parse_fixed [OF assms(5,7)]
  by (simp add: njs_date_js_string_parse_def Let_def skip_spaces_clock time_parse_clock date_fields nat_less_iff
      del: assms(7))

lemma words_parse_day:
  "n < 100 \<Longrightarrow> date_words_parse False tm (fixed_digits 2 n @ p) =
    njs_date_rfc2822_string_parse (tm[NJS_DATE_DAY := int n]) p"
  by (simp add: date_words_parse.simps)

lemma words_parse_month:
  assumes "0 \<le> mon" "mon < 12"
  shows "date_words_parse False tm (ascii (month_names ! nat mon) @ p) =
    njs_date_js_string_parse (tm[NJS_DATE_MON := mon]) p"
    "njs_date_skip_spaces (0x20 # ascii (month_names ! nat mon) @ p) = Some (ascii (month_names ! nat mon) @ p)"
proof -
  obtain a b c where n: "month_names ! nat mon = [a, b, c]" "chr a \<noteq> 0x20"
    and n': "\<And>p. njs_date_month_parse (chr a # chr b # chr c # p) = mon" "\<And>p. njs_date_number_parse (chr a # p) 2 = None"
    by (rule month_name [OF assms]) blast
  show "date_words_parse False tm (ascii (month_names ! nat mon) @ p) = njs_date_js_string_parse (tm[NJS_DATE_MON := mon]) p"
    using n assms by (simp add: date_words_parse.simps n')
  show "njs_date_skip_spaces (0x20 # ascii (month_names ! nat mon) @ p) = Some (ascii (month_names ! nat mon) @ p)"
    using n by simp
qed

lemma year_four_digits:
  assumes "civil y m d" "njs_make_day y m d = t div 86400000" "-62167219200000 \<le> t" "t < 253402300800000"
  shows "0 \<le> y \<and> y \<le> 9999"
proof -
  obtain S where S: "(\<Sum>i < nat m. days_in_month y i) = S" by simp
  have "nat m \<le> 11" using assms(1) by (simp add: civil_def nat_le_iff)
  then have "0 \<le> S" "S + d \<le> njs_days_in_year y" "1 \<le> d"
    using assms(1) S month_sum_le [of "nat m" y]
    by (auto simp: civil_def intro!: sum_nonneg days_in_month_nonneg)
  moreover have "njs_days_from_year y + S + d - 1 = t div 86400000"
    using assms(1,2) S by (simp add: civil_def njs_make_day_eq)
  moreover have "-719528 \<le> t div 86400000" "t div 86400000 < 2932897" using assms(3,4) by linarith+
  moreover have "njs_days_from_year 0 = -719528" "njs_days_from_year 10000 = 2932897"
    by (simp_all add: njs_days_from_year_def)
  moreover have "y = 10000 \<or> 10000 < y \<Longrightarrow> njs_days_from_year 10000 \<le> njs_days_from_year y"
    using days_from_year_mono [of 10000 y] days_in_year_bounds [of 10000] by auto
  ultimately show ?thesis
    using days_from_year_mono [of y 0] by force
qed

lemma day_tm: "(replicate NJS_DATE_MAX_FIELDS 0)[NJS_DATE_DAY := 1] = ([0, 0, 0, 1, 0, 0, 0, 0] :: tm)"
  by (simp add: date_fields eval_nat_numeral)

lemma utc_parse:
  assumes "civil y mon d" "day_clock h m s ms" "0 \<le> y" "y \<le> 9999" "0 \<le> wd" "wd < 7"
  shows "njs_date_string_parse tz (ascii (week_names ! nat wd) @ 0x2C # 0x20 # fixed_digits 2 (nat d) @ 0x20 #
      ascii (month_names ! nat mon) @ 0x20 # fixed_digits 4 (nat y) @ 0x20 # clock_text h m s @ ascii '' GMT'') =
    njs_make_date (\<lambda>_. 0) [0, y, mon, d, h, m, s, 0] False"
proof -
  let ?q = "fixed_digits 2 (nat d) @ 0x20 # ascii (month_names ! nat mon) @ 0x20 # fixed_digits 4 (nat y) @
      0x20 # clock_text h m s @ ascii '' GMT''"
  have "njs_date_string_parse tz (ascii (week_names ! nat wd) @ 0x2C # 0x20 # ?q) =
      date_words_parse False [0, 0, 0, 1, 0, 0, 0, 0] ?q"
    using parse_behind_week_day [OF assms(5,6), of "0x2C # 0x20 # ?q" ?q tz] day_tm by simp
  then show ?thesis
    using civil_bounds [OF assms(1)] rfc2822_parse [OF assms(1-4), of 0]
    by (simp add: words_parse_day date_fields nat_less_iff)
qed

lemma local_parse:
  assumes "civil y mon d" "day_clock h m s ms" "0 \<le> y" "y \<le> 9999" "0 \<le> wd" "wd < 7" "\<bar>off\<bar> < 6000" "off \<noteq> 1"
  shows "njs_date_string_parse tz (ascii (week_names ! nat wd) @ 0x20 # ascii (month_names ! nat mon) @
      0x20 # fixed_digits 2 (nat d) @ 0x20 # fixed_digits 4 (nat y) @ 0x20 # clock_text h m s @ ascii '' GMT'' @
      (if 0 < off then 0x2D else 0x2B) # fixed_digits 2 (nat (\<bar>off\<bar> div 60)) @ fixed_digits 2 (nat (\<bar>off\<bar> mod 60))) =
    njs_make_date (\<lambda>_. 0) [0, y, mon, d, h, m, s, off * 60000] False"
proof -
  let ?tm = "[0, 0, 0, 1, 0, 0, 0, 0] :: tm"
  let ?r = "0x20 # fixed_digits 2 (nat d) @ 0x20 # fixed_digits 4 (nat y) @ 0x20 # clock_text h m s @ ascii '' GMT'' @
      (if 0 < off then 0x2D else 0x2B) # fixed_digits 2 (nat (\<bar>off\<bar> div 60)) @ fixed_digits 2 (nat (\<bar>off\<bar> mod 60))"
  let ?q = "ascii (month_names ! nat mon) @ ?r"
  note c = civil_bounds [OF assms(1)]
  have "njs_date_string_parse tz (ascii (week_names ! nat wd) @ 0x20 # ?q) = date_words_parse False ?tm ?q"
    using parse_behind_week_day [OF assms(5,6), of "0x20 # ?q" ?q tz] day_tm c words_parse_month(2) [of mon ?r] by simp
  then show ?thesis
    using c words_parse_month(1) [of mon ?tm ?r] js_parse [OF assms(1-4,7,8) refl, of 0] by (simp add: date_fields)
qed

text \<open>
  C38. A date of the years 0 to 9999 with whole seconds survives its texts: the UTC text is read
  back as the date, and so is the local text, for every zone but the one a minute behind
  Greenwich, whose offset the parser takes for an error.
\<close>

theorem date_text_roundtrip:
  assumes "\<bar>t\<bar> \<le> 8640000000000000" "t mod 1000 = 0"
    "t' = (if fmt = NJS_DATE_FMT_TO_STRING then t - tz t * 60000 else t)"
    "-62167219200000 \<le> t'" "t' < 253402300800000"
    "fmt = NJS_DATE_FMT_TO_UTC_STRING \<or> fmt = NJS_DATE_FMT_TO_STRING \<and> \<bar>tz t\<bar> < 6000 \<and> tz t \<noteq> 1"
  shows "\<exists>s. njs_date_string tz fmt (Some t) = Some s \<and> njs_date_string_parse tz' s = Some t"
proof -
  let ?local = "fmt = NJS_DATE_FMT_TO_STRING"
  obtain y mon d h m s ms where f:
    "njs_destruct_date tz (Some t) ?local = [(t' div 86400000 + 4) mod 7, y, mon, d, h, m, s, ms]"
    "civil y mon d" "day_clock h m s ms" "njs_make_day y mon d = t' div 86400000"
    "((h * 60 + m) * 60 + s) * 1000 + ms = t' mod 86400000"
    by (rule destruct_fields [where t = t' and time = "Some t" and local = ?local and tz = tz])
      (use assms(3) in simp, blast)
  let ?wd = "(t' div 86400000 + 4) mod 7"
  have wd: "0 \<le> ?wd" "?wd < 7" by simp_all
  have y: "0 \<le> y" "y \<le> 9999" using year_four_digits [OF f(2,4) assms(4,5)] by simp_all
  have "ms mod 1000 = t' mod 86400000 mod 1000"
    unfolding f(5) [symmetric] by (simp only: mod_mult_self1 mod_mult_self3 add.commute)
  also have "\<dots> = t' mod 1000" by (rule mod_mod_cancel) simp
  also have "\<dots> = 0" using assms(2,3) mod_mult_self1 [of t "- tz t * 60" 1000] by (cases ?local) (simp_all add: mult.commute)
  finally have "ms = 0" using f(3) by (simp add: day_clock_def)
  have sum: "njs_make_day y mon d * 86400000 + (((h * 60 + m) * 60 + s) * 1000 + off) = t' + off" for off
    using f(4,5) \<open>ms = 0\<close> by simp
  show ?thesis
  proof (cases ?local)
    case False
    then have utc: "fmt = NJS_DATE_FMT_TO_UTC_STRING" "t' = t" using assms(3,6) by auto
    have "njs_make_date (\<lambda>_. 0) [0, y, mon, d, h, m, s, 0] False = Some t"
      using make_date_fields [OF sum [of 0], of "\<lambda>_. 0" 0 False] assms(1) utc by (simp add: timeclip_int)
    then show ?thesis
      using utc_string [OF f(1) [unfolded utc(1), simplified] f(2,3) y wd] utc_parse [OF f(2,3) y wd, of tz'] utc by simp
  next
    case True
    then have tz: "\<bar>tz t\<bar> < 6000" "tz t \<noteq> 1" "t' = t - tz t * 60000" using assms(3,6) by auto
    have "njs_make_date (\<lambda>_. 0) [0, y, mon, d, h, m, s, tz t * 60000] False = Some t"
      using make_date_fields [OF sum [of "tz t * 60000"], of "\<lambda>_. 0" 0 False] assms(1) tz by (simp add: timeclip_int)
    then show ?thesis
      using local_string [OF f(1) [unfolded True, simplified] f(2,3) y wd tz(1)] local_parse [OF f(2,3) y wd tz(1,2), of tz'] True
      by simp
  qed
qed

theorem date_text_roundtrip_witness:
  "\<exists>s. njs_date_string (\<lambda>_. -360) NJS_DATE_FMT_TO_STRING (Some 23328000000) = Some s \<and>
    njs_date_string_parse (\<lambda>_. 0) s = Some 23328000000"
  by (rule date_text_roundtrip [of _ "23328000000 + 360 * 60000"]) simp_all

end
