(* ===== verification/Njs_Date_Object.thy ===== *)
theory Njs_Date_Object
  imports Njs_Date_Text
begin

text \<open>
  The methods of \<open>Date.prototype\<close> by name, through the property table of
  \<open>src/src/njs_date.c\<close>, and the invariant of dates over construction and calls.
\<close>

section \<open>The property table\<close>

datatype date_method =
    Value_of
  | To_string njs_date_fmt_t
  | Get_field nat
  | Get_timezone_offset
  | Set_time
  | Set_fields nat

text \<open>
  The table's own methods; \<open>__proto__\<close> and \<open>constructor\<close> belong to the object system, as does
  \<open>toJSON\<close>, which looks up \<open>toISOString\<close> in the object at run time.
\<close>

definition njs_date_prototype_properties :: "(string \<times> date_method) list" where
  "njs_date_prototype_properties =
    [(''valueOf'', Value_of),
     (''toString'', To_string NJS_DATE_FMT_TO_STRING),
     (''toDateString'', To_string NJS_DATE_FMT_TO_DATE_STRING),
     (''toTimeString'', To_string NJS_DATE_FMT_TO_TIME_STRING),
     (''toLocaleString'', To_string NJS_DATE_FMT_TO_STRING),
     (''toLocaleDateString'', To_string NJS_DATE_FMT_TO_DATE_STRING),
     (''toLocaleTimeString'', To_string NJS_DATE_FMT_TO_TIME_STRING),
     (''toUTCString'', To_string NJS_DATE_FMT_TO_UTC_STRING),
     (''toISOString'', To_string NJS_DATE_FMT_TO_ISO_STRING),
     (''getTime'', Value_of),
     (''getFullYear'', Get_field (njs_date_magic NJS_DATE_YR 1)),
     (''getUTCFullYear'', Get_field (njs_date_magic NJS_DATE_YR 0)),
     (''getMonth'', Get_field (njs_date_magic NJS_DATE_MON 1)),
     (''getUTCMonth'', Get_field (njs_date_magic NJS_DATE_MON 0)),
     (''getDate'', Get_field (njs_date_magic NJS_DATE_DAY 1)),
     (''getUTCDate'', Get_field (njs_date_magic NJS_DATE_DAY 0)),
     (''getDay'', Get_field (njs_date_magic NJS_DATE_WDAY 1)),
     (''getUTCDay'', Get_field (njs_date_magic NJS_DATE_WDAY 0)),
     (''getHours'', Get_field (njs_date_magic NJS_DATE_HR 1)),
     (''getUTCHours'', Get_field (njs_date_magic NJS_DATE_HR 0)),
     (''getMinutes'', Get_field (njs_date_magic NJS_DATE_MIN 1)),
     (''getUTCMinutes'', Get_field (njs_date_magic NJS_DATE_MIN 0)),
     (''getSeconds'', Get_field (njs_date_magic NJS_DATE_SEC 0)),
     (''getUTCSeconds'', Get_field (njs_date_magic NJS_DATE_SEC 1)),
     (''getMilliseconds'', Get_field (njs_date_magic NJS_DATE_MSEC 0)),
     (''getUTCMilliseconds'', Get_field (njs_date_magic NJS_DATE_MSEC 1)),
     (''getTimezoneOffset'', Get_timezone_offset),
     (''setTime'', Set_time),
     (''setMilliseconds'', Set_fields (njs_date_magic2 NJS_DATE_MSEC 1 1)),
     (''setUTCMilliseconds'', Set_fields (njs_date_magic2 NJS_DATE_MSEC 1 0)),
     (''setSeconds'', Set_fields (njs_date_magic2 NJS_DATE_SEC 2 1)),
     (''setUTCSeconds'', Set_fields (njs_date_magic2 NJS_DATE_SEC 2 0)),
     (''setMinutes'', Set_fields (njs_date_magic2 NJS_DATE_MIN 3 1)),
     (''setUTCMinutes'', Set_fields (njs_date_magic2 NJS_DATE_MIN 3 0)),
     (''setHours'', Set_fields (njs_date_magic2 NJS_DATE_HR 4 1)),
     (''setUTCHours'', Set_fields (njs_date_magic2 NJS_DATE_HR 4 0)),
     (''setDate'', Set_fields (njs_date_magic2 NJS_DATE_DAY 1 1)),
     (''setUTCDate'', Set_fields (njs_date_magic2 NJS_DATE_DAY 1 0)),
     (''setMonth'', Set_fields (njs_date_magic2 NJS_DATE_MON 2 1)),
     (''setUTCMonth'', Set_fields (njs_date_magic2 NJS_DATE_MON 2 0)),
     (''setFullYear'', Set_fields (njs_date_magic2 NJS_DATE_YR 3 1)),
     (''setUTCFullYear'', Set_fields (njs_date_magic2 NJS_DATE_YR 3 0))]"

datatype date_result = Number time | Text "bytes option"

text \<open>A call of a method: an exception, or the result and \<open>this\<close> as it is left.\<close>

fun date_call :: "(int \<Rightarrow> int) \<Rightarrow> date_method \<Rightarrow> date_arg list \<Rightarrow> date_this \<Rightarrow> njs_error + date_result \<times> date_this" where
  "date_call tz Value_of args this = map_sum id (\<lambda>t. (Number t, this)) (njs_date_prototype_value_of this)"
| "date_call tz (To_string fmt) args this = map_sum id (\<lambda>s. (Text s, this)) (njs_date_prototype_to_string tz fmt this)"
| "date_call tz (Get_field magic) args this =
     map_sum id (\<lambda>t. (Number t, this)) (njs_date_prototype_get_field tz magic this)"
| "date_call tz Get_timezone_offset args this =
     map_sum id (\<lambda>t. (Number t, this)) (njs_date_prototype_get_timezone_offset tz this)"
| "date_call tz Set_time args this = map_sum id (\<lambda>(t, d). (Number t, Date_this d)) (njs_date_prototype_set_time args this)"
| "date_call tz (Set_fields magic) args this =
     map_sum id (\<lambda>(t, d). (Number t, Date_this d)) (njs_date_prototype_set_fields tz magic args this)"

definition date_method_call ::
    "(int \<Rightarrow> int) \<Rightarrow> string \<Rightarrow> date_arg list \<Rightarrow> date_this \<Rightarrow> (njs_error + date_result \<times> date_this) option" where
  "date_method_call tz name args this =
     map_option (\<lambda>m. date_call tz m args this) (map_of njs_date_prototype_properties name)"

section \<open>The getters read the field they are named for\<close>

text \<open>Local and UTC time have the same seconds and milliseconds, zones being whole minutes off.\<close>

lemma mod_mult_minute: "(t - c * 60000) mod 86400000 mod 60000 = t mod 86400000 mod 60000" for t c :: int
proof -
  have "(t - c * 60000) mod 60000 = t mod 60000"
  proof -
    have "t - c * 60000 = t + (- c) * 60000" by simp
    then show ?thesis by (simp only: mod_mult_self1)
  qed
  moreover have "x mod 86400000 mod 60000 = x mod 60000" for x :: int by (rule mod_mod_cancel) simp
  ultimately show ?thesis by (simp only:)
qed

lemma minute_fields:
  assumes "day_clock h m s ms" "((h * 60 + m) * 60 + s) * 1000 + ms = x"
  shows "s = x mod 60000 div 1000 \<and> ms = x mod 60000 mod 1000"
proof -
  have "s * 1000 + ms + (h * 60 + m) * 60000 = x" using assms(2) by simp
  then have "x mod 60000 = (s * 1000 + ms) mod 60000" by (metis mod_mult_self1)
  also have "\<dots> = s * 1000 + ms" using assms(1) by (simp add: day_clock_def)
  finally have "x mod 60000 = s * 1000 + ms" .
  then show ?thesis using assms(1) by (simp add: day_clock_def)
qed

lemma seconds_any_zone:
  assumes "field \<in> {NJS_DATE_SEC, NJS_DATE_MSEC}"
  shows "njs_destruct_date tz (Some t) local ! field = njs_destruct_date tz (Some t) local' ! field"
proof -
  have "njs_destruct_date tz (Some t) l ! field =
      (if field = NJS_DATE_SEC then t mod 86400000 mod 60000 div 1000 else t mod 86400000 mod 60000 mod 1000)" for l
  proof -
    let ?t = "if l then t - tz t * 60000 else t"
    obtain y mon d h m s ms where f:
      "njs_destruct_date tz (Some t) l = [(?t div 86400000 + 4) mod 7, y, mon, d, h, m, s, ms]"
      "day_clock h m s ms" "((h * 60 + m) * 60 + s) * 1000 + ms = ?t mod 86400000"
      by (rule destruct_fields [where t = ?t and time = "Some t" and local = l and tz = tz]) (simp, blast)
    have "?t mod 86400000 mod 60000 = t mod 86400000 mod 60000"
      by (cases l) (simp_all only: if_True if_False mod_mult_minute)
    with minute_fields [OF f(2,3)] have sec: "s = t mod 86400000 mod 60000 div 1000 \<and> ms = t mod 86400000 mod 60000 mod 1000"
      by (simp only:)
    from assms consider "field = NJS_DATE_SEC" | "field = NJS_DATE_MSEC" "field \<noteq> NJS_DATE_SEC"
      by (auto simp: date_fields)
    then show ?thesis
    proof cases
      case 1
      with sec show ?thesis unfolding f(1) by (simp only: if_True) (simp add: NJS_DATE_SEC_def)
    next
      case 2
      with sec show ?thesis unfolding f(1) by (simp only: if_False) (simp add: NJS_DATE_MSEC_def NJS_DATE_SEC_def)
    qed
  qed
  then show ?thesis by simp
qed

definition date_getters :: "(string \<times> nat \<times> bool) list" where
  "date_getters =
    [(''getFullYear'', NJS_DATE_YR, True), (''getUTCFullYear'', NJS_DATE_YR, False),
     (''getMonth'', NJS_DATE_MON, True), (''getUTCMonth'', NJS_DATE_MON, False),
     (''getDate'', NJS_DATE_DAY, True), (''getUTCDate'', NJS_DATE_DAY, False),
     (''getDay'', NJS_DATE_WDAY, True), (''getUTCDay'', NJS_DATE_WDAY, False),
     (''getHours'', NJS_DATE_HR, True), (''getUTCHours'', NJS_DATE_HR, False),
     (''getMinutes'', NJS_DATE_MIN, True), (''getUTCMinutes'', NJS_DATE_MIN, False),
     (''getSeconds'', NJS_DATE_SEC, True), (''getUTCSeconds'', NJS_DATE_SEC, False),
     (''getMilliseconds'', NJS_DATE_MSEC, True), (''getUTCMilliseconds'', NJS_DATE_MSEC, False)]"

lemma get_field_magic:
  assumes "field < 8" "local < 2"
  shows "njs_date_prototype_get_field tz (njs_date_magic field local) (Date_this \<lparr>date_time = Some t\<rparr>) =
    Inr (Some (njs_destruct_date tz (Some t) (local = 1) ! field))"
  using date_magic [OF assms] by (simp add: njs_date_prototype_get_field_def)

text \<open>
  C39. Every getter returns, for a valid date, the field it is named for, in local time or in UTC
  as named. The table has local and UTC exchanged for the seconds and the milliseconds, which
  makes no difference.
\<close>

theorem date_getters_correct:
  "list_all (\<lambda>(name, field, local).
     date_method_call tz name [] (Date_this \<lparr>date_time = Some t\<rparr>) =
       Some (Inr (Number (Some (njs_destruct_date tz (Some t) local ! field)), Date_this \<lparr>date_time = Some t\<rparr>))) date_getters"
proof -
  have "field < 8 \<Longrightarrow> date_call tz (Get_field (njs_date_magic field 1)) [] (Date_this \<lparr>date_time = Some t\<rparr>) =
      Inr (Number (Some (njs_destruct_date tz (Some t) True ! field)), Date_this \<lparr>date_time = Some t\<rparr>)"
    "field < 8 \<Longrightarrow> date_call tz (Get_field (njs_date_magic field 0)) [] (Date_this \<lparr>date_time = Some t\<rparr>) =
      Inr (Number (Some (njs_destruct_date tz (Some t) False ! field)), Date_this \<lparr>date_time = Some t\<rparr>)" for field
    by (simp_all only: date_call.simps get_field_magic) simp_all
  note call = this
  have small: "NJS_DATE_WDAY < 8" "NJS_DATE_YR < 8" "NJS_DATE_MON < 8" "NJS_DATE_DAY < 8" "NJS_DATE_HR < 8"
    "NJS_DATE_MIN < 8" "NJS_DATE_SEC < 8" "NJS_DATE_MSEC < 8" by (simp_all add: date_fields)
  have swap: "njs_destruct_date tz (Some t) True ! NJS_DATE_SEC = njs_destruct_date tz (Some t) False ! NJS_DATE_SEC"
    "njs_destruct_date tz (Some t) True ! NJS_DATE_MSEC = njs_destruct_date tz (Some t) False ! NJS_DATE_MSEC"
    by (simp_all add: seconds_any_zone)
  show ?thesis
    unfolding date_getters_def date_method_call_def njs_date_prototype_properties_def
    by (simp add: call [unfolded One_nat_def] small swap del: date_call.simps)
qed

section \<open>The invariant of dates\<close>

definition time_ok :: "time \<Rightarrow> bool" where
  "time_ok time = (case time of None \<Rightarrow> True | Some t \<Rightarrow> \<bar>t\<bar> \<le> 8640000000000000)"

fun this_ok :: "date_this \<Rightarrow> bool" where
  "this_ok (Date_this d) = time_ok (date_time d)"
| "this_ok (Other_this type) = True"

lemma timeclip_ok: "time_ok (njs_timeclip x)"
proof (cases x)
  case (Finite q)
  have "\<bar>trunc q\<bar> \<le> 8640000000000000" if "- 8640000000000000 \<le> q" "q \<le> 8640000000000000"
  proof (cases "q < 0")
    case True
    then have "0 \<le> \<lfloor>- q\<rfloor>" "\<lfloor>- q\<rfloor> \<le> 8640000000000000" using that by (simp_all add: floor_le_iff)
    with True show ?thesis by (simp add: trunc_def)
  next
    case False
    then have "0 \<le> \<lfloor>q\<rfloor>" "\<lfloor>q\<rfloor> \<le> 8640000000000000" using that by (simp_all add: floor_le_iff)
    with False show ?thesis by (simp add: trunc_def)
  qed
  then show ?thesis by (auto simp: njs_timeclip_def time_ok_def Finite)
qed (simp_all add: njs_timeclip_def time_ok_def)

lemma time_ok_None [simp]: "time_ok None"
  by (simp add: time_ok_def)

lemma make_date_ok [simp]: "time_ok (njs_make_date tz tm local)"
  by (simp add: njs_make_date_def Let_def timeclip_ok)

lemma set_fields_ok: "njs_date_prototype_set_fields tz magic args this = Inr (t, d) \<Longrightarrow> time_ok (date_time d)"
  by (auto simp: njs_date_prototype_set_fields_def Let_def split: date_this.splits if_splits sum.splits option.splits)

lemma set_time_ok: "njs_date_prototype_set_time args this = Inr (t, d) \<Longrightarrow> time_ok (date_time d)"
  by (auto simp: njs_date_prototype_set_time_def timeclip_ok split: date_this.splits list.splits sum.splits)

lemma bind_ok: "(\<And>x. f = Some x \<Longrightarrow> time_ok (g x)) \<Longrightarrow> time_ok (f \<bind> g)"
  by (cases f) simp_all

lemma rfc2822_ok: "time_ok (njs_date_rfc2822_string_parse tm p)"
  by (auto simp: njs_date_rfc2822_string_parse_def Let_def intro!: bind_ok split: prod.splits)

lemma js_ok: "time_ok (njs_date_js_string_parse tm p)"
  by (auto simp: njs_date_js_string_parse_def Let_def intro!: bind_ok split: prod.splits)

lemma iso_ok: "time_ok (date_iso_date_parse tz tm p)"
  by (auto simp: date_iso_date_parse_def date_iso_time_parse_def Let_def intro!: bind_ok split: prod.splits)

lemma words_ok: "time_ok (date_words_parse week tm p)"
proof (induction week tm p rule: date_words_parse.induct)
  case (1 week tm p)
  then show ?case
    by (subst date_words_parse.simps)
      (auto simp: Let_def rfc2822_ok js_ok intro!: bind_ok split: option.splits)
qed

lemma string_parse_ok: "time_ok (njs_date_string_parse tz s)"
  by (auto simp: njs_date_string_parse_def date_iso_year_parse_def Let_def iso_ok words_ok intro!: bind_ok
      split: option.splits prod.splits)

lemma date_call_ok: "this_ok this \<Longrightarrow> date_call tz m args this = Inr (r, this') \<Longrightarrow> this_ok this'"
  by (cases m) (auto simp: map_sum_def split: sum.splits dest: set_fields_ok set_time_ok)

fun date_run :: "(int \<Rightarrow> int) \<Rightarrow> (string \<times> date_arg list) list \<Rightarrow> date_this \<Rightarrow> date_this" where
  "date_run tz [] this = this"
| "date_run tz ((name, args) # calls) this =
     (case date_method_call tz name args this of
        Some (Inr (_, this')) \<Rightarrow> date_run tz calls this'
      | _ \<Rightarrow> date_run tz calls this)"

lemma date_run_ok: "this_ok this \<Longrightarrow> this_ok (date_run tz calls this)"
proof (induction tz calls this rule: date_run.induct)
  case (2 tz name args calls this)
  then show ?case
    by (auto simp: date_method_call_def dest: date_call_ok split: option.splits sum.splits)
qed simp

lemma date_from_args_ok: "date_from_args tz args local = Inr time \<Longrightarrow> time_ok time"
  by (auto simp: date_from_args_def Let_def split: sum.splits option.splits)

text \<open>
  C40. A date never holds a time outside the range of \<open>Date\<close>: the constructor makes none, given a
  clock and a date argument in range, whatever text or numbers it gets, and no sequence of method
  calls, with any arguments and exceptions, leaves one.
\<close>

theorem date_invariant:
  assumes "\<bar>gettime\<bar> \<le> 8640000000000000" "\<forall>d. primitive = Inr (Date_arg d) \<longrightarrow> time_ok (date_time d)"
    "njs_date_constructor tz gettime True primitive args = Inr (New_date d)"
  shows "time_ok (date_time d) \<and> this_ok (date_run tz calls (Date_this d))"
proof -
  have "time_ok (date_time d)"
    using assms by (auto simp: njs_date_constructor_def time_ok_def [of "Some gettime"] string_parse_ok timeclip_ok
        dest: date_from_args_ok split: list.splits sum.splits constructor_arg.splits)
  then show ?thesis using date_run_ok [of "Date_this d"] by simp
qed

theorem date_invariant_witness:
  "this_ok (date_run (\<lambda>_. 0) [(''setUTCFullYear'', [Inr (Finite 300000)]), (''getDay'', [])] (Date_this \<lparr>date_time = Some 0\<rparr>))"
proof -
  have "njs_date_constructor (\<lambda>_. 0) 0 True (Inr (Number_arg NaN)) [] = Inr (New_date \<lparr>date_time = Some 0\<rparr>)"
    by (simp add: njs_date_constructor_def)
  from date_invariant [OF _ _ this] show ?thesis by (simp del: date_run.simps)
qed

end
