(* ===== verification/Njs_Lvlhsh.thy ===== *)
theory Njs_Lvlhsh
  imports Njs_Hash
begin

text \<open>
  The level hash of \<open>src/src/njs_lvlhsh.c\<close>: the table behind the properties of objects, the
  variables of scopes, the externals and the modules. A hash is a slot: nothing, a chain of
  buckets, or a level, an array of slots that is indexed by the next bits of the key. A
  bucket that overflows is converted to a level, until the bits of the last level are used
  up and buckets are chained.

  The pointers of the C code are the trees they lead to. The number in the low bits of a
  pointer is the number stored next to it here, counted in entries. Memory comes from a pool
  whose answers are an argument: every allocation of the sequence fails or delivers a block
  with arbitrary contents. The pool also counts the blocks in use.
\<close>

section \<open>Types\<close>

datatype njs_int_t = NJS_OK | NJS_DECLINED | NJS_ERROR

text \<open>An entry of a bucket: its key and its value, \<^const>\<open>None\<close> for the null pointer.\<close>

type_synonym 'v cell = "u32 \<times> 'v option"
type_synonym 'v bucket = "nat \<times> 'v cell list"

datatype 'v slot = Null | Chain "'v bucket list" | Level nat "'v slot list"

record ('k, 'v) njs_lvlhsh_proto_t =
  proto_bucket_end :: nat
  proto_shift :: "nat list"
  proto_test :: "'k \<Rightarrow> 'v \<Rightarrow> bool"

record ('k, 'v) njs_lvlhsh_query_t =
  lhq_key_hash :: u32
  lhq_key :: 'k
  lhq_replace :: bool
  lhq_value :: "'v option"

text \<open>The entries of a default bucket and the bits of the default levels on a 64-bit platform.\<close>

definition NJS_LVLHSH_BUCKET_END :: "nat \<Rightarrow> nat" where
  "NJS_LVLHSH_BUCKET_END bucket_size = (bucket_size - 8) div (3 * 4)"

definition NJS_LVLHSH_DEFAULT :: "('k \<Rightarrow> 'v \<Rightarrow> bool) \<Rightarrow> ('k, 'v) njs_lvlhsh_proto_t" where
  "NJS_LVLHSH_DEFAULT test =
     \<lparr>proto_bucket_end = NJS_LVLHSH_BUCKET_END 128, proto_shift = [4, 4, 4, 4, 4, 4, 4, 0],
      proto_test = test\<rparr>"

definition lvlhsh_shift :: "('k, 'v) njs_lvlhsh_proto_t \<Rightarrow> nat \<Rightarrow> nat" where
  "lvlhsh_shift pr nlvl = (if nlvl < length (proto_shift pr) then proto_shift pr ! nlvl else 0)"

definition njs_lvlhsh_level_size :: "('k, 'v) njs_lvlhsh_proto_t \<Rightarrow> nat \<Rightarrow> nat" where
  "njs_lvlhsh_level_size pr nlvl = 2 ^ lvlhsh_shift pr nlvl"

text \<open>
  The number of used slots of a level is kept in one bit more than the index has; the macro
  reads it without that bit.
\<close>

definition njs_lvlhsh_level_entries :: "nat \<Rightarrow> nat \<Rightarrow> nat" where
  "njs_lvlhsh_level_entries n sh = n mod 2 ^ sh"

definition level_index :: "u32 \<Rightarrow> nat \<Rightarrow> nat" where
  "level_index key sh = unat (key AND mask sh)"

text \<open>A level has a slot for every index; the default value is never used.\<close>

definition slot_at :: "'v slot list \<Rightarrow> nat \<Rightarrow> 'v slot" where
  "slot_at lvl i = (if i < length lvl then lvl ! i else Null)"

lemma size_slot_le: "slot_at lvl i = s \<Longrightarrow> s \<noteq> Null \<Longrightarrow> size s < size (Level n lvl)"
  by (auto simp: slot_at_def less_Suc_eq_le split: if_splits
      intro!: size_list_estimation' [of "lvl ! i"] dest: nth_mem)

lemma size_slot_at [termination_simp]:
  "slot_at lvl i = Level n lvl' \<Longrightarrow> size_list size lvl' < size_list size lvl"
  using size_slot_le [of lvl i "Level n lvl'" n] by simp

lemma size_list_drop: "size_list f (drop n xs) \<le> size_list f xs"
proof -
  have "size_list f (drop n xs) \<le> size_list f (take n xs @ drop n xs)"
    unfolding size_list_append by simp
  then show ?thesis by simp
qed

section \<open>The memory pool\<close>

record 'v lvlhsh_pool =
  pool_outcomes :: "'v cell list option list"
  pool_live :: int

definition lvlhsh_alloc :: "'v lvlhsh_pool \<Rightarrow> 'v cell list option \<times> 'v lvlhsh_pool" where
  "lvlhsh_alloc m =
     (case pool_outcomes m of
        [] \<Rightarrow> (Some [], m\<lparr>pool_live := pool_live m + 1\<rparr>)
      | None # os \<Rightarrow> (None, m\<lparr>pool_outcomes := os\<rparr>)
      | Some g # os \<Rightarrow> (Some g, m\<lparr>pool_outcomes := os, pool_live := pool_live m + 1\<rparr>))"

definition lvlhsh_free :: "nat \<Rightarrow> 'v lvlhsh_pool \<Rightarrow> 'v lvlhsh_pool" where
  "lvlhsh_free n m = m\<lparr>pool_live := pool_live m - int n\<rparr>"

text \<open>The cells of a new bucket: what the block contained before.\<close>

definition block_cells :: "('k, 'v) njs_lvlhsh_proto_t \<Rightarrow> 'v cell list \<Rightarrow> 'v cell list" where
  "block_cells pr g = take (proto_bucket_end pr) (g @ replicate (proto_bucket_end pr) (0, None))"

section \<open>Search\<close>

text \<open>
  The loop over the cells of a bucket, from the position \<open>i\<close> on and with \<open>n\<close> valid entries
  left; it stops with the last of them. A loop that ran over the end of the bucket finds
  nothing here. Deletion has the same loop.
\<close>

fun bucket_find_loop ::
  "('k, 'v) njs_lvlhsh_proto_t \<Rightarrow> ('k, 'v) njs_lvlhsh_query_t \<Rightarrow> nat \<Rightarrow> nat \<Rightarrow> 'v cell list \<Rightarrow>
    nat option"
where
  "bucket_find_loop pr lhq i n [] = None"
| "bucket_find_loop pr lhq i n ((k, v) # e) =
     (case v of
        Some x \<Rightarrow>
          if k = lhq_key_hash lhq \<and> proto_test pr (lhq_key lhq) x then Some i
          else if n - 1 = 0 then None
          else bucket_find_loop pr lhq (i + 1) (n - 1) e
      | None \<Rightarrow> if n = 0 then None else bucket_find_loop pr lhq (i + 1) n e)"

fun njs_lvlhsh_bucket_find ::
  "('k, 'v) njs_lvlhsh_proto_t \<Rightarrow> ('k, 'v) njs_lvlhsh_query_t \<Rightarrow> 'v bucket list \<Rightarrow>
    njs_int_t \<times> ('k, 'v) njs_lvlhsh_query_t"
where
  "njs_lvlhsh_bucket_find pr lhq [] = (NJS_DECLINED, lhq)"
| "njs_lvlhsh_bucket_find pr lhq ((n, cells) # bkt) =
     (case bucket_find_loop pr lhq 0 n cells of
        Some i \<Rightarrow> (NJS_OK, lhq\<lparr>lhq_value := snd (cells ! i)\<rparr>)
      | None \<Rightarrow> njs_lvlhsh_bucket_find pr lhq bkt)"

fun njs_lvlhsh_level_find ::
  "('k, 'v) njs_lvlhsh_proto_t \<Rightarrow> ('k, 'v) njs_lvlhsh_query_t \<Rightarrow> 'v slot list \<Rightarrow> u32 \<Rightarrow> nat \<Rightarrow>
    njs_int_t \<times> ('k, 'v) njs_lvlhsh_query_t"
where
  "njs_lvlhsh_level_find pr lhq lvl key nlvl =
     (let sh = lvlhsh_shift pr nlvl
      in case slot_at lvl (level_index key sh) of
           Null \<Rightarrow> (NJS_DECLINED, lhq)
         | Chain bkt \<Rightarrow> njs_lvlhsh_bucket_find pr lhq bkt
         | Level n lvl' \<Rightarrow> njs_lvlhsh_level_find pr lhq lvl' (drop_bit sh key) (nlvl + 1))"

definition njs_lvlhsh_find ::
  "('k, 'v) njs_lvlhsh_proto_t \<Rightarrow> ('k, 'v) njs_lvlhsh_query_t \<Rightarrow> 'v slot \<Rightarrow>
    njs_int_t \<times> ('k, 'v) njs_lvlhsh_query_t"
where
  "njs_lvlhsh_find pr lhq lh =
     (case lh of
        Null \<Rightarrow> (NJS_DECLINED, lhq)
      | Chain bkt \<Rightarrow> njs_lvlhsh_bucket_find pr lhq bkt
      | Level n lvl \<Rightarrow> njs_lvlhsh_level_find pr lhq lvl (lhq_key_hash lhq) 0)"

section \<open>Insertion\<close>

text \<open>
  A new bucket: its contents, or \<^const>\<open>None\<close> when the allocation fails.
\<close>

definition njs_lvlhsh_new_bucket ::
  "('k, 'v) njs_lvlhsh_proto_t \<Rightarrow> ('k, 'v) njs_lvlhsh_query_t \<Rightarrow> 'v lvlhsh_pool \<Rightarrow>
    'v bucket option \<times> 'v lvlhsh_pool"
where
  "njs_lvlhsh_new_bucket pr lhq m =
     (case lvlhsh_alloc m of
        (None, m) \<Rightarrow> (None, m)
      | (Some g, m) \<Rightarrow> (Some (1, (block_cells pr g)[0 := (lhq_key_hash lhq, lhq_value lhq)]), m))"

text \<open>
  The loop over the cells of one bucket, from the position \<open>i\<close> on: the position of the entry
  with the key, the first vacant position, and the position after the last valid entry.
\<close>

fun bucket_insert_loop ::
  "('k, 'v) njs_lvlhsh_proto_t \<Rightarrow> ('k, 'v) njs_lvlhsh_query_t \<Rightarrow> nat \<Rightarrow> nat \<Rightarrow> nat option \<Rightarrow>
    'v cell list \<Rightarrow> nat option \<times> nat option \<times> nat"
where
  "bucket_insert_loop pr lhq i n vacant [] = (None, vacant, i)"
| "bucket_insert_loop pr lhq i n vacant ((k, v) # e) =
     (case v of
        Some x \<Rightarrow>
          if k = lhq_key_hash lhq \<and> proto_test pr (lhq_key lhq) x then (Some i, vacant, i)
          else if n - 1 = 0 then (None, vacant, i + 1)
          else bucket_insert_loop pr lhq (i + 1) (n - 1) vacant e
      | None \<Rightarrow>
          let vacant = (case vacant of None \<Rightarrow> Some i | Some j \<Rightarrow> Some j)
          in if n = 0 then (None, vacant, i + 1)
             else bucket_insert_loop pr lhq (i + 1) n vacant e)"

fun find_index :: "('a \<Rightarrow> bool) \<Rightarrow> 'a list \<Rightarrow> nat option" where
  "find_index P [] = None"
| "find_index P (x # xs) = (if P x then Some 0 else map_option Suc (find_index P xs))"

text \<open>
  The search in the chain: the bucket and the cell of a duplicate, or the first vacant cell.
\<close>

fun chain_search ::
  "('k, 'v) njs_lvlhsh_proto_t \<Rightarrow> ('k, 'v) njs_lvlhsh_query_t \<Rightarrow> nat \<Rightarrow> (nat \<times> nat) option \<Rightarrow>
    'v bucket list \<Rightarrow> (nat \<times> nat) option \<times> (nat \<times> nat) option"
where
  "chain_search pr lhq b vacant [] = (None, vacant)"
| "chain_search pr lhq b vacant ((n, cells) # bkt) =
     (case bucket_insert_loop pr lhq 0 n (if vacant = None then None else Some 0) cells of
        (Some i, _, _) \<Rightarrow> (Some (b, i), vacant)
      | (None, hole, e) \<Rightarrow>
          let vacant =
            (case vacant of
               Some v \<Rightarrow> Some v
             | None \<Rightarrow>
                 (case hole of
                    Some i \<Rightarrow> Some (b, i)
                  | None \<Rightarrow> if e < proto_bucket_end pr then Some (b, e) else None))
          in chain_search pr lhq (b + 1) vacant bkt)"

definition bucket_set :: "'v bucket list \<Rightarrow> nat \<Rightarrow> nat \<Rightarrow> nat \<Rightarrow> 'v cell \<Rightarrow> 'v bucket list" where
  "bucket_set bkt b n i c = bkt[b := (n, (snd (bkt ! b))[i := c])]"

text \<open>
  \<open>njs_lvlhsh_free_level\<close> frees the bucket of every used slot and the level.
\<close>

definition njs_lvlhsh_free_level :: "'v slot list \<Rightarrow> 'v lvlhsh_pool \<Rightarrow> 'v lvlhsh_pool" where
  "njs_lvlhsh_free_level level m = lvlhsh_free (length (filter (\<lambda>s. s \<noteq> Null) level) + 1) m"

text \<open>The levels left below a level: the measure of the termination proof.\<close>

definition insert_level :: "('k, 'v) njs_lvlhsh_proto_t \<Rightarrow> nat \<Rightarrow> nat" where
  "insert_level pr nlvl = length (proto_shift pr) - nlvl"

lemma insert_level_less:
  "0 < lvlhsh_shift pr nlvl \<Longrightarrow> insert_level pr nlvl < Suc (length (proto_shift pr)) - nlvl"
  by (auto simp: insert_level_def lvlhsh_shift_def split: if_splits)

text \<open>
  Insertion and the conversion of a full bucket call each other. The level of a bucket is
  the level it would be converted to, that is \<open>nlvl\<close> after the increment in the C code. The
  results are the value returned, the query with its new value, and the slot.

  The query of the conversion has a key and a flag that are not initialised in the C code;
  here they are those of the query the conversion started from. They are not used, since a
  converted bucket always finds room in the new level (\<open>convert_bucket\<close> below).
\<close>

function (sequential)
  njs_lvlhsh_level_insert ::
    "('k, 'v) njs_lvlhsh_proto_t \<Rightarrow> ('k, 'v) njs_lvlhsh_query_t \<Rightarrow> 'v slot \<Rightarrow> u32 \<Rightarrow> nat \<Rightarrow>
      'v lvlhsh_pool \<Rightarrow> njs_int_t \<times> ('k, 'v) njs_lvlhsh_query_t \<times> 'v slot \<times> 'v lvlhsh_pool"
and njs_lvlhsh_bucket_insert ::
    "('k, 'v) njs_lvlhsh_proto_t \<Rightarrow> ('k, 'v) njs_lvlhsh_query_t \<Rightarrow> 'v bucket list \<Rightarrow> u32 \<Rightarrow> nat \<Rightarrow>
      'v lvlhsh_pool \<Rightarrow> njs_int_t \<times> ('k, 'v) njs_lvlhsh_query_t \<times> 'v slot \<times> 'v lvlhsh_pool"
and njs_lvlhsh_convert_bucket_to_level ::
    "('k, 'v) njs_lvlhsh_proto_t \<Rightarrow> ('k, 'v) njs_lvlhsh_query_t \<Rightarrow> nat \<Rightarrow> 'v cell list \<Rightarrow>
      'v lvlhsh_pool \<Rightarrow> 'v slot option \<times> 'v lvlhsh_pool"
and conversion_loop ::
    "('k, 'v) njs_lvlhsh_proto_t \<Rightarrow> ('k, 'v) njs_lvlhsh_query_t \<Rightarrow> nat \<Rightarrow> nat \<Rightarrow> 'v cell list \<Rightarrow>
      'v slot \<Rightarrow> 'v lvlhsh_pool \<Rightarrow> njs_int_t \<times> 'v slot \<times> 'v lvlhsh_pool"
and njs_lvlhsh_level_convertion_insert ::
    "('k, 'v) njs_lvlhsh_proto_t \<Rightarrow> ('k, 'v) njs_lvlhsh_query_t \<Rightarrow> 'v slot \<Rightarrow> u32 \<Rightarrow> nat \<Rightarrow>
      'v lvlhsh_pool \<Rightarrow> njs_int_t \<times> 'v slot \<times> 'v lvlhsh_pool"
and njs_lvlhsh_bucket_convertion_insert ::
    "('k, 'v) njs_lvlhsh_proto_t \<Rightarrow> ('k, 'v) njs_lvlhsh_query_t \<Rightarrow> 'v bucket list \<Rightarrow> u32 \<Rightarrow> nat \<Rightarrow>
      'v lvlhsh_pool \<Rightarrow> njs_int_t \<times> 'v slot \<times> 'v lvlhsh_pool"
where
  "njs_lvlhsh_level_insert pr lhq (Level n lvl) key nlvl m =
     (let sh = lvlhsh_shift pr nlvl; i = level_index key sh; key' = drop_bit sh key
      in case slot_at lvl i of
           Null \<Rightarrow>
             (case njs_lvlhsh_new_bucket pr lhq m of
                (None, m) \<Rightarrow> (NJS_ERROR, lhq, Level n lvl, m)
              | (Some b, m) \<Rightarrow> (NJS_OK, lhq, Level (n + 1) (lvl[i := Chain [b]]), m))
         | Chain bkt \<Rightarrow>
             (case njs_lvlhsh_bucket_insert pr lhq bkt key' (nlvl + 1) m of
                (ret, lhq, s, m) \<Rightarrow> (ret, lhq, Level n (lvl[i := s]), m))
         | Level n' lvl' \<Rightarrow>
             (case njs_lvlhsh_level_insert pr lhq (Level n' lvl') key' (nlvl + 1) m of
                (ret, lhq, s, m) \<Rightarrow> (ret, lhq, Level n (lvl[i := s]), m)))"
| "njs_lvlhsh_level_insert pr lhq s key nlvl m = (NJS_ERROR, lhq, s, m)"
| "njs_lvlhsh_bucket_insert pr lhq bkt key nlvl m =
     (case chain_search pr lhq 0 None bkt of
        (Some (b, i), _) \<Rightarrow>
          (case (bkt ! b, snd (bkt ! b) ! i) of
             ((n, _), (k, old)) \<Rightarrow>
               if lhq_replace lhq then
                 (NJS_OK, lhq\<lparr>lhq_value := old\<rparr>, Chain (bucket_set bkt b n i (k, lhq_value lhq)), m)
               else (NJS_DECLINED, lhq\<lparr>lhq_value := old\<rparr>, Chain bkt, m))
      | (None, Some (b, i)) \<Rightarrow>
          (NJS_OK, lhq,
           Chain (bucket_set bkt b (fst (bkt ! b) + 1) i (lhq_key_hash lhq, lhq_value lhq)), m)
      | (None, None) \<Rightarrow>
          if lvlhsh_shift pr nlvl \<noteq> 0 then
            (case njs_lvlhsh_convert_bucket_to_level pr lhq nlvl (snd (last bkt)) m of
               (None, m) \<Rightarrow> (NJS_ERROR, lhq, Chain bkt, m)
             | (Some s, m) \<Rightarrow> njs_lvlhsh_level_insert pr lhq s key nlvl m)
          else
            (case njs_lvlhsh_new_bucket pr lhq m of
               (None, m) \<Rightarrow> (NJS_ERROR, lhq, Chain bkt, m)
             | (Some b, m) \<Rightarrow> (NJS_OK, lhq, Chain (bkt @ [b]), m)))"
| "njs_lvlhsh_convert_bucket_to_level pr lhq nlvl cells m =
     (case lvlhsh_alloc m of
        (None, m) \<Rightarrow> (None, m)
      | (Some _, m) \<Rightarrow>
          (case conversion_loop pr lhq nlvl (sum_list (map (lvlhsh_shift pr) [0..<nlvl])) cells
                  (Level 0 (replicate (njs_lvlhsh_level_size pr nlvl) Null)) m of
             (ret, Level n level, m) \<Rightarrow>
               if ret \<noteq> NJS_OK then (None, njs_lvlhsh_free_level level m)
               else (Some (Level n level), lvlhsh_free 1 m)
           | (ret, s, m) \<Rightarrow> (None, m)))"
| "conversion_loop pr lhq nlvl sh [] lvl m = (NJS_OK, lvl, m)"
| "conversion_loop pr lhq nlvl sh ((k, v) # e) lvl m =
     (case njs_lvlhsh_level_convertion_insert pr (lhq\<lparr>lhq_value := v, lhq_key_hash := k\<rparr>) lvl
             (drop_bit sh k) nlvl m of
        (NJS_OK, lvl, m) \<Rightarrow> conversion_loop pr lhq nlvl sh e lvl m
      | (ret, lvl, m) \<Rightarrow> (ret, lvl, m))"
| "njs_lvlhsh_level_convertion_insert pr lhq (Level n lvl) key nlvl m =
     (let sh = lvlhsh_shift pr nlvl; i = level_index key sh
      in case slot_at lvl i of
           Null \<Rightarrow>
             (case njs_lvlhsh_new_bucket pr lhq m of
                (None, m) \<Rightarrow> (NJS_ERROR, Level n lvl, m)
              | (Some b, m) \<Rightarrow> (NJS_OK, Level (n + 1) (lvl[i := Chain [b]]), m))
         | Chain bkt \<Rightarrow>
             (case njs_lvlhsh_bucket_convertion_insert pr lhq bkt (drop_bit sh key) (nlvl + 1) m of
                (ret, s, m) \<Rightarrow> (ret, Level n (lvl[i := s]), m))
         | Level n' lvl' \<Rightarrow> (NJS_ERROR, Level n lvl, m))"
| "njs_lvlhsh_level_convertion_insert pr lhq s key nlvl m = (NJS_ERROR, s, m)"
| "njs_lvlhsh_bucket_convertion_insert pr lhq bkt key nlvl m =
     (case find_index (\<lambda>(n, _). n < proto_bucket_end pr) bkt of
        Some b \<Rightarrow>
          (let n = fst (bkt ! b)
           in (NJS_OK, Chain (bucket_set bkt b (n + 1) n (lhq_key_hash lhq, lhq_value lhq)), m))
      | None \<Rightarrow>
          if lvlhsh_shift pr nlvl \<noteq> 0 then
            (case njs_lvlhsh_convert_bucket_to_level pr lhq nlvl (snd (last bkt)) m of
               (None, m) \<Rightarrow> (NJS_ERROR, Chain bkt, m)
             | (Some s, m) \<Rightarrow>
                 (case njs_lvlhsh_level_insert pr lhq s key nlvl m of (ret, _, s, m) \<Rightarrow> (ret, s, m)))
          else
            (case njs_lvlhsh_new_bucket pr lhq m of
               (None, m) \<Rightarrow> (NJS_ERROR, Chain bkt, m)
             | (Some b, m) \<Rightarrow> (NJS_OK, Chain (bkt @ [b]), m)))"
  by pat_completeness auto

termination
proof (relation "measures
    [case_sum
       (case_sum (\<lambda>(pr, lhq, s, key, nlvl, m). insert_level pr nlvl)
          (case_sum (\<lambda>(pr, lhq, bkt, key, nlvl, m). Suc (length (proto_shift pr)) - nlvl)
             (\<lambda>(pr, lhq, nlvl, cells, m). insert_level pr nlvl)))
       (case_sum (\<lambda>(pr, lhq, nlvl, sh, cells, lvl, m). insert_level pr nlvl)
          (case_sum (\<lambda>(pr, lhq, s, key, nlvl, m). insert_level pr nlvl)
             (\<lambda>(pr, lhq, bkt, key, nlvl, m). Suc (length (proto_shift pr)) - nlvl))),
     case_sum
       (case_sum (\<lambda>(pr, lhq, s, key, nlvl, m). size s)
          (case_sum (\<lambda>(pr, lhq, bkt, key, nlvl, m). size (Chain bkt))
             (\<lambda>(pr, lhq, nlvl, cells, m). 3 + length cells)))
       (case_sum (\<lambda>(pr, lhq, nlvl, sh, cells, lvl, m). 2 + length cells)
          (case_sum (\<lambda>(pr, lhq, s, key, nlvl, m). 1)
             (\<lambda>(pr, lhq, bkt, key, nlvl, m). 0)))]", goal_cases)
qed (auto simp: insert_level_less simp del: slot.size intro: size_slot_le, auto simp: insert_level_def)

definition njs_lvlhsh_insert ::
  "('k, 'v) njs_lvlhsh_proto_t \<Rightarrow> ('k, 'v) njs_lvlhsh_query_t \<Rightarrow> 'v slot \<Rightarrow> 'v lvlhsh_pool \<Rightarrow>
    njs_int_t \<times> ('k, 'v) njs_lvlhsh_query_t \<times> 'v slot \<times> 'v lvlhsh_pool"
where
  "njs_lvlhsh_insert pr lhq lh m =
     (case lh of
        Null \<Rightarrow>
          (case njs_lvlhsh_new_bucket pr lhq m of
             (None, m) \<Rightarrow> (NJS_ERROR, lhq, Null, m)
           | (Some b, m) \<Rightarrow> (NJS_OK, lhq, Chain [b], m))
      | Chain bkt \<Rightarrow> njs_lvlhsh_bucket_insert pr lhq bkt (lhq_key_hash lhq) 0 m
      | Level n lvl \<Rightarrow> njs_lvlhsh_level_insert pr lhq lh (lhq_key_hash lhq) 0 m)"

section \<open>Deletion\<close>

fun njs_lvlhsh_bucket_delete ::
  "('k, 'v) njs_lvlhsh_proto_t \<Rightarrow> ('k, 'v) njs_lvlhsh_query_t \<Rightarrow> 'v bucket list \<Rightarrow> 'v lvlhsh_pool \<Rightarrow>
    njs_int_t \<times> ('k, 'v) njs_lvlhsh_query_t \<times> 'v bucket list \<times> 'v lvlhsh_pool"
where
  "njs_lvlhsh_bucket_delete pr lhq [] m = (NJS_DECLINED, lhq, [], m)"
| "njs_lvlhsh_bucket_delete pr lhq ((n, cells) # bkt) m =
     (case bucket_find_loop pr lhq 0 n cells of
        Some i \<Rightarrow>
          (case cells ! i of
             (k, v) \<Rightarrow>
               if n = 1 then (NJS_OK, lhq\<lparr>lhq_value := v\<rparr>, bkt, lvlhsh_free 1 m)
               else (NJS_OK, lhq\<lparr>lhq_value := v\<rparr>, (n - 1, cells[i := (k, None)]) # bkt, m))
      | None \<Rightarrow>
          (case njs_lvlhsh_bucket_delete pr lhq bkt m of
             (ret, lhq, bkt, m) \<Rightarrow> (ret, lhq, (n, cells) # bkt, m)))"

text \<open>A chain without buckets is the null pointer.\<close>

definition chain_slot :: "'v bucket list \<Rightarrow> 'v slot" where
  "chain_slot bkt = (if bkt = [] then Null else Chain bkt)"

fun njs_lvlhsh_level_delete ::
  "('k, 'v) njs_lvlhsh_proto_t \<Rightarrow> ('k, 'v) njs_lvlhsh_query_t \<Rightarrow> nat \<Rightarrow> 'v slot list \<Rightarrow> u32 \<Rightarrow> nat \<Rightarrow>
    'v lvlhsh_pool \<Rightarrow> njs_int_t \<times> ('k, 'v) njs_lvlhsh_query_t \<times> 'v slot \<times> 'v lvlhsh_pool"
where
  "njs_lvlhsh_level_delete pr lhq n lvl key nlvl m =
     (let sh = lvlhsh_shift pr nlvl; i = level_index key sh
      in case slot_at lvl i of
           Null \<Rightarrow> (NJS_DECLINED, lhq, Level n lvl, m)
         | s \<Rightarrow>
             (case (case s of
                      Chain bkt \<Rightarrow>
                        (case njs_lvlhsh_bucket_delete pr lhq bkt m of
                           (ret, lhq, bkt, m) \<Rightarrow> (ret, lhq, chain_slot bkt, m))
                    | Level n' lvl' \<Rightarrow>
                        njs_lvlhsh_level_delete pr lhq n' lvl' (drop_bit sh key) (nlvl + 1) m) of
                (ret, lhq, s, m) \<Rightarrow>
                  if s = Null then
                    if njs_lvlhsh_level_entries (n - 1) sh = 0 then (ret, lhq, Null, lvlhsh_free 1 m)
                    else (ret, lhq, Level (n - 1) (lvl[i := s]), m)
                  else (ret, lhq, Level n (lvl[i := s]), m)))"

definition njs_lvlhsh_delete ::
  "('k, 'v) njs_lvlhsh_proto_t \<Rightarrow> ('k, 'v) njs_lvlhsh_query_t \<Rightarrow> 'v slot \<Rightarrow> 'v lvlhsh_pool \<Rightarrow>
    njs_int_t \<times> ('k, 'v) njs_lvlhsh_query_t \<times> 'v slot \<times> 'v lvlhsh_pool"
where
  "njs_lvlhsh_delete pr lhq lh m =
     (case lh of
        Null \<Rightarrow> (NJS_DECLINED, lhq, lh, m)
      | Chain bkt \<Rightarrow>
          (case njs_lvlhsh_bucket_delete pr lhq bkt m of
             (ret, lhq, bkt, m) \<Rightarrow> (ret, lhq, chain_slot bkt, m))
      | Level n lvl \<Rightarrow> njs_lvlhsh_level_delete pr lhq n lvl (lhq_key_hash lhq) 0 m)"

section \<open>Iteration\<close>

text \<open>
  The bucket of an iterator: none yet, the end of a bucket chain, or a bucket, here with
  those that follow it in its chain.
\<close>

datatype 'v each_bucket = Each_start | NJS_LVLHSH_BUCKET_DONE | Each_at "'v bucket list"

record 'v njs_lvlhsh_each_t =
  each_bucket :: "'v each_bucket"
  each_current :: u32
  each_entry :: nat
  each_entries :: nat
  each_key_hash :: u32

definition njs_lvlhsh_each_init :: "'v njs_lvlhsh_each_t" where
  "njs_lvlhsh_each_init =
     \<lparr>each_bucket = Each_start, each_current = 0, each_entry = 0, each_entries = 0,
      each_key_hash = 0\<rparr>"

text \<open>The first valid entry, with the position behind it.\<close>

fun next_valid :: "nat \<Rightarrow> 'v cell list \<Rightarrow> ('v cell \<times> nat) option" where
  "next_valid i [] = None"
| "next_valid i ((k, v) # e) = (if v = None then next_valid (i + 1) e else Some ((k, v), i + 1))"

definition njs_lvlhsh_bucket_each :: "'v njs_lvlhsh_each_t \<Rightarrow> 'v option \<times> 'v njs_lvlhsh_each_t" where
  "njs_lvlhsh_bucket_each lhe =
     (case each_bucket lhe of
        Each_at ((_, cells) # next) \<Rightarrow>
          (case next_valid (each_entry lhe) (drop (each_entry lhe) cells) of
             Some ((k, value), entry) \<Rightarrow>
               let lhe = lhe\<lparr>each_entry := entry, each_key_hash := k,
                             each_entries := each_entries lhe - 1\<rparr>
               in if each_entries lhe = 0 then
                    (value,
                     case next of
                       [] \<Rightarrow> lhe\<lparr>each_bucket := NJS_LVLHSH_BUCKET_DONE, each_entries := 0,
                                each_entry := 0\<rparr>
                     | b # _ \<Rightarrow> lhe\<lparr>each_bucket := Each_at next, each_entries := fst b,
                                    each_entry := 0\<rparr>)
                  else (value, lhe)
           | None \<Rightarrow> (None, lhe))
      | _ \<Rightarrow> (None, lhe))"

text \<open>
  The loop of \<open>njs_lvlhsh_level_each\<close> from the slot \<open>n\<close> on: \<open>n\<close> is read back from
  \<^const>\<open>each_current\<close> in every round of the C code, where it was stored before.
\<close>

function level_each_loop ::
  "('k, 'v) njs_lvlhsh_proto_t \<Rightarrow> 'v njs_lvlhsh_each_t \<Rightarrow> nat \<Rightarrow> nat \<Rightarrow> nat \<Rightarrow> 'v slot list \<Rightarrow>
    'v option \<times> 'v njs_lvlhsh_each_t"
where
  "level_each_loop pr lhe nlvl sh n [] = (None, lhe)"
| "level_each_loop pr lhe nlvl sh n (slot # slots) =
     (let level_shift = lvlhsh_shift pr nlvl;
          next = (\<lambda>lhe. lhe\<lparr>each_current :=
                    (each_current lhe AND NOT (push_bit sh (mask level_shift))) OR
                    push_bit sh (of_nat (n + 1) AND mask level_shift)\<rparr>)
      in case slot of
           Null \<Rightarrow> level_each_loop pr (next lhe) nlvl sh (n + 1) slots
         | Chain bkt \<Rightarrow>
             if each_bucket lhe \<noteq> NJS_LVLHSH_BUCKET_DONE then
               njs_lvlhsh_bucket_each
                 (lhe\<lparr>each_bucket := Each_at bkt, each_entries := fst (hd bkt), each_entry := 0\<rparr>)
             else level_each_loop pr (next (lhe\<lparr>each_bucket := Each_start\<rparr>)) nlvl sh (n + 1) slots
         | Level _ lvl \<Rightarrow>
             let sh' = sh + level_shift;
                 n' = level_index (drop_bit sh' (each_current lhe)) (lvlhsh_shift pr (nlvl + 1))
             in case level_each_loop pr lhe (nlvl + 1) sh' n' (drop n' lvl) of
                  (Some value, lhe) \<Rightarrow> (Some value, lhe)
                | (None, lhe) \<Rightarrow> level_each_loop pr (next lhe) nlvl sh (n + 1) slots)"
  by pat_completeness auto

termination
  by (relation "measure (\<lambda>(pr, lhe, nlvl, sh, n, slots). size_list size slots)")
    (auto simp: less_Suc_eq_le trans_le_add1 intro: size_list_drop le_trans [OF size_list_drop])

definition njs_lvlhsh_level_each ::
  "('k, 'v) njs_lvlhsh_proto_t \<Rightarrow> 'v njs_lvlhsh_each_t \<Rightarrow> 'v slot list \<Rightarrow> nat \<Rightarrow> nat \<Rightarrow>
    'v option \<times> 'v njs_lvlhsh_each_t"
where
  "njs_lvlhsh_level_each pr lhe level nlvl sh =
     (let n = level_index (drop_bit sh (each_current lhe)) (lvlhsh_shift pr nlvl)
      in level_each_loop pr lhe nlvl sh n (drop n level))"

definition njs_lvlhsh_each ::
  "('k, 'v) njs_lvlhsh_proto_t \<Rightarrow> 'v slot \<Rightarrow> 'v njs_lvlhsh_each_t \<Rightarrow> 'v option \<times> 'v njs_lvlhsh_each_t"
where
  "njs_lvlhsh_each pr lh lhe =
     (case each_bucket lhe of
        NJS_LVLHSH_BUCKET_DONE \<Rightarrow>
          (case lh of Level n lvl \<Rightarrow> njs_lvlhsh_level_each pr lhe lvl 0 0 | _ \<Rightarrow> (None, lhe))
      | Each_start \<Rightarrow>
          (case lh of
             Null \<Rightarrow> (None, lhe)
           | Chain bkt \<Rightarrow>
               njs_lvlhsh_bucket_each
                 (lhe\<lparr>each_bucket := Each_at bkt, each_entries := fst (hd bkt)\<rparr>)
           | Level n lvl \<Rightarrow> njs_lvlhsh_level_each pr lhe lvl 0 0)
      | Each_at _ \<Rightarrow> njs_lvlhsh_bucket_each lhe)"

end
