(* ===== verification/Njs_Lvlhsh_Map.thy ===== *)
theory Njs_Lvlhsh_Map
  imports Njs_Lvlhsh "HOL-Library.Multiset"
begin

text \<open>
  The level hash as a finite map: its well-formedness, which every operation keeps, and the
  effect of the operations on the entries it holds. A failed allocation loses nothing, and
  the blocks of the pool in use are those the hash consists of.
\<close>

section \<open>The entries of a hash\<close>

fun valid_cells :: "'v cell list \<Rightarrow> (u32 \<times> 'v) list" where
  "valid_cells [] = []"
| "valid_cells ((k, v) # e) = (case v of None \<Rightarrow> valid_cells e | Some x \<Rightarrow> (k, x) # valid_cells e)"

definition bucket_cells :: "'v bucket \<Rightarrow> (u32 \<times> 'v) list" where
  "bucket_cells b = take (fst b) (valid_cells (snd b))"

definition chain_cells :: "'v bucket list \<Rightarrow> (u32 \<times> 'v) list" where
  "chain_cells bkt = concat (map bucket_cells bkt)"

fun slot_cells :: "'v slot \<Rightarrow> (u32 \<times> 'v) list" where
  "slot_cells Null = []"
| "slot_cells (Chain bkt) = chain_cells bkt"
| "slot_cells (Level n lvl) = concat (map slot_cells lvl)"

fun slot_blocks :: "'v slot \<Rightarrow> nat" where
  "slot_blocks Null = 0"
| "slot_blocks (Chain bkt) = length bkt"
| "slot_blocks (Level n lvl) = Suc (sum_list (map slot_blocks lvl))"

lemma valid_cells_append [simp]: "valid_cells (xs @ ys) = valid_cells xs @ valid_cells ys"
  by (induction xs rule: valid_cells.induct) (simp_all split: option.split)

lemma length_valid_cells: "length (valid_cells cells) \<le> length cells"
  by (induction cells rule: valid_cells.induct) (auto split: option.split)

lemma chain_cells_simps [simp]:
  "chain_cells [] = []"
  "chain_cells (b # bkt) = bucket_cells b @ chain_cells bkt"
  "chain_cells (xs @ ys) = chain_cells xs @ chain_cells ys"
  by (simp_all add: chain_cells_def)

section \<open>Well-formedness\<close>

text \<open>
  The number of a bucket is the number of its valid entries that count: what lies behind
  them may be anything.
\<close>

definition bucket_ok :: "('k, 'v) njs_lvlhsh_proto_t \<Rightarrow> 'v bucket \<Rightarrow> bool" where
  "bucket_ok pr b \<longleftrightarrow>
     length (snd b) = proto_bucket_end pr \<and> fst b \<noteq> 0 \<and> fst b \<le> length (valid_cells (snd b))"

definition level_bits :: "('k, 'v) njs_lvlhsh_proto_t \<Rightarrow> nat \<Rightarrow> nat" where
  "level_bits pr n = sum_list (map (lvlhsh_shift pr) [0..<n])"

lemma level_bits_simps [simp]:
  "level_bits pr 0 = 0" "level_bits pr (Suc n) = level_bits pr n + lvlhsh_shift pr n"
  by (simp_all add: level_bits_def)

lemma size_slot_nth [termination_simp]: "i < length lvl \<Longrightarrow> size (slot_at lvl i) < Suc (size_list size lvl)"
  by (auto simp: slot_at_def less_Suc_eq_le intro!: size_list_estimation' [of "lvl ! i"])

text \<open>
  A slot below \<open>n\<close> levels: all its keys have the low bits \<open>p\<close> that lead to it, only the last
  level has chains of several buckets, and a level counts its used slots.
\<close>

fun slot_ok :: "('k, 'v) njs_lvlhsh_proto_t \<Rightarrow> nat \<Rightarrow> nat \<Rightarrow> 'v slot \<Rightarrow> bool" where
  "slot_ok pr n p Null \<longleftrightarrow> True"
| "slot_ok pr n p (Chain bkt) \<longleftrightarrow>
     bkt \<noteq> [] \<and> list_all (bucket_ok pr) bkt \<and> (lvlhsh_shift pr n \<noteq> 0 \<longrightarrow> length bkt = 1) \<and>
     list_all (\<lambda>(k, _). unat k mod 2 ^ level_bits pr n = p) (chain_cells bkt)"
| "slot_ok pr n p (Level c lvl) \<longleftrightarrow>
     lvlhsh_shift pr n \<noteq> 0 \<and> length lvl = 2 ^ lvlhsh_shift pr n \<and>
     c = length (filter (\<lambda>s. s \<noteq> Null) lvl) \<and> c \<noteq> 0 \<and>
     (\<forall>i\<in>{..<length lvl}. slot_ok pr (Suc n) (p + i * 2 ^ level_bits pr n) (slot_at lvl i))"

section \<open>Search in a bucket\<close>

definition hit ::
  "('k, 'v) njs_lvlhsh_proto_t \<Rightarrow> ('k, 'v) njs_lvlhsh_query_t \<Rightarrow> u32 \<times> 'v \<Rightarrow> bool" where
  "hit pr lhq = (\<lambda>(k, x). k = lhq_key_hash lhq \<and> proto_test pr (lhq_key lhq) x)"

abbreviation no_hit ::
  "('k, 'v) njs_lvlhsh_proto_t \<Rightarrow> ('k, 'v) njs_lvlhsh_query_t \<Rightarrow> (u32 \<times> 'v) list \<Rightarrow> bool" where
  "no_hit pr lhq cells \<equiv> list_all (\<lambda>c. \<not> hit pr lhq c) cells"

text \<open>The entry at the position \<open>i\<close> is the first with the key.\<close>

definition first_hit ::
  "('k, 'v) njs_lvlhsh_proto_t \<Rightarrow> ('k, 'v) njs_lvlhsh_query_t \<Rightarrow> nat \<Rightarrow> 'v cell list \<Rightarrow> nat \<Rightarrow> bool"
where
  "first_hit pr lhq n cells i \<longleftrightarrow>
     (\<exists>pre k x post. cells = pre @ (k, Some x) # post \<and> i = length pre \<and> hit pr lhq (k, x) \<and>
        length (valid_cells pre) < n \<and> no_hit pr lhq (valid_cells pre))"

lemma first_hit_0: "hit pr lhq (k, x) \<Longrightarrow> n \<noteq> 0 \<Longrightarrow> first_hit pr lhq n ((k, Some x) # e) 0"
  by (auto simp: first_hit_def intro!: exI [of _ "[]"])

lemma first_hit_Suc:
  "first_hit pr lhq (n - 1) e i \<Longrightarrow> \<not> hit pr lhq (k, x) \<Longrightarrow>
     first_hit pr lhq n ((k, Some x) # e) (Suc i)"
  "first_hit pr lhq n e i \<Longrightarrow> first_hit pr lhq n ((k, None) # e) (Suc i)"
  unfolding first_hit_def by (force intro: exI [of _ "(k, Some x) # _"], force intro: exI [of _ "(k, None) # _"])

lemma bucket_find_loop_None:
  "n \<noteq> 0 \<Longrightarrow> bucket_find_loop pr lhq i n cells = None \<Longrightarrow> no_hit pr lhq (take n (valid_cells cells))"
  by (induction pr lhq i n cells rule: bucket_find_loop.induct)
    (auto simp: hit_def take_Cons' split: option.splits if_splits)

lemma bucket_find_loop_Some:
  "n \<noteq> 0 \<Longrightarrow> bucket_find_loop pr lhq i n cells = Some j \<Longrightarrow>
     i \<le> j \<and> first_hit pr lhq n cells (j - i)"
proof (induction pr lhq i n cells rule: bucket_find_loop.induct)
  case (2 pr lhq i n k v e)
  show ?case
  proof (cases v)
    case None
    with 2 have "Suc i \<le> j \<and> first_hit pr lhq n e (j - Suc i)" by simp
    then show ?thesis using first_hit_Suc(2) [of pr lhq n e "j - Suc i" k] None by (simp add: Suc_diff_Suc)
  next
    case (Some x)
    show ?thesis
    proof (cases "hit pr lhq (k, x)")
      case True
      then show ?thesis using 2 Some by (auto simp: hit_def intro: first_hit_0)
    next
      case False
      with 2 Some have "Suc i \<le> j \<and> first_hit pr lhq (n - 1) e (j - Suc i)"
        by (auto simp: hit_def split: if_splits)
      then show ?thesis using first_hit_Suc(1) [of pr lhq n e "j - Suc i" k x] False Some
        by (simp add: Suc_diff_Suc)
    qed
  qed
qed simp

text \<open>What the search of an insertion finds when there is no entry with the key.\<close>

definition vacant_at :: "('k, 'v) njs_lvlhsh_proto_t \<Rightarrow> nat \<Rightarrow> 'v cell list \<Rightarrow> nat \<Rightarrow> bool" where
  "vacant_at pr n cells i \<longleftrightarrow>
     (\<exists>pre c post. cells = pre @ c # post \<and> i = length pre \<and> length (valid_cells pre) \<le> n \<and>
        (snd c = None \<or> length (valid_cells pre) = n))"

lemma bucket_insert_loop_hit:
  "n \<noteq> 0 \<Longrightarrow> bucket_insert_loop pr lhq i n vac cells = (f, v, e) \<Longrightarrow>
     f = bucket_find_loop pr lhq i n cells"
  by (induction pr lhq i n vac cells arbitrary: f v e rule: bucket_insert_loop.induct)
    (auto simp: Let_def split: option.splits if_splits)

text \<open>
  Without an entry with the key the loop stops behind the last valid entry; without a hole
  before it all cells are valid.
\<close>

definition insert_end ::
  "nat \<Rightarrow> nat \<Rightarrow> nat option \<Rightarrow> 'v cell list \<Rightarrow> nat option \<Rightarrow> nat \<Rightarrow> bool" where
  "insert_end i n vac cells v e \<longleftrightarrow>
     (\<exists>pre post. cells = pre @ post \<and> e = i + length pre \<and> length (valid_cells pre) = n \<and>
       (vac \<noteq> None \<longrightarrow> v = vac) \<and>
       (vac = None \<longrightarrow> v = None \<longrightarrow> length (valid_cells pre) = length pre) \<and>
       (\<forall>h. vac = None \<longrightarrow> v = Some h \<longrightarrow>
          (\<exists>p1 k p2. pre = p1 @ (k, None) # p2 \<and> h = i + length p1)))"

lemma insert_end_1: "insert_end i 1 vac ((k, Some x) # cells) vac (Suc i)"
  unfolding insert_end_def
  by (intro exI [of _ "[(k, Some x)]"] exI [of _ cells]) auto

lemma insert_end_Some:
  assumes "insert_end (Suc i) (n - 1) vac cells v e" "n \<noteq> 0"
  shows "insert_end i n vac ((k, Some x) # cells) v e"
proof -
  from assms(1) obtain pre post where pp: "cells = pre @ post" "e = Suc i + length pre"
    "length (valid_cells pre) = n - 1" "vac \<noteq> None \<longrightarrow> v = vac"
    "vac = None \<longrightarrow> v = None \<longrightarrow> length (valid_cells pre) = length pre"
    "\<forall>h. vac = None \<longrightarrow> v = Some h \<longrightarrow> (\<exists>p1 k p2. pre = p1 @ (k, None) # p2 \<and> h = Suc i + length p1)"
    unfolding insert_end_def by blast
  have "\<forall>h. vac = None \<longrightarrow> v = Some h \<longrightarrow>
      (\<exists>p1 k' p2. (k, Some x) # pre = p1 @ (k', None) # p2 \<and> h = i + length p1)"
  proof (intro allI impI)
    fix h assume "vac = None" "v = Some h"
    with pp(6) obtain p1 k' p2 where "pre = p1 @ (k', None) # p2" "h = Suc i + length p1" by blast
    then show "\<exists>p1 k' p2. (k, Some x) # pre = p1 @ (k', None) # p2 \<and> h = i + length p1"
      by (intro exI [of _ "(k, Some x) # p1"]) auto
  qed
  then show ?thesis unfolding insert_end_def using pp assms(2)
    by (intro exI [of _ "(k, Some x) # pre"] exI [of _ post]) auto
qed

lemma insert_end_None:
  assumes "insert_end (Suc i) n (case vac of None \<Rightarrow> Some i | Some j \<Rightarrow> Some j) cells v e"
  shows "insert_end i n vac ((k, None) # cells) v e"
proof -
  from assms obtain pre post where pp: "cells = pre @ post" "e = Suc i + length pre"
    "length (valid_cells pre) = n" "v = (case vac of None \<Rightarrow> Some i | Some j \<Rightarrow> Some j)"
    unfolding insert_end_def by (auto split: option.splits)
  have "\<forall>h. vac = None \<longrightarrow> v = Some h \<longrightarrow>
      (\<exists>p1 k' p2. (k, None) # pre = p1 @ (k', None) # p2 \<and> h = i + length p1)"
    using pp(4) by (auto intro!: exI [of _ "[]"])
  then show ?thesis unfolding insert_end_def using pp
    by (intro exI [of _ "(k, None) # pre"] exI [of _ post]) (auto split: option.splits)
qed

lemma bucket_insert_loop_end:
  "n \<noteq> 0 \<Longrightarrow> n \<le> length (valid_cells cells) \<Longrightarrow>
     bucket_insert_loop pr lhq i n vac cells = (None, v, e) \<Longrightarrow> insert_end i n vac cells v e"
proof (induction pr lhq i n vac cells arbitrary: v e rule: bucket_insert_loop.induct)
  case (2 pr lhq i n vac k w cells)
  show ?case
  proof (cases w)
    case (Some x)
    show ?thesis
    proof (cases "n - 1 = 0")
      case True
      with 2 Some have "v = vac" "e = Suc i" "n = 1" by (auto split: if_splits)
      then show ?thesis using insert_end_1 [of i vac] Some by auto
    next
      case False
      with 2 Some have "insert_end (Suc i) (n - 1) vac cells v e" by (auto split: if_splits)
      then show ?thesis using 2(3) Some by (simp add: insert_end_Some)
    qed
  next
    case None
    with 2 have "insert_end (Suc i) n (case vac of None \<Rightarrow> Some i | Some j \<Rightarrow> Some j) cells v e"
      by (auto simp: Let_def split: if_splits)
    then show ?thesis using None by (simp add: insert_end_None)
  qed
qed simp

text \<open>The search of the chain.\<close>

definition chain_hit ::
  "('k, 'v) njs_lvlhsh_proto_t \<Rightarrow> ('k, 'v) njs_lvlhsh_query_t \<Rightarrow> 'v bucket list \<Rightarrow> nat \<Rightarrow> nat \<Rightarrow> bool"
where
  "chain_hit pr lhq bkt b i \<longleftrightarrow>
     (\<exists>xs n cells ys. bkt = xs @ (n, cells) # ys \<and> b = length xs \<and> no_hit pr lhq (chain_cells xs) \<and>
        first_hit pr lhq n cells i)"

definition chain_vacant ::
  "('k, 'v) njs_lvlhsh_proto_t \<Rightarrow> 'v bucket list \<Rightarrow> nat \<Rightarrow> nat \<Rightarrow> bool"
where
  "chain_vacant pr bkt b i \<longleftrightarrow>
     (\<exists>xs n cells ys. bkt = xs @ (n, cells) # ys \<and> b = length xs \<and> vacant_at pr n cells i)"

definition bucket_full :: "('k, 'v) njs_lvlhsh_proto_t \<Rightarrow> 'v bucket \<Rightarrow> bool" where
  "bucket_full pr b \<longleftrightarrow>
     fst b = proto_bucket_end pr \<and> length (valid_cells (snd b)) = proto_bucket_end pr"

lemma chain_search_hit:
  "list_all (bucket_ok pr) bkt \<Longrightarrow> chain_search pr lhq b0 vac bkt = (Some (b, i), v) \<Longrightarrow>
     b0 \<le> b \<and> chain_hit pr lhq bkt (b - b0) i"
proof (induction pr lhq b0 vac bkt arbitrary: v rule: chain_search.induct)
  case (2 pr lhq b0 vac n cells bkt)
  obtain f h e where loop: "bucket_insert_loop pr lhq 0 n (if vac = None then None else Some 0) cells = (f, h, e)"
    by (metis prod_cases3)
  from 2(2) have n: "n \<noteq> 0" by (simp add: bucket_ok_def)
  note f = bucket_insert_loop_hit [OF n loop]
  show ?case
  proof (cases f)
    case (Some j)
    with 2(3) loop have "b = b0" "j = i" by auto
    moreover have "first_hit pr lhq n cells i"
      using bucket_find_loop_Some [OF n f [symmetric, unfolded Some]] \<open>j = i\<close> by simp
    ultimately show ?thesis by (auto simp: chain_hit_def intro!: exI [of _ "[]"])
  next
    case None
    with 2 loop have *: "b0 + 1 \<le> b \<and> chain_hit pr lhq bkt (b - (b0 + 1)) i"
      by (auto simp: Let_def)
    then obtain xs n' cells' ys where "bkt = xs @ (n', cells') # ys" "b - (b0 + 1) = length xs"
      "no_hit pr lhq (chain_cells xs)" "first_hit pr lhq n' cells' i"
      by (auto simp: chain_hit_def)
    moreover have "no_hit pr lhq (bucket_cells (n, cells))"
      using bucket_find_loop_None [OF n f [symmetric, unfolded None]] by (simp add: bucket_cells_def)
    ultimately have "chain_hit pr lhq ((n, cells) # bkt) (b - b0) i"
      unfolding chain_hit_def using * by (intro exI [of _ "(n, cells) # xs"]) auto
    with * show ?thesis by simp
  qed
qed simp

lemma chain_search_saved: "chain_search pr lhq b0 (Some w) bkt = (None, v) \<Longrightarrow> v = Some w"
  by (induction bkt arbitrary: b0) (auto simp: Let_def split: option.splits prod.splits)

lemma chain_search_no_hit:
  "list_all (bucket_ok pr) bkt \<Longrightarrow> chain_search pr lhq b0 vac bkt = (None, v) \<Longrightarrow>
     no_hit pr lhq (chain_cells bkt)"
proof (induction pr lhq b0 vac bkt arbitrary: v rule: chain_search.induct)
  case (2 pr lhq b0 vac n cells bkt)
  obtain f h e where loop: "bucket_insert_loop pr lhq 0 n (if vac = None then None else Some 0) cells = (f, h, e)"
    by (metis prod_cases3)
  from 2(2) have n: "n \<noteq> 0" by (simp add: bucket_ok_def)
  from 2(3) loop have f: "f = None" by (auto split: option.splits)
  have "no_hit pr lhq (bucket_cells (n, cells))"
    using bucket_find_loop_None [OF n bucket_insert_loop_hit [OF n loop, unfolded f, symmetric]]
    by (simp add: bucket_cells_def)
  moreover have "no_hit pr lhq (chain_cells bkt)"
    using 2 loop f by (auto simp: Let_def)
  ultimately show ?case by simp
qed simp

lemma insert_end_vacant:
  assumes "insert_end 0 n None cells v e" "length cells = proto_bucket_end pr"
  shows "v = Some i \<Longrightarrow> vacant_at pr n cells i"
    and "v = None \<Longrightarrow> e < proto_bucket_end pr \<Longrightarrow> vacant_at pr n cells e"
    and "v = None \<Longrightarrow> \<not> e < proto_bucket_end pr \<Longrightarrow> bucket_full pr (n, cells)"
proof -
  from assms obtain pre post where pp: "cells = pre @ post" "e = length pre"
    "length (valid_cells pre) = n" "v = None \<longrightarrow> length (valid_cells pre) = length pre"
    "\<forall>h. v = Some h \<longrightarrow> (\<exists>p1 k p2. pre = p1 @ (k, None) # p2 \<and> h = length p1)"
    unfolding insert_end_def by auto
  show "vacant_at pr n cells i" if "v = Some i"
  proof -
    from pp(5) that obtain p1 k p2 where "pre = p1 @ (k, None) # p2" "i = length p1" by blast
    then show ?thesis using pp unfolding vacant_at_def
      by (intro exI [of _ p1] exI [of _ "(k, None)"] exI [of _ "p2 @ post"]) auto
  qed
  show "vacant_at pr n cells e" if "v = None" "e < proto_bucket_end pr"
  proof -
    from that pp assms(2) obtain c post' where "post = c # post'" by (cases post) auto
    then show ?thesis using pp unfolding vacant_at_def
      by (intro exI [of _ pre] exI [of _ c] exI [of _ post']) auto
  qed
  show "bucket_full pr (n, cells)" if "v = None" "\<not> e < proto_bucket_end pr"
    using that pp assms(2) length_valid_cells [of post] by (auto simp: bucket_full_def)
qed

lemma chain_search_vacant:
  "list_all (bucket_ok pr) bkt \<Longrightarrow> chain_search pr lhq b0 None bkt = (None, v) \<Longrightarrow>
     (\<forall>b i. v = Some (b, i) \<longrightarrow> b0 \<le> b \<and> chain_vacant pr bkt (b - b0) i) \<and>
     (v = None \<longrightarrow> list_all (bucket_full pr) bkt)"
proof (induction bkt arbitrary: b0)
  case (Cons a bkt)
  obtain n cells where a: "a = (n, cells)" by force
  obtain f h e where loop: "bucket_insert_loop pr lhq 0 n None cells = (f, h, e)"
    by (metis prod_cases3)
  from Cons(2) a have n: "n \<noteq> 0" "n \<le> length (valid_cells cells)" "length cells = proto_bucket_end pr"
    by (simp_all add: bucket_ok_def)
  from Cons(3) a loop have f: "f = None" by (auto split: option.splits)
  note vac = insert_end_vacant [OF bucket_insert_loop_end [OF n(1,2) loop [unfolded f]] n(3)]
  have here: "chain_vacant pr (a # bkt) 0 i" if "vacant_at pr n cells i" for i
    using that a unfolding chain_vacant_def by (auto intro!: exI [of _ "[]"])
  show ?case
  proof (cases "h = None \<and> \<not> e < proto_bucket_end pr")
    case True
    with Cons(3) a loop f have "chain_search pr lhq (Suc b0) None bkt = (None, v)"
      by (auto simp: Let_def)
    with Cons(1) [of "Suc b0"] Cons(2)
    have IH: "(\<forall>b i. v = Some (b, i) \<longrightarrow> Suc b0 \<le> b \<and> chain_vacant pr bkt (b - Suc b0) i) \<and>
        (v = None \<longrightarrow> list_all (bucket_full pr) bkt)" by simp
    have "chain_vacant pr (a # bkt) (Suc d) i" if "chain_vacant pr bkt d i" for d i
      using that unfolding chain_vacant_def by (metis append_Cons length_Cons)
    with IH have "b0 \<le> b \<and> chain_vacant pr (a # bkt) (b - b0) i" if "v = Some (b, i)" for b i
      using that by (metis Suc_diff_Suc Suc_le_eq less_imp_le)
    then show ?thesis using IH vac(3) True a by auto
  next
    case False
    then have "v = Some (b0, case h of Some i \<Rightarrow> i | None \<Rightarrow> e)"
      using Cons(3) a loop f by (auto simp: Let_def split: option.splits dest: chain_search_saved)
    then show ?thesis using here vac(1,2) False by (auto split: option.splits)
  qed
qed simp

section \<open>Search\<close>

lemma find_append: "find P (xs @ ys) = (case find P xs of None \<Rightarrow> find P ys | Some x \<Rightarrow> Some x)"
  by (induction xs) auto

lemma find_no_hit [simp]: "no_hit pr lhq xs \<Longrightarrow> find (hit pr lhq) xs = None"
  by (auto simp: find_None_iff list_all_iff)

lemma find_None_no_hit: "find (hit pr lhq) xs = None \<longleftrightarrow> no_hit pr lhq xs"
  by (auto simp: find_None_iff list_all_iff)

text \<open>
  What the first entry with the key is in the entries of its bucket, with the effect of
  replacing its value and of removing it.
\<close>

lemma first_hit_cells:
  assumes "first_hit pr lhq n cells i" "n \<le> length (valid_cells cells)"
  obtains k x xs ys where "cells ! i = (k, Some x)" "i < length cells" "hit pr lhq (k, x)"
    "no_hit pr lhq xs" "bucket_cells (n, cells) = xs @ (k, x) # ys"
    "\<And>k' y. bucket_cells (n, cells[i := (k', Some y)]) = xs @ (k', y) # ys"
    "\<And>k'. bucket_cells (n - 1, cells[i := (k', None)]) = xs @ ys"
    "\<And>k' y. length (valid_cells (cells[i := (k', Some y)])) = length (valid_cells cells)"
    "\<And>k'. length (valid_cells (cells[i := (k', None)])) = length (valid_cells cells) - 1"
proof -
  from assms(1) obtain pre k x post where *: "cells = pre @ (k, Some x) # post" "i = length pre"
    "hit pr lhq (k, x)" "length (valid_cells pre) < n" "no_hit pr lhq (valid_cells pre)"
    by (auto simp: first_hit_def)
  show thesis
  proof (rule that [of k x "valid_cells pre" "take (n - Suc (length (valid_cells pre))) (valid_cells post)"])
    show "bucket_cells (n - 1, cells[i := (k', None)]) =
        valid_cells pre @ take (n - Suc (length (valid_cells pre))) (valid_cells post)" for k'
      using * by (simp add: bucket_cells_def)
  qed (use * assms(2) in \<open>auto simp: bucket_cells_def take_Cons'\<close>)
qed

definition find_result ::
  "('k, 'v) njs_lvlhsh_proto_t \<Rightarrow> ('k, 'v) njs_lvlhsh_query_t \<Rightarrow> (u32 \<times> 'v) list \<Rightarrow>
    njs_int_t \<times> ('k, 'v) njs_lvlhsh_query_t"
where
  "find_result pr lhq cells =
     (case find (hit pr lhq) cells of
        None \<Rightarrow> (NJS_DECLINED, lhq)
      | Some (k, x) \<Rightarrow> (NJS_OK, lhq\<lparr>lhq_value := Some x\<rparr>))"

lemma bucket_find_correct:
  "list_all (bucket_ok pr) bkt \<Longrightarrow> njs_lvlhsh_bucket_find pr lhq bkt = find_result pr lhq (chain_cells bkt)"
proof (induction pr lhq bkt rule: njs_lvlhsh_bucket_find.induct)
  case (2 pr lhq n cells bkt)
  then have n: "n \<noteq> 0" "n \<le> length (valid_cells cells)" by (simp_all add: bucket_ok_def)
  show ?case
  proof (cases "bucket_find_loop pr lhq 0 n cells")
    case None
    have "no_hit pr lhq (bucket_cells (n, cells))"
      using bucket_find_loop_None [OF n(1) None] by (simp add: bucket_cells_def)
    then show ?thesis using 2 None by (simp add: find_result_def find_append)
  next
    case (Some i)
    then have "first_hit pr lhq n cells i" using bucket_find_loop_Some [OF n(1) Some] by simp
    then show ?thesis
      by (rule first_hit_cells [OF _ n(2)]) (simp add: Some find_result_def find_append)
  qed
qed (simp add: find_result_def)

text \<open>Where the keys of a slot are.\<close>

lemma slot_at_nth [simp]: "i < length lvl \<Longrightarrow> slot_at lvl i = lvl ! i"
  by (simp add: slot_at_def)

lemma slot_ok_keys:
  "slot_ok pr n p s \<Longrightarrow> p < 2 ^ level_bits pr n \<Longrightarrow> (k, x) \<in> set (slot_cells s) \<Longrightarrow>
     unat k mod 2 ^ level_bits pr n = p"
proof (induction s arbitrary: n p)
  case (Level c lvl)
  from Level.prems(3) obtain s where "s \<in> set lvl" "(k, x) \<in> set (slot_cells s)" by auto
  then obtain i where i: "i < length lvl" "lvl ! i = s" by (auto simp: in_set_conv_nth)
  let ?b = "level_bits pr n" and ?sh = "lvlhsh_shift pr n"
  have q: "p + i * 2 ^ ?b < 2 ^ level_bits pr (Suc n)"
  proof -
    have "p + i * 2 ^ ?b < 2 ^ ?b + i * 2 ^ ?b" using Level.prems(2) by simp
    also have "\<dots> = Suc i * 2 ^ ?b" by simp
    also have "\<dots> \<le> 2 ^ ?sh * 2 ^ ?b"
      using i Level.prems(1) by (intro mult_le_mono1) simp
    finally show ?thesis by (simp add: power_add mult.commute)
  qed
  have "slot_ok pr (Suc n) (p + i * 2 ^ ?b) s"
    using Level.prems(1) i by auto
  with Level.IH [OF \<open>s \<in> set lvl\<close> _ q \<open>(k, x) \<in> set (slot_cells s)\<close>]
  have "unat k mod 2 ^ (?b + ?sh) = p + i * 2 ^ ?b" by simp
  then have "unat k mod 2 ^ (?b + ?sh) mod 2 ^ ?b = p" using Level.prems(2) by simp
  then show ?case by (simp add: mod_mod_cancel le_imp_power_dvd)
qed (auto simp: list_all_iff)

lemma level_index_eq: "level_index key sh = unat key mod 2 ^ sh"
  by (simp add: level_index_def unat_and_mask)

text \<open>The entries of a level, before, in and behind one of its slots.\<close>

definition level_before :: "'v slot list \<Rightarrow> nat \<Rightarrow> (u32 \<times> 'v) list" where
  "level_before lvl i = concat (map slot_cells (take i lvl))"

definition level_behind :: "'v slot list \<Rightarrow> nat \<Rightarrow> (u32 \<times> 'v) list" where
  "level_behind lvl i = concat (map slot_cells (drop (Suc i) lvl))"

lemma level_cells:
  "i < length lvl \<Longrightarrow> slot_cells (Level c lvl) = level_before lvl i @ slot_cells (lvl ! i) @ level_behind lvl i"
proof -
  assume i: "i < length lvl"
  then have "lvl = take i lvl @ lvl ! i # drop (Suc i) lvl" by (rule id_take_nth_drop)
  from arg_cong [OF this, of "\<lambda>l. concat (map slot_cells l)"]
  show ?thesis by (simp add: level_before_def level_behind_def)
qed

lemma level_cells_update:
  "i < length lvl \<Longrightarrow> slot_cells (Level c (lvl[i := s])) = level_before lvl i @ slot_cells s @ level_behind lvl i"
  by (simp add: level_before_def level_behind_def upd_conv_take_nth_drop)

text \<open>The slot a key leads to is the only one that can hold it.\<close>

definition key_at ::
  "('k, 'v) njs_lvlhsh_proto_t \<Rightarrow> ('k, 'v) njs_lvlhsh_query_t \<Rightarrow> nat \<Rightarrow> nat \<Rightarrow> u32 \<Rightarrow> bool" where
  "key_at pr lhq n p key \<longleftrightarrow>
     p = unat (lhq_key_hash lhq) mod 2 ^ level_bits pr n \<and>
     key = drop_bit (level_bits pr n) (lhq_key_hash lhq)"

lemma key_at_0: "key_at pr lhq 0 0 (lhq_key_hash lhq)"
  by (simp add: key_at_def)

lemma key_at_less: "key_at pr lhq n p key \<Longrightarrow> p < 2 ^ level_bits pr n"
  by (simp add: key_at_def)

lemma key_at_Suc:
  assumes "key_at pr lhq n p key"
  shows "key_at pr lhq (Suc n) (p + level_index key (lvlhsh_shift pr n) * 2 ^ level_bits pr n)
    (drop_bit (lvlhsh_shift pr n) key)"
proof -
  have "x mod 2 ^ (b + s) = x mod 2 ^ b + x div 2 ^ b mod 2 ^ s * 2 ^ b" for x b s :: nat
    by (simp add: power_add mod_mult2_eq)
  moreover have "drop_bit s (drop_bit b x) = drop_bit (b + s) x" for x :: u32 and b s
    by (simp add: add.commute)
  ultimately show ?thesis using assms
    by (simp add: key_at_def level_index_eq unat_shr del: drop_bit_drop_bit)
qed

lemma level_slot:
  assumes "slot_ok pr n p (Level c lvl)" "key_at pr lhq n p key"
  defines "i \<equiv> level_index key (lvlhsh_shift pr n)"
  shows "i < length lvl"
    and "slot_ok pr (Suc n) (p + i * 2 ^ level_bits pr n) (lvl ! i)"
    and "no_hit pr lhq (level_before lvl i)" "no_hit pr lhq (level_behind lvl i)"
proof -
  let ?b = "level_bits pr n" and ?sh = "lvlhsh_shift pr n"
  show i: "i < length lvl" using assms(1) by (simp add: i_def level_index_eq)
  show "slot_ok pr (Suc n) (p + i * 2 ^ ?b) (lvl ! i)" using assms(1) i by auto
  have no: "no_hit pr lhq (slot_cells (lvl ! j))" if "j < length lvl" "j \<noteq> i" for j
  proof -
    have q: "p + j * 2 ^ ?b < 2 ^ level_bits pr (Suc n)"
    proof -
      have "p + j * 2 ^ ?b < Suc j * 2 ^ ?b" using key_at_less [OF assms(2)] by simp
      also have "\<dots> \<le> 2 ^ ?sh * 2 ^ ?b" using that(1) assms(1) by (intro mult_le_mono1) simp
      finally show ?thesis by (simp add: power_add mult.commute)
    qed
    have "slot_ok pr (Suc n) (p + j * 2 ^ ?b) (lvl ! j)" using assms(1) that(1) by auto
    from slot_ok_keys [OF this q]
    have "unat k mod 2 ^ level_bits pr (Suc n) = p + j * 2 ^ ?b"
      if "(k, x) \<in> set (slot_cells (lvl ! j))" for k x using that by blast
    moreover have "unat (lhq_key_hash lhq) mod 2 ^ level_bits pr (Suc n) = p + i * 2 ^ ?b"
      using key_at_Suc [OF assms(2)] by (simp add: key_at_def i_def)
    ultimately show ?thesis using that(2) by (fastforce simp: list_all_iff hit_def)
  qed
  have before: "no_hit pr lhq (slot_cells y)" if y: "y \<in> set (take i lvl)" for y
  proof -
    from y obtain j where "j < i" "y = lvl ! j" by (auto simp: in_set_conv_nth)
    then show ?thesis using no [of j] i by simp
  qed
  have behind: "no_hit pr lhq (slot_cells y)" if y: "y \<in> set (drop (Suc i) lvl)" for y
  proof -
    from y obtain j where "j < length lvl - Suc i" "y = lvl ! (Suc i + j)"
      by (auto simp: in_set_conv_nth)
    then show ?thesis using no [of "Suc i + j"] by simp
  qed
  show "no_hit pr lhq (level_before lvl i)" "no_hit pr lhq (level_behind lvl i)"
    using before behind unfolding level_before_def level_behind_def by (auto simp: list_all_iff)
qed

lemma find_result_level:
  "no_hit pr lhq A \<Longrightarrow> no_hit pr lhq B \<Longrightarrow> find_result pr lhq (A @ cells @ B) = find_result pr lhq cells"
  by (simp add: find_result_def find_append split: option.split)

lemma level_find_correct:
  "slot_ok pr n p (Level c lvl) \<Longrightarrow> key_at pr lhq n p key \<Longrightarrow>
     njs_lvlhsh_level_find pr lhq lvl key n = find_result pr lhq (slot_cells (Level c lvl))"
proof (induction pr lhq lvl key n arbitrary: c p rule: njs_lvlhsh_level_find.induct)
  case (1 pr lhq lvl key n)
  define i where "i = level_index key (lvlhsh_shift pr n)"
  note slot = level_slot [OF 1(2,3), folded i_def]
  have cells: "find_result pr lhq (slot_cells (Level c lvl)) = find_result pr lhq (slot_cells (lvl ! i))"
    unfolding level_cells [OF slot(1)] by (rule find_result_level [OF slot(3,4)])
  show ?case
  proof (cases "lvl ! i")
    case Null
    then show ?thesis using cells slot(1) by (simp add: i_def find_result_def del: slot_cells.simps(3))
  next
    case (Chain bkt)
    then have "list_all (bucket_ok pr) bkt" using slot(2) by simp
    then show ?thesis using cells slot(1) Chain bucket_find_correct
      by (simp add: i_def del: slot_cells.simps(3))
  next
    case (Level n' lvl')
    have "njs_lvlhsh_level_find pr lhq lvl' (drop_bit (lvlhsh_shift pr n) key) (n + 1) =
        find_result pr lhq (slot_cells (Level n' lvl'))"
      using 1(1) [OF refl] slot(1,2) Level key_at_Suc [OF 1(3)] by (simp add: i_def del: slot_cells.simps(3) slot_ok.simps)
    then show ?thesis using cells slot(1) Level
      by (subst njs_lvlhsh_level_find.simps) (simp add: i_def Let_def del: slot_cells.simps(3) njs_lvlhsh_level_find.simps)
  qed
qed

abbreviation lvlhsh_ok :: "('k, 'v) njs_lvlhsh_proto_t \<Rightarrow> 'v slot \<Rightarrow> bool" where
  "lvlhsh_ok pr lh \<equiv> slot_ok pr 0 0 lh"

lemma lvlhsh_find_correct:
  "lvlhsh_ok pr lh \<Longrightarrow> njs_lvlhsh_find pr lhq lh = find_result pr lhq (slot_cells lh)"
proof (cases lh)
  case (Level n lvl)
  then show "lvlhsh_ok pr lh \<Longrightarrow> ?thesis"
    unfolding njs_lvlhsh_find_def
    by (simp add: level_find_correct [OF _ key_at_0] del: slot_cells.simps(3) slot_ok.simps njs_lvlhsh_level_find.simps)
qed (auto simp: njs_lvlhsh_find_def find_result_def bucket_find_correct)

section \<open>Deletion\<close>

fun del_first :: "('a \<Rightarrow> bool) \<Rightarrow> 'a list \<Rightarrow> 'a list" where
  "del_first P [] = []"
| "del_first P (x # xs) = (if P x then xs else x # del_first P xs)"

lemma del_first_append:
  "del_first P (xs @ ys) = (case find P xs of None \<Rightarrow> xs @ del_first P ys | Some _ \<Rightarrow> del_first P xs @ ys)"
  by (induction xs) (auto split: option.split)

lemma del_first_no_hit [simp]: "no_hit pr lhq xs \<Longrightarrow> del_first (hit pr lhq) xs = xs"
  by (induction xs) auto

text \<open>The effect of a deletion on the entries of a slot, and on the blocks in use.\<close>

definition delete_result ::
  "('k, 'v) njs_lvlhsh_proto_t \<Rightarrow> ('k, 'v) njs_lvlhsh_query_t \<Rightarrow> 'v slot \<Rightarrow> 'v lvlhsh_pool \<Rightarrow>
    njs_int_t \<times> ('k, 'v) njs_lvlhsh_query_t \<times> 'v slot \<times> 'v lvlhsh_pool \<Rightarrow> bool"
where
  "delete_result pr lhq s m = (\<lambda>(ret, lhq', s', m').
     (ret, lhq') = find_result pr lhq (slot_cells s) \<and>
     slot_cells s' = del_first (hit pr lhq) (slot_cells s) \<and>
     m' = m\<lparr>pool_live := pool_live m + int (slot_blocks s') - int (slot_blocks s)\<rparr>)"

lemma bucket_delete_correct:
  "list_all (bucket_ok pr) bkt \<Longrightarrow> njs_lvlhsh_bucket_delete pr lhq bkt m = (ret, lhq', bkt', m') \<Longrightarrow>
     delete_result pr lhq (Chain bkt) m (ret, lhq', Chain bkt', m') \<and> list_all (bucket_ok pr) bkt' \<and>
     length bkt' \<le> length bkt"
proof (induction pr lhq bkt m arbitrary: ret lhq' bkt' m' rule: njs_lvlhsh_bucket_delete.induct)
  case (1 pr lhq m)
  then show ?case by (simp add: delete_result_def find_result_def)
next
  case (2 pr lhq n cells bkt m)
  then have n: "n \<noteq> 0" "n \<le> length (valid_cells cells)" "length cells = proto_bucket_end pr"
    by (simp_all add: bucket_ok_def)
  show ?case
  proof (cases "bucket_find_loop pr lhq 0 n cells")
    case None
    obtain r l b m1 where rec: "njs_lvlhsh_bucket_delete pr lhq bkt m = (r, l, b, m1)"
      by (metis prod_cases4)
    have no: "no_hit pr lhq (bucket_cells (n, cells))"
      using bucket_find_loop_None [OF n(1) None] by (simp add: bucket_cells_def)
    from rec None 2(2,3) have eq: "ret = r" "lhq' = l" "bkt' = (n, cells) # b" "m' = m1" by auto
    from 2(1) [OF None _ rec] 2(2)
    have IH: "delete_result pr lhq (Chain bkt) m (r, l, Chain b, m1)" "list_all (bucket_ok pr) b"
      "length b \<le> length bkt" by simp_all
    then show ?thesis using no eq 2(2)
      by (simp add: delete_result_def find_result_def find_append del_first_append)
  next
    case (Some i)
    then have "first_hit pr lhq n cells i" using bucket_find_loop_Some [OF n(1) Some] by simp
    then obtain k x xs ys where c: "cells ! i = (k, Some x)" "i < length cells" "hit pr lhq (k, x)"
      "no_hit pr lhq xs" "bucket_cells (n, cells) = xs @ (k, x) # ys"
      "bucket_cells (n - 1, cells[i := (k, None)]) = xs @ ys"
      "length (valid_cells (cells[i := (k, None)])) = length (valid_cells cells) - 1"
      by (rule first_hit_cells [OF _ n(2)]) blast
    define b where "b = (if n = 1 then [] else [(n - 1, cells[i := (k, None)])])"
    have res: "ret = NJS_OK" "lhq' = lhq\<lparr>lhq_value := Some x\<rparr>" "bkt' = b @ bkt"
      "m' = m\<lparr>pool_live := pool_live m + int (length b) - 1\<rparr>"
      using 2(3) Some c(1) by (auto simp: b_def lvlhsh_free_def split: if_splits)
    have cells: "chain_cells b = xs @ ys"
    proof (cases "n = 1")
      case True
      then have "length (bucket_cells (n, cells)) \<le> 1" by (simp add: bucket_cells_def)
      then show ?thesis using c(5) True by (simp add: b_def)
    next
      case False then show ?thesis using c(6) by (simp add: b_def)
    qed
    have "delete_result pr lhq (Chain ((n, cells) # bkt)) m (ret, lhq', Chain bkt', m')"
      using c(3,4) by (simp add: delete_result_def find_result_def find_append del_first_append res cells c(5))
    moreover have "list_all (bucket_ok pr) b" using n c(7) by (auto simp: b_def bucket_ok_def)
    moreover have "length b \<le> 1" by (simp add: b_def)
    ultimately show ?thesis using res 2(2) by simp
  qed
qed

lemma set_del_first: "set (del_first P xs) \<subseteq> set xs"
  by (induction xs) auto

lemma slot_cells_Nil: "slot_ok pr n p s \<Longrightarrow> s \<noteq> Null \<Longrightarrow> slot_cells s \<noteq> []"
proof (induction s arbitrary: n p)
  case (Chain bkt)
  then obtain b bs where "bkt = b # bs" "bucket_ok pr b" by (cases bkt) auto
  then show ?case by (auto simp: bucket_ok_def bucket_cells_def)
next
  case (Level c lvl)
  then have "filter (\<lambda>s. s \<noteq> Null) lvl \<noteq> []" by auto
  then obtain s where s: "s \<in> set lvl" "s \<noteq> Null" by (meson filter_False)
  then obtain i where "i < length lvl" "s = lvl ! i" by (metis in_set_conv_nth)
  with Level.prems(1) have "slot_ok pr (Suc n) (p + i * 2 ^ level_bits pr n) s" by auto
  from Level.IH [OF s(1) this s(2)] s(1) show ?case by auto
qed simp

text \<open>Storing a slot back into its level.\<close>

lemma level_update_ok:
  assumes "slot_ok pr n p (Level c lvl)" "i < length lvl"
    and "slot_ok pr (Suc n) (p + i * 2 ^ level_bits pr n) s" "s \<noteq> Null \<longleftrightarrow> lvl ! i \<noteq> Null"
  shows "slot_ok pr n p (Level c (lvl[i := s]))"
proof -
  have "length (filter (\<lambda>s. s \<noteq> Null) (lvl[i := s])) = length (filter (\<lambda>s. s \<noteq> Null) lvl)"
  proof -
    have "length (filter (\<lambda>s. s \<noteq> Null) (xs @ s # ys)) = length (filter (\<lambda>s. s \<noteq> Null) (xs @ lvl ! i # ys))"
      for xs ys using assms(4) by (cases "s = Null") auto
    from this [of "take i lvl" "drop (Suc i) lvl"]
    have "length (filter (\<lambda>s. s \<noteq> Null) (take i lvl @ s # drop (Suc i) lvl)) = length (filter (\<lambda>s. s \<noteq> Null) lvl)"
      unfolding id_take_nth_drop [OF assms(2), symmetric] .
    then show ?thesis using assms(2) by (simp add: upd_conv_take_nth_drop)
  qed
  then show ?thesis using assms by (auto simp: nth_list_update)
qed

lemma sum_list_update_slot:
  "i < length lvl \<Longrightarrow>
     int (slot_blocks (Level c (lvl[i := s]))) =
     int (slot_blocks (Level c' lvl)) + int (slot_blocks s) - int (slot_blocks (lvl ! i))"
proof -
  assume i: "i < length lvl"
  then have "sum_list (map slot_blocks (lvl[i := s])) + slot_blocks (lvl ! i) =
      sum_list (map slot_blocks lvl) + slot_blocks s"
    by (subst (2) id_take_nth_drop [OF i]) (simp add: upd_conv_take_nth_drop)
  then show ?thesis by simp
qed

lemma delete_level:
  assumes "slot_ok pr n p (Level c lvl)" "key_at pr lhq n p key"
  defines "i \<equiv> level_index key (lvlhsh_shift pr n)"
  assumes "delete_result pr lhq (lvl ! i) m (ret, lhq', s, m')"
  shows "delete_result pr lhq (Level c lvl) m (ret, lhq', Level c' (lvl[i := s]), m')"
proof -
  note slot = level_slot [OF assms(1,2), folded i_def]
  show ?thesis
    using assms(4) slot(3,4) unfolding delete_result_def prod.case
      level_cells [OF slot(1)] level_cells_update [OF slot(1)] sum_list_update_slot [OF slot(1), where c' = c]
    by (simp add: find_result_level del_first_append find_None_no_hit split: option.split)
qed

lemma used_slots_update:
  assumes "i < length lvl"
  shows "length (filter (\<lambda>s. s \<noteq> Null) (lvl[i := s])) + (if lvl ! i = Null then 0 else 1) =
    length (filter (\<lambda>s. s \<noteq> Null) lvl) + (if s = Null then 0 else 1)"
proof -
  have "length (filter (\<lambda>s. s \<noteq> Null) lvl) =
      length (filter (\<lambda>s. s \<noteq> Null) (take i lvl @ lvl ! i # drop (Suc i) lvl))"
    by (subst id_take_nth_drop [OF assms]) simp
  then show ?thesis using assms by (simp add: upd_conv_take_nth_drop)
qed

lemma no_used_slots:
  "length (filter (\<lambda>s. s \<noteq> Null) lvl) = 0 \<Longrightarrow> slot_cells (Level c lvl) = [] \<and> slot_blocks (Level c lvl) = 1"
  by (induction lvl) (auto split: if_splits)

lemma level_delete_correct:
  "slot_ok pr n p (Level c lvl) \<Longrightarrow> key_at pr lhq n p key \<Longrightarrow>
     njs_lvlhsh_level_delete pr lhq c lvl key n m = (ret, lhq', s', m') \<Longrightarrow>
     delete_result pr lhq (Level c lvl) m (ret, lhq', s', m') \<and> slot_ok pr n p s'"
proof (induction pr lhq c lvl key n m arbitrary: p ret lhq' s' m' rule: njs_lvlhsh_level_delete.induct)
  case (1 pr lhq c lvl key n m)
  define sh where "sh = lvlhsh_shift pr n"
  define i where "i = level_index key sh"
  note slot = level_slot [OF 1(3,4), folded sh_def, folded i_def]
  note def = njs_lvlhsh_level_delete.simps [of pr lhq c lvl key n m, unfolded Let_def, folded sh_def, folded i_def]
  show ?case
  proof (cases "lvl ! i = Null")
    case True
    then have "no_hit pr lhq (slot_cells (Level c lvl))"
      unfolding level_cells [OF slot(1)] using slot(3,4) by simp
    then show ?thesis using 1(3,5) True slot(1) def
      by (simp add: delete_result_def find_result_def del: slot_ok.simps slot_cells.simps)
  next
    case False
    obtain r l s1 m1 where sub: "(case lvl ! i of
          Chain bkt \<Rightarrow> (case njs_lvlhsh_bucket_delete pr lhq bkt m of (ret, lhq, bkt, m) \<Rightarrow> (ret, lhq, chain_slot bkt, m))
        | Level n' lvl' \<Rightarrow> njs_lvlhsh_level_delete pr lhq n' lvl' (drop_bit sh key) (n + 1) m) = (r, l, s1, m1)"
      by (metis prod_cases4)
    have sub_ok: "delete_result pr lhq (lvl ! i) m (r, l, s1, m1) \<and>
        slot_ok pr (Suc n) (p + i * 2 ^ level_bits pr n) s1"
    proof (cases "lvl ! i")
      case (Chain bkt)
      obtain b where b: "njs_lvlhsh_bucket_delete pr lhq bkt m = (r, l, b, m1)" "s1 = chain_slot b"
        using sub Chain by (auto split: prod.splits)
      have ok: "slot_ok pr (Suc n) (p + i * 2 ^ level_bits pr n) (Chain bkt)" using slot(2) Chain by simp
      then have "list_all (bucket_ok pr) bkt" by simp
      from bucket_delete_correct [OF this b(1)]
      have res: "delete_result pr lhq (Chain bkt) m (r, l, Chain b, m1)" "list_all (bucket_ok pr) b"
        "length b \<le> length bkt" by simp_all
      then have "set (chain_cells b) \<subseteq> set (chain_cells bkt)"
        using set_del_first [of "hit pr lhq" "chain_cells bkt"] by (simp add: delete_result_def)
      then have "slot_ok pr (Suc n) (p + i * 2 ^ level_bits pr n) s1"
        using ok res b(2) by (auto simp: chain_slot_def list_all_iff le_Suc_eq)
      moreover have "delete_result pr lhq (Chain bkt) m (r, l, s1, m1)"
        using res(1) b(2) by (auto simp: chain_slot_def delete_result_def)
      ultimately show ?thesis using Chain by simp
    next
      case (Level n' lvl')
      have at: "slot_at lvl i = Level n' lvl'" using Level slot(1) by simp
      note IH = 1(2) [OF refl refl, folded sh_def, folded i_def, OF at refl]
      have "slot_ok pr (n + 1) (p + i * 2 ^ level_bits pr n) (Level n' lvl')"
        using slot(2) Level by (simp del: slot_ok.simps)
      from IH [OF this] key_at_Suc [OF 1(4), folded sh_def, folded i_def] sub Level
      show ?thesis by (simp del: slot_ok.simps slot_cells.simps)
    qed (use False in simp)
    have res: "(ret, lhq', s', m') =
        (if s1 = Null then
           if njs_lvlhsh_level_entries (c - 1) sh = 0 then (r, l, Null, lvlhsh_free 1 m1)
           else (r, l, Level (c - 1) (lvl[i := s1]), m1)
         else (r, l, Level c (lvl[i := s1]), m1))"
      using 1(5) def False slot(1) sub by (cases "lvl ! i") (simp_all add: Let_def)
    have del: "delete_result pr lhq (Level c lvl) m (r, l, Level c' (lvl[i := s1]), m1)" for c'
      unfolding i_def sh_def
      by (rule delete_level [OF 1(3,4)]) (use sub_ok in \<open>simp add: i_def sh_def\<close>)
    have used: "length (filter (\<lambda>s. s \<noteq> Null) (lvl[i := s1])) = (if s1 = Null then c - 1 else c)"
      using used_slots_update [OF slot(1), of s1] False 1(3) by (auto split: if_splits)
    have c: "c \<noteq> 0" "c \<le> 2 ^ sh"
      using 1(3) length_filter_le [of "\<lambda>s. s \<noteq> Null" lvl] unfolding slot_ok.simps sh_def by metis+
    have entries: "njs_lvlhsh_level_entries (c - 1) sh = c - 1"
      using c by (simp add: njs_lvlhsh_level_entries_def)
    have ok: "slot_ok pr n p (Level (if s1 = Null then c - 1 else c) (lvl[i := s1]))"
      if "s1 = Null \<longrightarrow> c \<noteq> 1"
    proof -
      have "(if s1 = Null then c - 1 else c) \<noteq> 0" using that c(1) by (cases "s1 = Null") simp_all
      moreover have "\<forall>j\<in>{..<length lvl}. slot_ok pr (Suc n) (p + j * 2 ^ level_bits pr n) (lvl[i := s1] ! j)"
        using 1(3) sub_ok slot(1) by (auto simp: nth_list_update)
      ultimately show ?thesis using 1(3) used slot(1) by simp
    qed
    show ?thesis
    proof (cases "s1 = Null \<and> c = 1")
      case True
      then have "slot_cells (Level 0 (lvl[i := s1])) = [] \<and> slot_blocks (Level 0 (lvl[i := s1])) = 1"
        using used by (intro no_used_slots) simp
      then show ?thesis using True res entries del [of 0]
        by (auto simp: delete_result_def lvlhsh_free_def simp del: slot_cells.simps(3) slot_blocks.simps(3))
    next
      case False
      then show ?thesis using res entries del ok c by (auto split: if_splits simp del: slot_ok.simps)
    qed
  qed
qed

lemma lvlhsh_delete_correct:
  assumes "lvlhsh_ok pr lh" "njs_lvlhsh_delete pr lhq lh m = (ret, lhq', lh', m')"
  shows "delete_result pr lhq lh m (ret, lhq', lh', m')" "lvlhsh_ok pr lh'"
proof -
  have "delete_result pr lhq lh m (ret, lhq', lh', m') \<and> lvlhsh_ok pr lh'"
  proof (cases lh)
    case Null
    then show ?thesis using assms by (auto simp: njs_lvlhsh_delete_def delete_result_def find_result_def)
  next
    case (Chain bkt)
    obtain b where b: "njs_lvlhsh_bucket_delete pr lhq bkt m = (ret, lhq', b, m')" "lh' = chain_slot b"
      using assms(2) Chain by (auto simp: njs_lvlhsh_delete_def split: prod.splits)
    from Chain assms(1) have "list_all (bucket_ok pr) bkt" by simp
    from bucket_delete_correct [OF this b(1)] Chain assms(1) b(2)
    show ?thesis by (auto simp: chain_slot_def delete_result_def list_all_iff le_Suc_eq)
  next
    case (Level c lvl)
    then show ?thesis using assms level_delete_correct [OF _ key_at_0, of pr c lvl lhq m ret lhq' lh' m']
      by (simp add: njs_lvlhsh_delete_def del: slot_ok.simps njs_lvlhsh_level_delete.simps)
  qed
  then show "delete_result pr lhq lh m (ret, lhq', lh', m')" "lvlhsh_ok pr lh'" by simp_all
qed

section \<open>Allocation\<close>

text \<open>
  A step of the pool that takes \<open>d\<close> blocks more than it gives back; allocations are asked
  for in the order of the answers.
\<close>

definition pool_step :: "'v lvlhsh_pool \<Rightarrow> 'v lvlhsh_pool \<Rightarrow> int \<Rightarrow> bool" where
  "pool_step m m' d \<longleftrightarrow>
     pool_live m' = pool_live m + d \<and> set (pool_outcomes m') \<subseteq> set (pool_outcomes m)"

lemma pool_step_refl [simp]: "pool_step m m 0"
  by (simp add: pool_step_def)

lemma pool_step_trans: "pool_step m m' d \<Longrightarrow> pool_step m' m'' e \<Longrightarrow> f = d + e \<Longrightarrow> pool_step m m'' f"
  by (auto simp: pool_step_def)

lemma pool_step_between:
  "pool_step m m' (int b - int a) \<Longrightarrow> pool_step m' m'' (int c - int b) \<Longrightarrow> pool_step m m'' (int c - int a)"
  by (auto simp: pool_step_def)

lemma pool_step_free [simp]: "pool_step m (lvlhsh_free n m) d \<longleftrightarrow> d = - int n"
  by (auto simp: pool_step_def lvlhsh_free_def)

definition out_of_memory :: "'v lvlhsh_pool \<Rightarrow> bool" where
  "out_of_memory m \<longleftrightarrow> None \<in> set (pool_outcomes m)"

lemma out_of_memory_step: "pool_step m m' d \<Longrightarrow> out_of_memory m' \<Longrightarrow> out_of_memory m"
  by (auto simp: pool_step_def out_of_memory_def)

lemma lvlhsh_alloc_cases:
  assumes "lvlhsh_alloc m = (r, m')"
  shows "r = None \<Longrightarrow> out_of_memory m \<and> pool_step m m' 0"
    and "r \<noteq> None \<Longrightarrow> pool_step m m' 1"
  using assms by (auto simp: lvlhsh_alloc_def out_of_memory_def pool_step_def split: list.splits option.splits)

text \<open>A bucket in which the valid entries are in front, as conversion leaves it.\<close>

definition bucket_tight :: "'v bucket \<Rightarrow> bool" where
  "bucket_tight b \<longleftrightarrow> fst b \<le> length (snd b) \<and> length (valid_cells (take (fst b) (snd b))) = fst b"

lemma length_block_cells [simp]: "length (block_cells pr g) = proto_bucket_end pr"
  by (simp add: block_cells_def)

lemma new_bucket_cases:
  assumes "njs_lvlhsh_new_bucket pr lhq m = (r, m')" "lhq_value lhq = Some v" "proto_bucket_end pr \<noteq> 0"
  shows "r = None \<Longrightarrow> out_of_memory m \<and> pool_step m m' 0"
    and "r = Some b \<Longrightarrow> bucket_ok pr b \<and> bucket_tight b \<and> fst b = 1 \<and>
      bucket_cells b = [(lhq_key_hash lhq, v)] \<and> pool_step m m' 1"
proof -
  obtain a m1 where a: "lvlhsh_alloc m = (a, m1)" by force
  show "out_of_memory m \<and> pool_step m m' 0" if "r = None"
    using that assms(1) a lvlhsh_alloc_cases [OF a]
    by (auto simp: njs_lvlhsh_new_bucket_def split: option.splits)
  show "bucket_ok pr b \<and> bucket_tight b \<and> fst b = 1 \<and>
      bucket_cells b = [(lhq_key_hash lhq, v)] \<and> pool_step m m' 1" if b: "r = Some b"
  proof -
    from b assms(1) a obtain g where g: "a = Some g" "m' = m1"
      "b = (1, (block_cells pr g)[0 := (lhq_key_hash lhq, lhq_value lhq)])"
      by (auto simp: njs_lvlhsh_new_bucket_def split: option.splits)
    obtain c cs where "block_cells pr g = c # cs"
      using assms(3) length_block_cells [of pr g] by (cases "block_cells pr g") auto
    then have "b = (1, (lhq_key_hash lhq, Some v) # cs)" "Suc (length cs) = proto_bucket_end pr"
      using g assms(2) length_block_cells [of pr g] by auto
    then show ?thesis using lvlhsh_alloc_cases(2) [OF a] g
      by (auto simp: bucket_ok_def bucket_tight_def bucket_cells_def)
  qed
qed

section \<open>Conversion of a full bucket\<close>

text \<open>
  The new level while the entries \<open>done\<close> have been moved to it: its slots are empty or have
  one bucket.
\<close>

definition moved_slot :: "('k, 'v) njs_lvlhsh_proto_t \<Rightarrow> nat \<Rightarrow> nat \<Rightarrow> 'v slot \<Rightarrow> bool" where
  "moved_slot pr n q s \<longleftrightarrow>
     s = Null \<or> (\<exists>b. s = Chain [b] \<and> bucket_ok pr b \<and> bucket_tight b \<and>
       list_all (\<lambda>(k, _). unat k mod 2 ^ level_bits pr n = q) (bucket_cells b))"

lemma moved_slot_simps [simp]:
  "moved_slot pr n q Null"
  "moved_slot pr n q (Chain [b]) \<longleftrightarrow> bucket_ok pr b \<and> bucket_tight b \<and>
     list_all (\<lambda>(k, _). unat k mod 2 ^ level_bits pr n = q) (bucket_cells b)"
  "\<not> moved_slot pr n q (Level c lvl)"
  by (auto simp: moved_slot_def)

lemma moved_slot_keys:
  "moved_slot pr n q s \<Longrightarrow> list_all (\<lambda>(k, _). unat k mod 2 ^ level_bits pr n = q) (slot_cells s)"
  by (auto simp: moved_slot_def)

definition conversion_ok ::
  "('k, 'v) njs_lvlhsh_proto_t \<Rightarrow> nat \<Rightarrow> nat \<Rightarrow> (u32 \<times> 'v) list \<Rightarrow> nat \<Rightarrow> 'v slot list \<Rightarrow> bool"
where
  "conversion_ok pr n p moved c lvl \<longleftrightarrow>
     length lvl = 2 ^ lvlhsh_shift pr n \<and> c = length (filter (\<lambda>s. s \<noteq> Null) lvl) \<and>
     mset (slot_cells (Level c lvl)) = mset moved \<and>
     (\<forall>i<length lvl. moved_slot pr (Suc n) (p + i * 2 ^ level_bits pr n) (lvl ! i))"

lemma bucket_tight_insert:
  assumes "bucket_ok pr (n, cells)" "bucket_tight (n, cells)" "n < proto_bucket_end pr"
  shows "bucket_ok pr (n + 1, cells[n := (k, Some x)])" "bucket_tight (n + 1, cells[n := (k, Some x)])"
    "bucket_cells (n + 1, cells[n := (k, Some x)]) = bucket_cells (n, cells) @ [(k, x)]"
proof -
  from assms have n: "n < length cells" by (simp add: bucket_ok_def)
  have eq: "cells[n := (k, Some x)] = take n cells @ (k, Some x) # drop (Suc n) cells"
    by (simp add: upd_conv_take_nth_drop n)
  have tight: "length (valid_cells (take n cells)) = n" using assms(2) by (simp add: bucket_tight_def)
  have "valid_cells cells = valid_cells (take n cells) @ valid_cells (drop n cells)"
    by (metis append_take_drop_id valid_cells_append)
  then show "bucket_ok pr (n + 1, cells[n := (k, Some x)])" "bucket_tight (n + 1, cells[n := (k, Some x)])"
    "bucket_cells (n + 1, cells[n := (k, Some x)]) = bucket_cells (n, cells) @ [(k, x)]"
    using assms n tight by (simp_all add: eq bucket_ok_def bucket_tight_def bucket_cells_def take_Cons')
qed

lemma level_convertion_insert_correct:
  assumes ok: "conversion_ok pr n p moved c lvl" "length moved < proto_bucket_end pr"
    and key: "key_at pr lhq n p key" "lhq_value lhq = Some x"
    and run: "njs_lvlhsh_level_convertion_insert pr lhq (Level c lvl) key n m = (ret, s, m')"
  shows "(\<exists>c' lvl'. ret = NJS_OK \<and> s = Level c' lvl' \<and>
        conversion_ok pr n p (moved @ [(lhq_key_hash lhq, x)]) c' lvl' \<and>
        pool_step m m' (int (slot_blocks s) - int (slot_blocks (Level c lvl)))) \<or>
      ret = NJS_ERROR \<and> s = Level c lvl \<and> pool_step m m' 0 \<and> out_of_memory m"
proof -
  define i where "i = level_index key (lvlhsh_shift pr n)"
  have i: "i < length lvl" using ok(1) by (simp add: conversion_ok_def i_def level_index_eq)
  have at: "unat (lhq_key_hash lhq) mod 2 ^ level_bits pr (Suc n) = p + i * 2 ^ level_bits pr n"
    using key_at_Suc [OF key(1)] by (simp add: key_at_def i_def)
  have E: "proto_bucket_end pr \<noteq> 0" using ok(2) by simp
  have store: "conversion_ok pr n p (moved @ [(lhq_key_hash lhq, x)]) c' (lvl[i := Chain [b]])"
    if b: "bucket_ok pr b" "bucket_tight b" "bucket_cells b = slot_cells (lvl ! i) @ [(lhq_key_hash lhq, x)]"
      "c' = (if lvl ! i = Null then c + 1 else c)" for b c'
  proof -
    have "mset (slot_cells (Level c' (lvl[i := Chain [b]]))) = mset (slot_cells (Level c lvl)) + {#(lhq_key_hash lhq, x)#}"
      unfolding level_cells [OF i] level_cells_update [OF i] by (simp add: b(3))
    then have "mset (slot_cells (Level c' (lvl[i := Chain [b]]))) = mset (moved @ [(lhq_key_hash lhq, x)])"
      using ok(1) by (simp add: conversion_ok_def)
    moreover have "c' = length (filter (\<lambda>s. s \<noteq> Null) (lvl[i := Chain [b]]))"
      using used_slots_update [OF i, of "Chain [b]"] ok(1) b(4) by (auto simp: conversion_ok_def)
    moreover have "list_all (\<lambda>(k, _). unat k mod 2 ^ level_bits pr (Suc n) = p + i * 2 ^ level_bits pr n) (bucket_cells b)"
      using ok(1) i at b(3) moved_slot_keys [of pr "Suc n" "p + i * 2 ^ level_bits pr n" "lvl ! i"]
      by (simp add: conversion_ok_def)
    ultimately show ?thesis using ok(1) b(1,2) i
      by (auto simp: conversion_ok_def nth_list_update simp del: slot_cells.simps(3))
  qed
  show ?thesis
  proof (cases "lvl ! i")
    case Null
    obtain r m1 where nb: "njs_lvlhsh_new_bucket pr lhq m = (r, m1)" by force
    note new = new_bucket_cases [OF nb key(2) E]
    show ?thesis
    proof (cases r)
      case None
      then show ?thesis using new(1) run nb Null i by (simp add: Let_def flip: i_def)
    next
      case (Some b)
      note b = new(2) [OF Some]
      have "s = Level (c + 1) (lvl[i := Chain [b]])" "ret = NJS_OK" "m' = m1"
        using run nb Null i Some by (simp_all add: Let_def flip: i_def)
      then show ?thesis using store [of b "c + 1"] b Null sum_list_update_slot [OF i, of "c + 1" "Chain [b]" c]
        by simp
    qed
  next
    case (Chain bkt)
    then obtain b where b: "bkt = [b]" "bucket_ok pr b" "bucket_tight b"
      using ok(1) i unfolding conversion_ok_def by (metis moved_slot_def slot.distinct(1) slot.inject(1))
    obtain j cells where jc: "b = (j, cells)" by force
    have "length (bucket_cells b) \<le> length (slot_cells (Level c lvl))"
      unfolding level_cells [OF i] Chain b(1) by simp
    also have "\<dots> = length moved" using ok(1) by (metis conversion_ok_def size_mset)
    finally have j: "j < proto_bucket_end pr" using ok(2) b(2) jc by (simp add: bucket_cells_def bucket_ok_def)
    let ?b = "(j + 1, cells[j := (lhq_key_hash lhq, Some x)])"
    have res: "s = Level c (lvl[i := Chain [?b]])" "ret = NJS_OK" "m' = m"
      using run Chain i b(1) jc j key(2) by (simp_all add: Let_def bucket_set_def flip: i_def)
    note ins = bucket_tight_insert [OF b(2,3) [unfolded jc] j, of "lhq_key_hash lhq" x]
    have "conversion_ok pr n p (moved @ [(lhq_key_hash lhq, x)]) c (lvl[i := Chain [?b]])"
      by (rule store) (use ins Chain b(1) jc in simp_all)
    then show ?thesis using res sum_list_update_slot [OF i, of c "Chain [?b]" c] Chain b(1) by simp
  next
    case (Level n' lvl')
    then show ?thesis using ok(1) i by (metis conversion_ok_def moved_slot_simps(3))
  qed
qed

lemma conversion_loop_correct:
  "conversion_ok pr n p moved c lvl \<Longrightarrow> length moved + length cells \<le> proto_bucket_end pr \<Longrightarrow>
     length (valid_cells cells) = length cells \<Longrightarrow>
     list_all (\<lambda>(k, _). unat k mod 2 ^ level_bits pr n = p) (valid_cells cells) \<Longrightarrow>
     conversion_loop pr lhq n (level_bits pr n) cells (Level c lvl) m = (ret, s, m') \<Longrightarrow>
     (\<exists>moved' c' lvl'. s = Level c' lvl' \<and> conversion_ok pr n p moved' c' lvl' \<and>
        pool_step m m' (int (slot_blocks s) - int (slot_blocks (Level c lvl))) \<and>
        (ret = NJS_OK \<and> moved' = moved @ valid_cells cells \<or> ret = NJS_ERROR \<and> out_of_memory m))"
proof (induction cells arbitrary: moved c lvl m)
  case Nil
  then show ?case by (auto simp del: slot_blocks.simps)
next
  case (Cons a cells)
  obtain k v where a: "a = (k, v)" by force
  with Cons(4) length_valid_cells [of cells] obtain x where v: "v = Some x"
    "length (valid_cells cells) = length cells" by (cases v) auto
  let ?q = "lhq\<lparr>lhq_value := Some x, lhq_key_hash := k\<rparr>"
  have at: "key_at pr ?q n p (drop_bit (level_bits pr n) k)" "lhq_value ?q = Some x"
    using Cons(5) a v by (simp_all add: key_at_def)
  obtain r s1 m1 where run: "njs_lvlhsh_level_convertion_insert pr ?q (Level c lvl)
      (drop_bit (level_bits pr n) k) n m = (r, s1, m1)" by (metis prod_cases3)
  have room: "length moved < proto_bucket_end pr" using Cons(3) by simp
  from level_convertion_insert_correct [OF Cons(2) room at run]
  show ?case
  proof (elim disjE exE conjE)
    fix c1 lvl1
    assume s1: "r = NJS_OK" "s1 = Level c1 lvl1" "conversion_ok pr n p (moved @ [(lhq_key_hash ?q, x)]) c1 lvl1"
      "pool_step m m1 (int (slot_blocks s1) - int (slot_blocks (Level c lvl)))"
    have "\<exists>moved' c' lvl'. s = Level c' lvl' \<and> conversion_ok pr n p moved' c' lvl' \<and>
        pool_step m1 m' (int (slot_blocks s) - int (slot_blocks (Level c1 lvl1))) \<and>
        (ret = NJS_OK \<and> moved' = (moved @ [(k, x)]) @ valid_cells cells \<or> ret = NJS_ERROR \<and> out_of_memory m1)"
      by (rule Cons(1)) (use s1 Cons(3,5,6) a v run in simp_all)
    then show ?thesis using s1 a v
      by (elim exE conjE) (auto intro: pool_step_between out_of_memory_step simp del: slot_blocks.simps)
  next
    assume "r = NJS_ERROR" "s1 = Level c lvl" "pool_step m m1 0" "out_of_memory m"
    then show ?thesis using Cons(2,6) a v run by (auto simp del: slot_blocks.simps)
  qed
qed

lemma moved_slot_blocks: "moved_slot pr n q s \<Longrightarrow> slot_blocks s = (if s = Null then 0 else 1)"
  by (auto simp: moved_slot_def)

lemma conversion_ok_blocks:
  assumes "conversion_ok pr n p moved c lvl"
  shows "slot_blocks (Level c lvl) = length (filter (\<lambda>s. s \<noteq> Null) lvl) + 1"
proof -
  have "sum_list (map slot_blocks lvl) = length (filter (\<lambda>s. s \<noteq> Null) lvl)"
    if "\<forall>s\<in>set lvl. slot_blocks s = (if s = Null then 0 else 1)" for lvl :: "'b slot list"
    using that by (induction lvl) auto
  moreover have "\<forall>s\<in>set lvl. slot_blocks s = (if s = Null then 0 else 1)"
    using assms unfolding conversion_ok_def by (metis in_set_conv_nth moved_slot_blocks)
  ultimately show ?thesis by simp
qed

lemma conversion_ok_slot:
  assumes "conversion_ok pr n p moved c lvl" "lvlhsh_shift pr n \<noteq> 0" "moved \<noteq> []"
  shows "slot_ok pr n p (Level c lvl)"
proof -
  have "c \<noteq> 0"
  proof
    assume "c = 0"
    then have "slot_cells (Level c lvl) = []"
      using assms(1) no_used_slots [of lvl c] unfolding conversion_ok_def by metis
    then show False using assms(1,3) unfolding conversion_ok_def by (metis mset_zero_iff mset.simps(1))
  qed
  moreover have "slot_ok pr (Suc n) q s" if "moved_slot pr (Suc n) q s" for q s
    using that by (auto simp: moved_slot_def)
  ultimately show ?thesis using assms(1,2) by (simp add: conversion_ok_def)
qed

text \<open>
  A full bucket becomes a level with the same entries, or nothing changes and all new blocks
  are given back.
\<close>

lemma convert_bucket:
  assumes full: "length cells = proto_bucket_end pr" "length (valid_cells cells) = length cells" "cells \<noteq> []"
    and at: "list_all (\<lambda>(k, _). unat k mod 2 ^ level_bits pr n = p) (valid_cells cells)"
    and shift: "lvlhsh_shift pr n \<noteq> 0"
    and run: "njs_lvlhsh_convert_bucket_to_level pr lhq n cells m = (r, m')"
  shows "r = None \<Longrightarrow> out_of_memory m \<and> pool_step m m' 0"
    and "r = Some s \<Longrightarrow> (\<exists>c lvl. s = Level c lvl) \<and> slot_ok pr n p s \<and>
      mset (slot_cells s) = mset (valid_cells cells) \<and> pool_step m m' (int (slot_blocks s) - 1)"
proof -
  obtain a m1 where a: "lvlhsh_alloc m = (a, m1)" by force
  note alloc = lvlhsh_alloc_cases [OF a]
  let ?new = "replicate (njs_lvlhsh_level_size pr n) Null"
  have new: "slot_cells (Level 0 ?new) = []" "slot_blocks (Level 0 ?new) = 1"
    using no_used_slots [of ?new 0] by simp_all
  then have start: "conversion_ok pr n p [] 0 ?new"
    by (simp add: conversion_ok_def njs_lvlhsh_level_size_def del: slot_cells.simps)
  obtain ret t m2 where loop: "conversion_loop pr lhq n (level_bits pr n) cells (Level 0 ?new) m1 = (ret, t, m2)"
    by (metis prod_cases3)
  from conversion_loop_correct [OF start _ full(2) at loop, unfolded new(2)] full(1)
  obtain moved' c' lvl' where res: "t = Level c' lvl'" "conversion_ok pr n p moved' c' lvl'"
    "pool_step m1 m2 (int (slot_blocks t) - 1)"
    "ret = NJS_OK \<and> moved' = valid_cells cells \<or> ret = NJS_ERROR \<and> out_of_memory m1"
    by (auto simp del: slot_blocks.simps)
  have step: "pool_step m m2 (int (slot_blocks t))" if "a \<noteq> None"
    using pool_step_trans [OF alloc(2) [OF that] res(3)] by simp
  show "out_of_memory m \<and> pool_step m m' 0" if "r = None"
  proof (cases "a = None")
    case True
    then show ?thesis using run a alloc(1) by simp
  next
    case False
    with run a loop res that have "m' = njs_lvlhsh_free_level lvl' m2" "ret \<noteq> NJS_OK"
      by (auto simp: level_bits_def split: if_splits)
    moreover from this res(4) have "out_of_memory m" using out_of_memory_step alloc(2) False by blast
    ultimately show ?thesis using step [OF False] res(1) conversion_ok_blocks [OF res(2)]
      by (auto simp: njs_lvlhsh_free_level_def pool_step_def lvlhsh_free_def)
  qed
  show "(\<exists>c lvl. s = Level c lvl) \<and> slot_ok pr n p s \<and>
      mset (slot_cells s) = mset (valid_cells cells) \<and> pool_step m m' (int (slot_blocks s) - 1)"
    if "r = Some s"
  proof -
    from that run a have "a \<noteq> None" by (cases a) auto
    with run a loop res(1) that have eq: "s = Level c' lvl'" "m' = lvlhsh_free 1 m2" "ret = NJS_OK"
      by (auto simp: level_bits_def split: if_splits)
    with res(4) have moved: "moved' = valid_cells cells" by simp
    then have "moved' \<noteq> []" using full(2,3) by auto
    then have "slot_ok pr n p s" using conversion_ok_slot [OF res(2) shift] eq by (simp del: slot_ok.simps)
    moreover have "mset (slot_cells s) = mset (valid_cells cells)"
      using res(2) moved eq by (simp add: conversion_ok_def)
    moreover have "pool_step m m' (int (slot_blocks s) - 1)"
      using step [OF \<open>a \<noteq> None\<close>] eq res(1) by (simp add: pool_step_def lvlhsh_free_def)
    ultimately show ?thesis using eq by blast
  qed
qed

section \<open>Insertion\<close>

fun upd_first :: "('a \<Rightarrow> bool) \<Rightarrow> ('a \<Rightarrow> 'a) \<Rightarrow> 'a list \<Rightarrow> 'a list" where
  "upd_first P f [] = []"
| "upd_first P f (x # xs) = (if P x then f x # xs else x # upd_first P f xs)"

lemma upd_first_append:
  "upd_first P f (xs @ ys) =
     (case find P xs of None \<Rightarrow> xs @ upd_first P f ys | Some _ \<Rightarrow> upd_first P f xs @ ys)"
  by (induction xs) (auto split: option.split)

text \<open>
  The effect of an insertion on a slot: the value of an entry with the key is replaced or
  only reported; otherwise the entry is added, or the allocation of a block has failed and
  the entries are the same.
\<close>

definition insert_result ::
  "('k, 'v) njs_lvlhsh_proto_t \<Rightarrow> ('k, 'v) njs_lvlhsh_query_t \<Rightarrow> 'v \<Rightarrow> 'v slot \<Rightarrow> 'v lvlhsh_pool \<Rightarrow>
    njs_int_t \<times> ('k, 'v) njs_lvlhsh_query_t \<times> 'v slot \<times> 'v lvlhsh_pool \<Rightarrow> bool"
where
  "insert_result pr lhq v s m = (\<lambda>(ret, lhq', s', m').
     pool_step m m' (int (slot_blocks s') - int (slot_blocks s)) \<and>
     (case find (hit pr lhq) (slot_cells s) of
        Some (_, old) \<Rightarrow>
          lhq' = lhq\<lparr>lhq_value := Some old\<rparr> \<and>
          (if lhq_replace lhq then
             ret = NJS_OK \<and> slot_cells s' = upd_first (hit pr lhq) (\<lambda>(k, _). (k, v)) (slot_cells s)
           else ret = NJS_DECLINED \<and> s' = s)
      | None \<Rightarrow>
          lhq' = lhq \<and>
          (ret = NJS_OK \<and> mset (slot_cells s') = mset (slot_cells s) + {#(lhq_key_hash lhq, v)#} \<or>
           ret = NJS_ERROR \<and> mset (slot_cells s') = mset (slot_cells s) \<and> out_of_memory m)))"

lemma insert_result_level:
  assumes "slot_ok pr n p (Level c lvl)" "key_at pr lhq n p key"
  defines "i \<equiv> level_index key (lvlhsh_shift pr n)"
  assumes "insert_result pr lhq v (lvl ! i) m (ret, lhq', s, m')" "ret = NJS_DECLINED \<Longrightarrow> c' = c"
  shows "insert_result pr lhq v (Level c lvl) m (ret, lhq', Level c' (lvl[i := s]), m')"
proof -
  note slot = level_slot [OF assms(1,2), folded i_def]
  have same: "lvl[i := s] = lvl" if "s = lvl ! i" using that by simp
  show ?thesis
    using assms(4) slot(3,4) unfolding insert_result_def prod.case
      level_cells [OF slot(1)] level_cells_update [OF slot(1)] sum_list_update_slot [OF slot(1), where c' = c]
    by (cases "find (hit pr lhq) (slot_cells (lvl ! i))")
      (auto simp: find_append upd_first_append same assms(5) find_None_no_hit split: if_splits)
qed

declare njs_lvlhsh_level_insert.simps [simp del] njs_lvlhsh_bucket_insert.simps [simp del]
  njs_lvlhsh_convert_bucket_to_level.simps [simp del]

lemma bucket_set_append [simp]:
  "bucket_set (xs @ (n, cells) # ys) (length xs) n' i c = xs @ (n', cells[i := c]) # ys"
  by (simp add: bucket_set_def)

lemma vacant_at_store:
  assumes "vacant_at pr n cells i" "n \<le> length (valid_cells cells)"
  shows "mset (bucket_cells (n + 1, cells[i := (k, Some v)])) = mset (bucket_cells (n, cells)) + {#(k, v)#}"
    and "n + 1 \<le> length (valid_cells (cells[i := (k, Some v)]))"
proof -
  from assms(1) obtain pre k' w post where *: "cells = pre @ (k', w) # post" "i = length pre"
    "length (valid_cells pre) \<le> n" "w = None \<or> length (valid_cells pre) = n"
    by (auto simp: vacant_at_def)
  then have upd: "cells[i := (k, Some v)] = pre @ (k, Some v) # post" by simp
  have "bucket_cells (n + 1, cells[i := (k, Some v)]) =
      valid_cells pre @ (k, v) # take (n - length (valid_cells pre)) (valid_cells post)"
    using * by (simp add: upd bucket_cells_def take_Cons' Suc_diff_le)
  moreover have "bucket_cells (n, cells) = valid_cells pre @ take (n - length (valid_cells pre)) (valid_cells post)"
    using * by (auto simp: bucket_cells_def)
  ultimately show "mset (bucket_cells (n + 1, cells[i := (k, Some v)])) = mset (bucket_cells (n, cells)) + {#(k, v)#}"
    by simp
  show "n + 1 \<le> length (valid_cells (cells[i := (k, Some v)]))"
    using * assms(2) by (auto simp: upd)
qed

text \<open>Keys of a chain after an insertion.\<close>

lemma chain_keys_insert:
  assumes "mset (chain_cells bkt') = mset (chain_cells bkt) + {#(k, v)#}" "P k"
    "list_all (\<lambda>(k, _). P k) (chain_cells bkt)"
  shows "list_all (\<lambda>(k, _). P k) (chain_cells bkt')"
proof -
  have "set (chain_cells bkt') = insert (k, v) (set (chain_cells bkt))"
    using arg_cong [OF assms(1), of set_mset] by simp
  then show ?thesis using assms(2,3) by (simp add: list_all_iff)
qed

lemma bucket_insert_vacant:
  fixes v :: 'v
  assumes ok: "slot_ok pr n p (Chain bkt)" and at: "key_at pr lhq n p key"
    and no: "no_hit pr lhq (chain_cells bkt)" and vac: "chain_vacant pr bkt b i"
  defines "bkt' \<equiv> bucket_set bkt b (fst (bkt ! b) + 1) i (lhq_key_hash lhq, Some v)"
  shows "insert_result pr lhq v (Chain bkt) m (NJS_OK, lhq, Chain bkt', m)" "slot_ok pr n p (Chain bkt')"
proof -
  from vac obtain xs c cells ys where *: "bkt = xs @ (c, cells) # ys" "b = length xs" "vacant_at pr c cells i"
    by (auto simp: chain_vacant_def)
  then have c: "c \<le> length (valid_cells cells)" "length cells = proto_bucket_end pr"
    using ok by (auto simp: bucket_ok_def)
  have bkt': "bkt' = xs @ (c + 1, cells[i := (lhq_key_hash lhq, Some v)]) # ys"
    using * by (simp add: bkt'_def)
  note store = vacant_at_store [OF *(3) c(1), of "lhq_key_hash lhq" v]
  have cells: "mset (chain_cells bkt') = mset (chain_cells bkt) + {#(lhq_key_hash lhq, v)#}"
    using store(1) by (simp add: bkt' *(1))
  then show "insert_result pr lhq v (Chain bkt) m (NJS_OK, lhq, Chain bkt', m)"
    using no *(1) bkt' by (simp add: insert_result_def)
  have "list_all (\<lambda>(k, _). unat k mod 2 ^ level_bits pr n = p) (chain_cells bkt')"
    by (rule chain_keys_insert [OF cells]) (use ok at in \<open>simp_all add: key_at_def\<close>)
  moreover have "list_all (bucket_ok pr) bkt'"
    using ok store(2) c unfolding bkt' *(1) by (simp add: bucket_ok_def)
  ultimately show "slot_ok pr n p (Chain bkt')" using ok unfolding bkt' *(1) by simp
qed

lemma bucket_insert_hit:
  assumes ok: "slot_ok pr n p (Chain bkt)" and hit: "chain_hit pr lhq bkt b i" and v: "lhq_value lhq = Some v"
    and run: "njs_lvlhsh_bucket_insert pr lhq bkt key n m = (ret, lhq', s, m')"
      "chain_search pr lhq 0 None bkt = (Some (b, i), w)"
  shows "insert_result pr lhq v (Chain bkt) m (ret, lhq', s, m') \<and> slot_ok pr n p s \<and> s \<noteq> Null"
proof -
  from hit obtain xs c cells ys where *: "bkt = xs @ (c, cells) # ys" "b = length xs"
    "no_hit pr lhq (chain_cells xs)" "first_hit pr lhq c cells i"
    by (auto simp: chain_hit_def)
  then have c: "c \<le> length (valid_cells cells)" "length cells = proto_bucket_end pr" "c \<noteq> 0"
    using ok by (auto simp: bucket_ok_def)
  obtain k x us vs where f: "cells ! i = (k, Some x)" "i < length cells" "hit pr lhq (k, x)"
    "no_hit pr lhq us" "bucket_cells (c, cells) = us @ (k, x) # vs"
    "bucket_cells (c, cells[i := (k, Some v)]) = us @ (k, v) # vs"
    "length (valid_cells (cells[i := (k, Some v)])) = length (valid_cells cells)"
    by (rule first_hit_cells [OF *(4) c(1)]) blast
  show ?thesis
  proof (cases "lhq_replace lhq")
    case True
    have res: "ret = NJS_OK" "lhq' = lhq\<lparr>lhq_value := Some x\<rparr>" "m' = m"
      "s = Chain (xs @ (c, cells[i := (k, Some v)]) # ys)"
      using run * f v True by (simp_all add: njs_lvlhsh_bucket_insert.simps)
    have "slot_ok pr n p s"
      using ok res(4) f c unfolding *(1) by (auto simp: bucket_ok_def)
    then show ?thesis using *(1,3) f res True
      by (simp add: insert_result_def find_append upd_first_append)
  next
    case False
    then have res: "ret = NJS_DECLINED" "lhq' = lhq\<lparr>lhq_value := Some x\<rparr>" "m' = m" "s = Chain bkt"
      using run * f by (simp_all add: njs_lvlhsh_bucket_insert.simps)
    then show ?thesis using ok *(1,3) f False by (simp add: insert_result_def find_append)
  qed
qed

lemma level_insert_store:
  assumes "slot_ok pr n p (Level c lvl)" "key_at pr lhq n p key"
  defines "i \<equiv> level_index key (lvlhsh_shift pr n)"
  assumes "insert_result pr lhq v (lvl ! i) m (ret, lhq', s, m')"
    and "slot_ok pr (Suc n) (p + i * 2 ^ level_bits pr n) s" "s \<noteq> Null"
    and "c' = (if lvl ! i = Null then c + 1 else c)" "lvl ! i = Null \<Longrightarrow> ret \<noteq> NJS_DECLINED"
  shows "insert_result pr lhq v (Level c lvl) m (ret, lhq', Level c' (lvl[i := s]), m') \<and>
    slot_ok pr n p (Level c' (lvl[i := s]))"
proof
  note slot = level_slot [OF assms(1,2), folded i_def]
  show "insert_result pr lhq v (Level c lvl) m (ret, lhq', Level c' (lvl[i := s]), m')"
    unfolding i_def by (rule insert_result_level [OF assms(1,2)]) (use assms(4,7,8) in \<open>auto simp: i_def\<close>)
  show "slot_ok pr n p (Level c' (lvl[i := s]))"
    using assms(1,5,6,7) used_slots_update [OF slot(1), of s] slot(1) by (auto simp: nth_list_update)
qed

lemma insert_result_new_bucket:
  assumes "pool_step m m' 1" "bucket_cells b = [(lhq_key_hash lhq, v)]"
  shows "insert_result pr lhq v Null m (NJS_OK, lhq, Chain [b], m')"
  using assms by (simp add: insert_result_def)

lemma insert_result_error:
  assumes "pool_step m m' 0" "out_of_memory m" "no_hit pr lhq (slot_cells s)"
  shows "insert_result pr lhq v s m (NJS_ERROR, lhq, s, m')"
  using assms by (simp add: insert_result_def)

lemma insert_result_converted:
  assumes "mset (slot_cells s1) = mset (slot_cells s)" "pool_step m m1 (int (slot_blocks s1) - int (slot_blocks s))"
    and "insert_result pr lhq v s1 m1 r" "no_hit pr lhq (slot_cells s)"
  shows "insert_result pr lhq v s m r"
proof -
  have "no_hit pr lhq (slot_cells s1)"
    using assms(1,4) by (metis list.pred_set set_mset_mset)
  then show ?thesis using assms
    by (cases r) (auto simp: insert_result_def intro: pool_step_between out_of_memory_step)
qed

lemma insert_correct:
  fixes pr :: "('k, 'v) njs_lvlhsh_proto_t" and lhq :: "('k, 'v) njs_lvlhsh_query_t"
    and s :: "'v slot" and sh :: nat and bkt :: "'v bucket list" and cells :: "'v cell list" and m :: "'v lvlhsh_pool"
  shows level_insert_correct:
    "proto_bucket_end pr \<noteq> 0 \<Longrightarrow> lhq_value lhq = Some v \<Longrightarrow> (\<exists>c lvl. s = Level c lvl) \<Longrightarrow>
       slot_ok pr n p s \<Longrightarrow> key_at pr lhq n p key \<Longrightarrow>
       njs_lvlhsh_level_insert pr lhq s key n m = (ret, lhq', s', m') \<Longrightarrow>
       insert_result pr lhq v s m (ret, lhq', s', m') \<and> slot_ok pr n p s' \<and> s' \<noteq> Null"
  and bucket_insert_correct:
    "proto_bucket_end pr \<noteq> 0 \<Longrightarrow> lhq_value lhq = Some v \<Longrightarrow>
       slot_ok pr n p (Chain bkt) \<Longrightarrow> key_at pr lhq n p key \<Longrightarrow>
       njs_lvlhsh_bucket_insert pr lhq bkt key n m = (ret, lhq', s', m') \<Longrightarrow>
       insert_result pr lhq v (Chain bkt) m (ret, lhq', s', m') \<and> slot_ok pr n p s' \<and> s' \<noteq> Null"
  and True and True and True and True
proof (induction pr lhq s key n m and pr lhq bkt key n m
    and pr lhq n cells m and pr lhq n sh cells s m and pr lhq s key n m and pr lhq bkt key n m
    arbitrary: p v ret lhq' s' m' and p v ret lhq' s' m'
    rule: njs_lvlhsh_level_insert_njs_lvlhsh_bucket_insert_njs_lvlhsh_convert_bucket_to_level_conversion_loop_njs_lvlhsh_level_convertion_insert_njs_lvlhsh_bucket_convertion_insert.induct)
  case (1 pr lhq c lvl key n m)
  define sh where "sh = lvlhsh_shift pr n"
  define i where "i = level_index key sh"
  note slot = level_slot [OF 1(6,7), folded sh_def, folded i_def]
  note store = level_insert_store [OF 1(6,7), folded sh_def, folded i_def]
  note run = 1(8) [unfolded njs_lvlhsh_level_insert.simps(1) [of pr lhq c lvl key n m] Let_def, folded sh_def, folded i_def,
      unfolded slot_at_nth [OF slot(1)]]
  note at = key_at_Suc [OF 1(7), folded sh_def, folded i_def]
  show ?case
  proof (cases "lvl ! i")
    case Null
    have no: "no_hit pr lhq (slot_cells (Level c lvl))"
      unfolding level_cells [OF slot(1)] using slot(3,4) Null by simp
    obtain r m1 where nb: "njs_lvlhsh_new_bucket pr lhq m = (r, m1)" by force
    note new = new_bucket_cases [OF nb 1(4,3)]
    show ?thesis
    proof (cases r)
      case None
      then show ?thesis using run Null nb new(1) 1(6) insert_result_error [OF _ _ no] by auto
    next
      case (Some b)
      note b = new(2) [OF Some]
      have "slot_ok pr (Suc n) (p + i * 2 ^ level_bits pr n) (Chain [b])"
        using b at by (simp add: key_at_def)
      with store [of v m NJS_OK lhq "Chain [b]" m1 "c + 1"] b run Null nb Some
      show ?thesis by (auto simp: insert_result_new_bucket simp del: slot_ok.simps)
    qed
  next
    case (Chain bkt)
    obtain r l s1 m1 where sub: "njs_lvlhsh_bucket_insert pr lhq bkt (drop_bit sh key) (n + 1) m = (r, l, s1, m1)"
      by (metis prod_cases4)
    have "slot_at lvl i = Chain bkt" using Chain slot(1) by simp
    from 1(1) [OF refl refl refl, folded sh_def, folded i_def, OF this 1(3,4) _ _ sub] slot(2) at Chain
    have "insert_result pr lhq v (lvl ! i) m (r, l, s1, m1)"
      "slot_ok pr (Suc n) (p + i * 2 ^ level_bits pr n) s1" "s1 \<noteq> Null" by (simp_all del: slot_ok.simps)
    from store [OF this, of c] run Chain sub show ?thesis by (auto simp del: slot_ok.simps)
  next
    case (Level c1 lvl1)
    obtain r l s1 m1 where sub: "njs_lvlhsh_level_insert pr lhq (Level c1 lvl1) (drop_bit sh key) (n + 1) m = (r, l, s1, m1)"
      by (metis prod_cases4)
    have "slot_at lvl i = Level c1 lvl1" using Level slot(1) by simp
    from 1(2) [OF refl refl refl, folded sh_def, folded i_def, OF this 1(3,4) _ _ _ sub] slot(2) at Level
    have "insert_result pr lhq v (lvl ! i) m (r, l, s1, m1)"
      "slot_ok pr (Suc n) (p + i * 2 ^ level_bits pr n) s1" "s1 \<noteq> Null" by (simp_all del: slot_ok.simps)
    from store [OF this, of c] run Level sub show ?thesis by (auto simp del: slot_ok.simps)
  qed
next
  case (3 pr lhq bkt key n m)
  note ok = 3(5) and at = 3(6) and run = 3(7) [unfolded njs_lvlhsh_bucket_insert.simps]
  have chain: "list_all (bucket_ok pr) bkt" "bkt \<noteq> []" using ok by simp_all
  obtain f w where search: "chain_search pr lhq 0 None bkt = (f, w)" by force
  show ?case
  proof (cases f)
    case (Some bi)
    obtain b i where bi: "bi = (b, i)" by force
    have "chain_hit pr lhq bkt b i" using chain_search_hit [OF chain(1) search [unfolded Some bi]] by simp
    from bucket_insert_hit [OF ok this 3(4) 3(7) search [unfolded Some bi]]
    show ?thesis by simp
  next
    case None
    note no = chain_search_no_hit [OF chain(1) search [unfolded None]]
    note vac = chain_search_vacant [OF chain(1) search [unfolded None]]
    show ?thesis
    proof (cases w)
      case (Some bi)
      obtain b i where bi: "bi = (b, i)" by force
      with vac Some have "chain_vacant pr bkt b i" by simp
      from bucket_insert_vacant(1) [OF ok at no this, of v m] bucket_insert_vacant(2) [OF ok at no this, of v] run search None Some bi 3(4)
      show ?thesis by (auto simp del: slot_ok.simps)
    next
      case w: None
      note full = vac [THEN conjunct2, rule_format, OF w]
      show ?thesis
      proof (cases "lvlhsh_shift pr n = 0")
        case True
        obtain r m1 where nb: "njs_lvlhsh_new_bucket pr lhq m = (r, m1)" by force
        note new = new_bucket_cases [OF nb 3(4,3)]
        show ?thesis
        proof (cases r)
          case r: None
          then show ?thesis using run search None w True nb new(1) ok no insert_result_error [of m m1 pr lhq "Chain bkt" v]
            by auto
        next
          case (Some b)
          note b = new(2) [OF Some]
          have "insert_result pr lhq v (Chain bkt) m (NJS_OK, lhq, Chain (bkt @ [b]), m1)"
            using b no by (simp add: insert_result_def)
          moreover have "slot_ok pr n p (Chain (bkt @ [b]))" using ok b at True by (simp add: key_at_def)
          ultimately show ?thesis using run search None w True nb Some by (auto simp del: slot_ok.simps)
        qed
      next
        case False
        then obtain b where b: "bkt = [b]" using ok by (auto simp: length_Suc_conv)
        have cells: "length (snd b) = proto_bucket_end pr" "length (valid_cells (snd b)) = length (snd b)"
          "bucket_cells b = valid_cells (snd b)" "snd b \<noteq> []"
          using full chain(1) b 3(3) by (auto simp: bucket_full_def bucket_ok_def bucket_cells_def)
        then have keys: "list_all (\<lambda>(k, _). unat k mod 2 ^ level_bits pr n = p) (valid_cells (snd b))"
          using ok b by simp
        obtain r m1 where conv: "njs_lvlhsh_convert_bucket_to_level pr lhq n (snd (last bkt)) m = (r, m1)" by force
        note convert = convert_bucket [OF cells(1,2,4) keys False conv [unfolded b, simplified]]
        show ?thesis
        proof (cases r)
          case r: None
          then show ?thesis
            using run search None w False conv convert(1) ok no insert_result_error [of m m1 pr lhq "Chain bkt" v]
            by auto
        next
          case (Some s1)
          note s1 = convert(2) [OF Some]
          obtain ret1 l s2 m2 where ins: "njs_lvlhsh_level_insert pr lhq s1 key n m1 = (ret1, l, s2, m2)"
            by (metis prod_cases4)
          have "insert_result pr lhq v s1 m1 (ret1, l, s2, m2) \<and> slot_ok pr n p s2 \<and> s2 \<noteq> Null"
            by (rule 3(2) [OF search [symmetric] None w False conv [symmetric] Some 3(3,4) _ _ at ins])
              (use s1 in simp_all)
          moreover from this have "insert_result pr lhq v (Chain bkt) m (ret1, l, s2, m2)"
            using s1 b cells(3) no by (intro insert_result_converted [of s1 "Chain bkt" m m1]) auto
          ultimately show ?thesis using run search None w False conv Some ins by simp
        qed
      qed
    qed
  qed
qed simp_all

lemma lvlhsh_insert_correct:
  assumes "lvlhsh_ok pr lh" "proto_bucket_end pr \<noteq> 0" "lhq_value lhq = Some v"
    and "njs_lvlhsh_insert pr lhq lh m = (ret, lhq', lh', m')"
  shows "insert_result pr lhq v lh m (ret, lhq', lh', m')" "lvlhsh_ok pr lh'"
proof -
  have "insert_result pr lhq v lh m (ret, lhq', lh', m') \<and> lvlhsh_ok pr lh'"
  proof (cases lh)
    case Null
    obtain r m1 where nb: "njs_lvlhsh_new_bucket pr lhq m = (r, m1)" by force
    note new = new_bucket_cases [OF nb assms(3,2)]
    show ?thesis
    proof (cases r)
      case None
      then show ?thesis using assms(4) Null nb new(1) insert_result_error [of m m1 pr lhq Null v]
        by (auto simp: njs_lvlhsh_insert_def)
    next
      case (Some b)
      then show ?thesis using assms(4) Null nb new(2) [OF Some]
        by (auto simp: njs_lvlhsh_insert_def insert_result_new_bucket)
    qed
  next
    case (Chain bkt)
    then show ?thesis
      using assms bucket_insert_correct [OF assms(2,3) _ key_at_0, of bkt m ret lhq' lh' m']
      by (simp add: njs_lvlhsh_insert_def del: slot_ok.simps)
  next
    case (Level c lvl)
    then show ?thesis
      using assms level_insert_correct [OF assms(2,3) _ _ key_at_0, of lh m ret lhq' lh' m']
      by (simp add: njs_lvlhsh_insert_def del: slot_ok.simps)
  qed
  then show "insert_result pr lhq v lh m (ret, lhq', lh', m')" "lvlhsh_ok pr lh'" by simp_all
qed

section \<open>The table as a map\<close>

text \<open>
  A table of values that hold their own keys. All keys have one hash function, no two values
  have the same key.
\<close>

abbreviation keyed :: "('v \<Rightarrow> 'k) \<Rightarrow> (u32 \<times> 'v) list \<Rightarrow> ('k \<times> 'v) list" where
  "keyed key_of cells \<equiv> map (\<lambda>c. (key_of (snd c), snd c)) cells"

definition cells_ok :: "('v \<Rightarrow> 'k) \<Rightarrow> ('k \<Rightarrow> u32) \<Rightarrow> (u32 \<times> 'v) list \<Rightarrow> bool" where
  "cells_ok key_of hash cells \<longleftrightarrow>
     list_all (\<lambda>c. fst c = hash (key_of (snd c))) cells \<and> distinct (map fst (keyed key_of cells))"

definition table_ok ::
  "('k, 'v) njs_lvlhsh_proto_t \<Rightarrow> ('v \<Rightarrow> 'k) \<Rightarrow> ('k \<Rightarrow> u32) \<Rightarrow> 'v slot \<Rightarrow> bool" where
  "table_ok pr key_of hash lh \<longleftrightarrow> lvlhsh_ok pr lh \<and> cells_ok key_of hash (slot_cells lh)"

definition table_map :: "('v \<Rightarrow> 'k) \<Rightarrow> 'v slot \<Rightarrow> 'k \<rightharpoonup> 'v" where
  "table_map key_of lh = map_of (keyed key_of (slot_cells lh))"

lemma table_ok_Null [simp]: "table_ok pr key_of hash Null"
  by (simp add: table_ok_def cells_ok_def)

lemma table_map_Null [simp]: "table_map key_of Null = Map.empty"
  by (simp add: table_map_def)

text \<open>The operations on the entries, as operations on the map.\<close>

abbreviation has_key :: "('v \<Rightarrow> 'k) \<Rightarrow> 'k \<Rightarrow> u32 \<times> 'v \<Rightarrow> bool" where
  "has_key key_of k \<equiv> \<lambda>c. key_of (snd c) = k"

lemma find_keyed: "map_option snd (find (has_key key_of k) cells) = map_of (keyed key_of cells) k"
  by (induction cells) auto

lemma del_first_keyed:
  assumes "distinct (map fst (keyed key_of cells))"
  shows "map_of (keyed key_of (del_first (has_key key_of k) cells)) = (map_of (keyed key_of cells))(k := None)"
    and "distinct (map fst (keyed key_of (del_first (has_key key_of k) cells)))"
proof -
  have "map_of (keyed key_of (del_first (has_key key_of k) cells)) = (map_of (keyed key_of cells))(k := None)"
    using assms
  proof (induction cells)
    case (Cons c cells)
    then have "map_of (keyed key_of cells) (key_of (snd c)) = None"
      by (force simp: map_of_eq_None_iff)
    then show ?case using Cons by (auto simp: fun_upd_twist fun_upd_idem)
  qed auto
  moreover have "distinct (map fst (keyed key_of (del_first (has_key key_of k) cells)))"
    using assms set_del_first by (induction cells) fastforce+
  ultimately show "map_of (keyed key_of (del_first (has_key key_of k) cells)) = (map_of (keyed key_of cells))(k := None)"
    "distinct (map fst (keyed key_of (del_first (has_key key_of k) cells)))" by simp_all
qed

lemma upd_first_keyed:
  assumes "find (has_key key_of k) cells = Some c" "key_of v = k"
  shows "map fst (keyed key_of (upd_first (has_key key_of k) (\<lambda>(h, _). (h, v)) cells)) = map fst (keyed key_of cells)"
    and "map_of (keyed key_of (upd_first (has_key key_of k) (\<lambda>(h, _). (h, v)) cells)) =
      (map_of (keyed key_of cells))(k \<mapsto> v)"
  using assms by (induction cells) (auto simp: fun_upd_twist)

lemma map_of_mset:
  assumes "mset xs = mset ys" "distinct (map fst ys)"
  shows "distinct (map fst xs)" "map_of xs = map_of ys"
proof -
  have "mset (map fst xs) = mset (map fst ys)" using arg_cong [OF assms(1), of "image_mset fst"] by simp
  then show d: "distinct (map fst xs)" using assms(2) mset_eq_imp_distinct_iff by blast
  show "map_of xs = map_of ys" using map_of_inject_set [OF d assms(2)] mset_eq_setD [OF assms(1)] by simp
qed

lemma keyed_mset:
  assumes "mset cells' = mset cells" "distinct (map fst (keyed key_of cells))"
  shows "distinct (map fst (keyed key_of cells'))" "map_of (keyed key_of cells') = map_of (keyed key_of cells)"
proof -
  have "mset (keyed key_of cells') = mset (keyed key_of cells)"
    using arg_cong [OF assms(1), of "image_mset (\<lambda>c. (key_of (snd c), snd c))"] by simp
  from map_of_mset [OF this assms(2)]
  show "distinct (map fst (keyed key_of cells'))" "map_of (keyed key_of cells') = map_of (keyed key_of cells)"
    by simp_all
qed

lemma keyed_mset_add:
  assumes "mset cells' = mset cells + {#(h, v)#}" "distinct (map fst (keyed key_of cells))"
    and "map_of (keyed key_of cells) (key_of v) = None"
  shows "distinct (map fst (keyed key_of cells'))"
    and "map_of (keyed key_of cells') = (map_of (keyed key_of cells))(key_of v \<mapsto> v)"
proof -
  have "mset cells' = mset ((h, v) # cells)" using assms(1) by simp
  moreover have "distinct (map fst (keyed key_of ((h, v) # cells)))"
    using assms(2,3) by (force simp: map_of_eq_None_iff)
  ultimately have "distinct (map fst (keyed key_of cells')) \<and>
      map_of (keyed key_of cells') = map_of (keyed key_of ((h, v) # cells))"
    by (blast intro: keyed_mset)
  then show "distinct (map fst (keyed key_of cells'))"
    "map_of (keyed key_of cells') = (map_of (keyed key_of cells))(key_of v \<mapsto> v)" by simp_all
qed

locale lvlhsh_table =
  fixes pr :: "('k, 'v) njs_lvlhsh_proto_t" and key_of :: "'v \<Rightarrow> 'k" and hash :: "'k \<Rightarrow> u32"
  assumes test_key: "proto_test pr k v \<longleftrightarrow> key_of v = k"
    and bucket_room: "proto_bucket_end pr \<noteq> 0"
begin

lemma hit_key:
  assumes "cells_ok key_of hash cells" "lhq_key_hash lhq = hash (lhq_key lhq)" "c \<in> set cells"
  shows "hit pr lhq c \<longleftrightarrow> has_key key_of (lhq_key lhq) c"
  using assms by (cases c) (auto simp: cells_ok_def list_all_iff hit_def test_key)

lemma first_key:
  assumes "cells_ok key_of hash cells" "lhq_key_hash lhq = hash (lhq_key lhq)"
  shows "find (hit pr lhq) cells = find (has_key key_of (lhq_key lhq)) cells"
    and "del_first (hit pr lhq) cells = del_first (has_key key_of (lhq_key lhq)) cells"
    and "upd_first (hit pr lhq) f cells = upd_first (has_key key_of (lhq_key lhq)) f cells"
proof -
  have "\<forall>c\<in>set cells. hit pr lhq c \<longleftrightarrow> has_key key_of (lhq_key lhq) c"
    using hit_key [OF assms] by blast
  then show "find (hit pr lhq) cells = find (has_key key_of (lhq_key lhq)) cells"
    "del_first (hit pr lhq) cells = del_first (has_key key_of (lhq_key lhq)) cells"
    "upd_first (hit pr lhq) f cells = upd_first (has_key key_of (lhq_key lhq)) f cells"
    by (induction cells) simp_all
qed

lemma table_find:
  assumes "table_ok pr key_of hash lh" "lhq_key_hash lhq = hash (lhq_key lhq)"
  shows "njs_lvlhsh_find pr lhq lh =
    (case table_map key_of lh (lhq_key lhq) of
       None \<Rightarrow> (NJS_DECLINED, lhq)
     | Some v \<Rightarrow> (NJS_OK, lhq\<lparr>lhq_value := Some v\<rparr>))"
proof -
  from assms(1) have ok: "lvlhsh_ok pr lh" "cells_ok key_of hash (slot_cells lh)" by (simp_all add: table_ok_def)
  show ?thesis
    unfolding lvlhsh_find_correct [OF ok(1)] find_result_def first_key [OF ok(2) assms(2)] table_map_def
      find_keyed [symmetric] by (auto split: option.split)
qed

lemma table_delete:
  assumes "table_ok pr key_of hash lh" "lhq_key_hash lhq = hash (lhq_key lhq)"
    and "njs_lvlhsh_delete pr lhq lh m = (ret, lhq', lh', m')"
  shows "(ret, lhq') = njs_lvlhsh_find pr lhq lh" "table_ok pr key_of hash lh'"
    "table_map key_of lh' = (table_map key_of lh)(lhq_key lhq := None)"
    "pool_live m' = pool_live m + int (slot_blocks lh') - int (slot_blocks lh)"
proof -
  from assms(1) have ok: "lvlhsh_ok pr lh" "cells_ok key_of hash (slot_cells lh)" by (simp_all add: table_ok_def)
  note del = lvlhsh_delete_correct [OF ok(1) assms(3)]
  show "(ret, lhq') = njs_lvlhsh_find pr lhq lh" "pool_live m' = pool_live m + int (slot_blocks lh') - int (slot_blocks lh)"
    using del(1) by (simp_all add: delete_result_def lvlhsh_find_correct [OF ok(1)])
  have cells: "slot_cells lh' = del_first (has_key key_of (lhq_key lhq)) (slot_cells lh)"
    using del(1) first_key [OF ok(2) assms(2)] by (simp add: delete_result_def)
  from ok(2) have d: "distinct (map fst (keyed key_of (slot_cells lh)))" by (simp add: cells_ok_def)
  show "table_map key_of lh' = (table_map key_of lh)(lhq_key lhq := None)"
    unfolding table_map_def cells by (rule del_first_keyed(1) [OF d])
  show "table_ok pr key_of hash lh'"
    using del(2) ok(2) del_first_keyed(2) [OF d] set_del_first
    unfolding table_ok_def cells_ok_def cells list_all_iff by (meson subsetD)
qed

text \<open>
  An insertion adds the value under its key, or reports or replaces the value the key has. If
  it fails, an allocation has failed and the map is the same.
\<close>

lemma table_insert:
  assumes "table_ok pr key_of hash lh" "lhq_key_hash lhq = hash (lhq_key lhq)"
    and "lhq_value lhq = Some v" "key_of v = lhq_key lhq"
    and "njs_lvlhsh_insert pr lhq lh m = (ret, lhq', lh', m')"
  defines "M \<equiv> table_map key_of lh" and "M' \<equiv> table_map key_of lh'"
  shows "table_ok pr key_of hash lh'"
    and "pool_live m' = pool_live m + int (slot_blocks lh') - int (slot_blocks lh)"
    and "M (lhq_key lhq) = Some old \<Longrightarrow> lhq' = lhq\<lparr>lhq_value := Some old\<rparr> \<and>
      (if lhq_replace lhq then ret = NJS_OK \<and> M' = M(lhq_key lhq \<mapsto> v) else ret = NJS_DECLINED \<and> lh' = lh)"
    and "M (lhq_key lhq) = None \<Longrightarrow> lhq' = lhq \<and>
      (ret = NJS_OK \<and> M' = M(lhq_key lhq \<mapsto> v) \<or> ret = NJS_ERROR \<and> M' = M \<and> out_of_memory m)"
proof -
  let ?k = "lhq_key lhq" and ?cells = "slot_cells lh" and ?cells' = "slot_cells lh'"
  from assms(1) have ok: "lvlhsh_ok pr lh" "cells_ok key_of hash ?cells" by (simp_all add: table_ok_def)
  note ins = lvlhsh_insert_correct [OF ok(1) bucket_room assms(3,5)]
  note first = first_key [OF ok(2) assms(2)]
  from ok(2) have d: "distinct (map fst (keyed key_of ?cells))" by (simp add: cells_ok_def)
  have M: "M ?k = map_option snd (find (has_key key_of ?k) ?cells)"
    by (simp add: M_def table_map_def find_keyed)
  show "pool_live m' = pool_live m + int (slot_blocks lh') - int (slot_blocks lh)"
    using ins(1) by (simp add: insert_result_def pool_step_def)
  have *: "cells_ok key_of hash ?cells' \<and>
      (M ?k = Some old \<longrightarrow> lhq' = lhq\<lparr>lhq_value := Some old\<rparr> \<and>
        (if lhq_replace lhq then ret = NJS_OK \<and> M' = M(?k \<mapsto> v) else ret = NJS_DECLINED \<and> lh' = lh)) \<and>
      (M ?k = None \<longrightarrow> lhq' = lhq \<and>
        (ret = NJS_OK \<and> M' = M(?k \<mapsto> v) \<or> ret = NJS_ERROR \<and> M' = M \<and> out_of_memory m))" for old
  proof (cases "find (has_key key_of ?k) ?cells")
    case None
    with ins(1) first have res: "lhq' = lhq"
      "ret = NJS_OK \<and> mset ?cells' = mset ?cells + {#(lhq_key_hash lhq, v)#} \<or>
       ret = NJS_ERROR \<and> mset ?cells' = mset ?cells \<and> out_of_memory m"
      by (simp_all add: insert_result_def)
    have none: "map_of (keyed key_of ?cells) (key_of v) = None"
      using None assms(4) find_keyed [of key_of ?k ?cells] by simp
    show ?thesis
    proof (cases "ret = NJS_OK")
      case True
      with res have m: "mset ?cells' = mset ?cells + {#(lhq_key_hash lhq, v)#}" by simp
      have "set ?cells' = insert (lhq_key_hash lhq, v) (set ?cells)"
        using arg_cong [OF m, of set_mset] by simp
      then have "list_all (\<lambda>c. fst c = hash (key_of (snd c))) ?cells'"
        using ok(2) assms(2,4) by (simp add: cells_ok_def list_all_iff)
      then show ?thesis
        using keyed_mset_add [OF m d none] res None True assms(4) M
        by (simp add: cells_ok_def M_def M'_def table_map_def)
    next
      case False
      with res have m: "mset ?cells' = mset ?cells" "ret = NJS_ERROR" "out_of_memory m" by auto
      then have "list_all (\<lambda>c. fst c = hash (key_of (snd c))) ?cells'"
        using ok(2) mset_eq_setD [OF m(1)] by (simp add: cells_ok_def list_all_iff)
      then show ?thesis
        using keyed_mset [OF m(1) d] res None m M by (simp add: cells_ok_def M_def M'_def table_map_def)
    qed
  next
    case (Some c)
    obtain h w where c: "c = (h, w)" by force
    with ins(1) first Some have res: "lhq' = lhq\<lparr>lhq_value := Some w\<rparr>"
      "if lhq_replace lhq then ret = NJS_OK \<and>
         ?cells' = upd_first (has_key key_of ?k) (\<lambda>(k, _). (k, v)) ?cells
       else ret = NJS_DECLINED \<and> lh' = lh"
      by (simp_all add: insert_result_def)
    show ?thesis
    proof (cases "lhq_replace lhq")
      case True
      note upd = upd_first_keyed [OF Some assms(4)]
      have "list_all (\<lambda>c. fst c = hash (key_of (snd c))) (upd_first (has_key key_of ?k) (\<lambda>(k, _). (k, v)) cs)"
        if "list_all (\<lambda>c. fst c = hash (key_of (snd c))) cs" for cs
        using that assms(4) by (induction cs) auto
      then show ?thesis using res True upd c M Some ok(2)
        by (simp add: cells_ok_def M_def M'_def table_map_def)
    next
      case False
      then show ?thesis using res c M Some ok(2) by (simp add: M'_def)
    qed
  qed
  show "table_ok pr key_of hash lh'" using ins(2) * by (simp add: table_ok_def)
  show "M ?k = Some old \<Longrightarrow> lhq' = lhq\<lparr>lhq_value := Some old\<rparr> \<and>
      (if lhq_replace lhq then ret = NJS_OK \<and> M' = M(?k \<mapsto> v) else ret = NJS_DECLINED \<and> lh' = lh)"
    using * by blast
  show "M ?k = None \<Longrightarrow> lhq' = lhq \<and>
      (ret = NJS_OK \<and> M' = M(?k \<mapsto> v) \<or> ret = NJS_ERROR \<and> M' = M \<and> out_of_memory m)"
    using * by blast
qed

end

end
