(* ===== verification/Njs_Lvlhsh_Each.thy ===== *)
theory Njs_Lvlhsh_Each
  imports Njs_Lvlhsh_Map
begin

text \<open>
  Iteration over a level hash with \<open>njs_lvlhsh_each\<close>: repeated until it returns nothing, it
  returns every value of the hash once, in the order of the entries, and then ends. The
  iterator remembers the way to its bucket as bits in \<^const>\<open>each_current\<close>.
\<close>

section \<open>The bits of the position\<close>

lemma current_index: "level_index (drop_bit sh c) ls = unat c div 2 ^ sh mod 2 ^ ls"
  by (simp add: level_index_eq unat_shr)

lemma next_current:
  fixes c :: u32
  assumes "unat c < 2 ^ (sh + ls)" "sh + ls \<le> 32"
  shows "unat ((c AND NOT (push_bit sh (mask ls))) OR push_bit sh (of_nat n AND mask ls)) =
    unat c mod 2 ^ sh + n mod 2 ^ ls * 2 ^ sh"
proof -
  have c: "take_bit (sh + ls) c = c"
    using assms(1) by (simp add: u32_eq_iff unsigned_take_bit_eq take_bit_nat_eq_self)
  have low: "c AND NOT (push_bit sh (mask ls)) = take_bit sh c"
  proof (rule bit_eqI)
    fix n assume "possible_bit TYPE(u32) n"
    have "bit c n \<longrightarrow> n < sh + ls" using c by (metis bit_take_bit_iff)
    moreover have "bit c n \<longrightarrow> n < 32" using bit_imp_le_length [of c n] by simp
    ultimately show "bit (c AND NOT (push_bit sh (mask ls))) n = bit (take_bit sh c) n"
      by (auto simp: bit_simps)
  qed
  define w where "w = (of_nat n AND mask ls :: u32)"
  have "n mod 2 ^ ls < 2 ^ ls" by simp
  then have n: "n mod 2 ^ ls * 2 ^ sh < 2 ^ 32"
  proof -
    have "n mod 2 ^ ls * 2 ^ sh < 2 ^ ls * 2 ^ sh" by simp
    also have "\<dots> = 2 ^ (ls + sh)" by (simp add: power_add)
    also have "\<dots> \<le> 2 ^ 32" using assms(2) by (intro power_increasing) simp_all
    finally show ?thesis .
  qed
  have "ls \<le> 32" using assms(2) by simp
  then have "2 ^ ls dvd (4294967296 :: nat)" using le_imp_power_dvd [of ls 32 "2 :: nat"] by simp
  then have nm: "unat w = n mod 2 ^ ls"
    by (simp add: w_def unat_and_mask unat_of_nat mod_mod_cancel)
  have hi: "unat (push_bit sh w) = n mod 2 ^ ls * 2 ^ sh"
    using n by (subst unat_shl) (simp_all add: nm)
  have lo: "unat (take_bit sh c) = unat c mod 2 ^ sh"
    by (simp add: unsigned_take_bit_eq flip: take_bit_eq_mod)
  show ?thesis
    unfolding low w_def [symmetric] by (subst unat_or_shift' [OF hi]) (simp_all add: lo hi)
qed

section \<open>Iteration over a chain of buckets\<close>

text \<open>The entries of the chain that are still to come.\<close>

definition at_cells :: "'v njs_lvlhsh_each_t \<Rightarrow> (u32 \<times> 'v) list" where
  "at_cells lhe =
     (case each_bucket lhe of
        Each_at ((_, cells) # next) \<Rightarrow>
          take (each_entries lhe) (valid_cells (drop (each_entry lhe) cells)) @ chain_cells next
      | _ \<Rightarrow> [])"

definition at_ok :: "('k, 'v) njs_lvlhsh_proto_t \<Rightarrow> 'v njs_lvlhsh_each_t \<Rightarrow> bool" where
  "at_ok pr lhe \<longleftrightarrow>
     (\<exists>n cells next. each_bucket lhe = Each_at ((n, cells) # next) \<and> each_entries lhe \<noteq> 0 \<and>
        each_entries lhe \<le> length (valid_cells (drop (each_entry lhe) cells)) \<and>
        list_all (bucket_ok pr) next)"

lemma next_valid_Some:
  "valid_cells cells = c # rest \<Longrightarrow>
     \<exists>j. next_valid i cells = Some ((fst c, Some (snd c)), i + Suc j) \<and> valid_cells (drop (Suc j) cells) = rest"
proof (induction i cells rule: next_valid.induct)
  case (2 i k v e)
  show ?case
  proof (cases v)
    case None
    with 2 obtain j where "next_valid (i + 1) e = Some ((fst c, Some (snd c)), i + 1 + Suc j)"
      "valid_cells (drop (Suc j) e) = rest" by auto
    then show ?thesis using None by (intro exI [of _ "Suc j"]) simp
  next
    case (Some x)
    then show ?thesis using 2(2) by (intro exI [of _ 0]) auto
  qed
qed simp

lemma bucket_each_step:
  assumes "at_ok pr lhe"
  shows "\<exists>k v lhe'. njs_lvlhsh_bucket_each lhe = (Some v, lhe') \<and> at_cells lhe = (k, v) # at_cells lhe' \<and>
    (at_ok pr lhe' \<or> each_bucket lhe' = NJS_LVLHSH_BUCKET_DONE) \<and> each_current lhe' = each_current lhe"
proof -
  from assms obtain n cells nx where *: "each_bucket lhe = Each_at ((n, cells) # nx)" "each_entries lhe \<noteq> 0"
    "each_entries lhe \<le> length (valid_cells (drop (each_entry lhe) cells))" "list_all (bucket_ok pr) nx"
    by (auto simp: at_ok_def)
  then obtain k x rest where valid: "valid_cells (drop (each_entry lhe) cells) = (k, x) # rest"
    by (cases "valid_cells (drop (each_entry lhe) cells)") auto
  from next_valid_Some [OF this, of "each_entry lhe"] obtain j where
    j: "next_valid (each_entry lhe) (drop (each_entry lhe) cells) = Some ((k, Some x), each_entry lhe + Suc j)"
      "valid_cells (drop (each_entry lhe + Suc j) cells) = rest"
    by (auto simp: add.commute)
  obtain e where e: "each_entries lhe = Suc e" using *(2) by (cases "each_entries lhe") auto
  show ?thesis
  proof (cases "e = 0")
    case False
    then show ?thesis using * j valid e
      by (auto simp: njs_lvlhsh_bucket_each_def at_cells_def at_ok_def)
  next
    case True
    show ?thesis
    proof (cases nx)
      case Nil
      then show ?thesis using * j valid e True
        by (auto simp: njs_lvlhsh_bucket_each_def at_cells_def at_ok_def)
    next
      case (Cons b bs)
      then show ?thesis using * j valid e True
        by (cases b) (auto simp: njs_lvlhsh_bucket_each_def at_cells_def at_ok_def bucket_ok_def bucket_cells_def)
    qed
  qed
qed

lemma at_chain:
  assumes "list_all (bucket_ok pr) bkt" "bkt \<noteq> []"
    "each_bucket lhe = Each_at bkt" "each_entries lhe = fst (hd bkt)" "each_entry lhe = 0"
  shows "at_ok pr lhe" "at_cells lhe = chain_cells bkt"
proof -
  obtain b bs where b: "bkt = b # bs" using assms(2) by (cases bkt) auto
  then show "at_ok pr lhe" using assms by (cases b) (auto simp: at_ok_def bucket_ok_def)
  show "at_cells lhe = chain_cells bkt" using assms b by (cases b) (simp add: at_cells_def bucket_cells_def)
qed

section \<open>Iteration over levels\<close>

text \<open>
  The entries behind the bucket a position leads to, and the positions that lead to a bucket.
\<close>

function resume_cells ::
  "('k, 'v) njs_lvlhsh_proto_t \<Rightarrow> nat \<Rightarrow> u32 \<Rightarrow> 'v slot list \<Rightarrow> (u32 \<times> 'v) list"
where
  "resume_cells pr n c lvl =
     (let i = unat c div 2 ^ level_bits pr n mod 2 ^ lvlhsh_shift pr n
      in (case slot_at lvl i of Level _ lvl' \<Rightarrow> resume_cells pr (Suc n) c lvl' | _ \<Rightarrow> []) @
         level_behind lvl i)"
  by pat_completeness auto
termination by (relation "measure (\<lambda>(pr, n, c, lvl). size_list size lvl)") (auto intro: size_slot_at)

function path_ok :: "('k, 'v) njs_lvlhsh_proto_t \<Rightarrow> nat \<Rightarrow> u32 \<Rightarrow> 'v slot list \<Rightarrow> bool" where
  "path_ok pr n c lvl \<longleftrightarrow>
     (case slot_at lvl (unat c div 2 ^ level_bits pr n mod 2 ^ lvlhsh_shift pr n) of
        Null \<Rightarrow> False
      | Chain _ \<Rightarrow> unat c < 2 ^ level_bits pr (Suc n)
      | Level _ lvl' \<Rightarrow> path_ok pr (Suc n) c lvl')"
  by pat_completeness auto
termination by (relation "measure (\<lambda>(pr, n, c, lvl). size_list size lvl)") (auto intro: size_slot_at)

declare resume_cells.simps [simp del] path_ok.simps [simp del]

text \<open>
  The iterator is in the level at \<open>n\<close>, with the low bits \<open>lo\<close> of its position, and \<open>rest\<close> is
  still to come.
\<close>

definition pos_ok ::
  "('k, 'v) njs_lvlhsh_proto_t \<Rightarrow> nat \<Rightarrow> nat \<Rightarrow> 'v slot list \<Rightarrow> 'v njs_lvlhsh_each_t \<Rightarrow> (u32 \<times> 'v) list \<Rightarrow> bool"
where
  "pos_ok pr n lo lvl lhe rest \<longleftrightarrow>
     (at_ok pr lhe \<or> each_bucket lhe = NJS_LVLHSH_BUCKET_DONE) \<and>
     path_ok pr n (each_current lhe) lvl \<and>
     unat (each_current lhe) mod 2 ^ level_bits pr n = lo \<and>
     rest = at_cells lhe @ resume_cells pr n (each_current lhe) lvl"

text \<open>What a call returns when \<open>cells\<close> are to come.\<close>

definition each_result ::
  "('k, 'v) njs_lvlhsh_proto_t \<Rightarrow> nat \<Rightarrow> nat \<Rightarrow> 'v slot list \<Rightarrow> (u32 \<times> 'v) list \<Rightarrow>
    'v njs_lvlhsh_each_t \<Rightarrow> 'v option \<times> 'v njs_lvlhsh_each_t \<Rightarrow> bool"
where
  "each_result pr n lo lvl cells lhe = (\<lambda>(r, lhe').
     (case cells of
        [] \<Rightarrow> r = None \<and> lhe' = lhe\<lparr>each_current := of_nat lo, each_bucket := Each_start\<rparr>
      | c # rest \<Rightarrow> r = Some (snd c) \<and> pos_ok pr n lo lvl lhe' rest))"

lemma unat_less_32: "x < 2 ^ b \<Longrightarrow> b \<le> 32 \<Longrightarrow> unat (of_nat x :: u32) = x"
proof -
  assume "x < 2 ^ b" "b \<le> 32"
  moreover from this have "2 ^ b \<le> (2 ^ 32 :: nat)" by (intro power_increasing) simp_all
  ultimately show ?thesis by (simp add: unat_of_nat)
qed

text \<open>The position in a level from which the slot \<open>i\<close> is next, with the lower bits \<open>lo\<close>.\<close>

lemma position_index:
  fixes lo i b ls :: nat
  assumes "lo < 2 ^ b" "i < 2 ^ ls" "x mod 2 ^ (b + ls) = lo + i * 2 ^ b"
  shows "x div 2 ^ b mod 2 ^ ls = i" "x mod 2 ^ b = lo"
proof -
  have "x mod 2 ^ (b + ls) = x mod 2 ^ b + x div 2 ^ b mod 2 ^ ls * 2 ^ b"
    by (simp add: power_add mod_mult2_eq)
  with assms(3) have eq: "x mod 2 ^ b + x div 2 ^ b mod 2 ^ ls * 2 ^ b = lo + i * 2 ^ b" by simp
  have "(x mod 2 ^ b + x div 2 ^ b mod 2 ^ ls * 2 ^ b) mod 2 ^ b = (lo + i * 2 ^ b) mod 2 ^ b"
    using eq by simp
  then show lo: "x mod 2 ^ b = lo" using assms(1) by simp
  with eq show "x div 2 ^ b mod 2 ^ ls = i" by simp
qed

lemma position_less:
  fixes lo i b ls :: nat
  assumes "lo < 2 ^ b" "i < 2 ^ ls"
  shows "lo + i * 2 ^ b < 2 ^ (b + ls)"
proof -
  have "lo + i * 2 ^ b < Suc i * 2 ^ b" using assms(1) by simp
  also have "\<dots> \<le> 2 ^ ls * 2 ^ b" using assms(2) by (intro mult_le_mono1) simp
  finally show ?thesis by (simp add: power_add mult.commute)
qed

lemma pos_ok_sub:
  assumes "pos_ok pr (Suc n) (lo + i * 2 ^ level_bits pr n) lvl' lhe rest" "lo < 2 ^ level_bits pr n"
    "i < 2 ^ lvlhsh_shift pr n" "slot_at lvl i = Level c' lvl'"
  shows "pos_ok pr n lo lvl lhe (rest @ level_behind lvl i)"
proof -
  have "unat (each_current lhe) mod 2 ^ (level_bits pr n + lvlhsh_shift pr n) = lo + i * 2 ^ level_bits pr n"
    using assms(1) by (simp add: pos_ok_def)
  note idx = position_index [OF assms(2,3) this]
  then show ?thesis using assms(1,4)
    by (simp add: pos_ok_def path_ok.simps [of pr n] resume_cells.simps [of pr n])
qed

lemma each_result_sub:
  assumes "each_result pr (Suc n) (lo + i * 2 ^ level_bits pr n) lvl' cells lhe (r, lhe')"
    "lo < 2 ^ level_bits pr n" "i < 2 ^ lvlhsh_shift pr n" "slot_at lvl i = Level c' lvl'" "cells \<noteq> []"
  shows "each_result pr n lo lvl (cells @ level_behind lvl i) lhe2 (r, lhe') \<and> r \<noteq> None"
  using assms by (cases cells) (auto simp: each_result_def intro: pos_ok_sub)

lemma level_each_from:
  assumes bits: "\<And>n. level_bits pr n \<le> 32"
    and level: "slot_ok pr n p (Level c lvl)"
    and sub: "\<And>c' lvl' lhe. Level c' lvl' \<in> set lvl \<Longrightarrow> each_bucket lhe = Each_start \<Longrightarrow>
      unat (each_current lhe) < 2 ^ level_bits pr (Suc n) \<Longrightarrow>
      each_result pr (Suc n) (unat (each_current lhe)) lvl' (slot_cells (Level c' lvl')) lhe
        (njs_lvlhsh_level_each pr lhe lvl' (Suc n) (level_bits pr (Suc n)))"
    and lo: "lo < 2 ^ level_bits pr n"
  shows "i \<le> length lvl \<Longrightarrow> each_bucket lhe = Each_start \<Longrightarrow>
    unat (each_current lhe) = lo + i mod 2 ^ lvlhsh_shift pr n * 2 ^ level_bits pr n \<Longrightarrow>
    each_result pr n lo lvl (concat (map slot_cells (drop i lvl))) lhe
      (level_each_loop pr lhe n (level_bits pr n) i (drop i lvl))"
proof (induction "length lvl - i" arbitrary: i lhe)
  case 0
  then have "drop i lvl = []" "i = 2 ^ lvlhsh_shift pr n" using level by simp_all
  then have "each_current lhe = of_nat lo" using 0(4) bits [of n] lo by (simp add: u32_eq_iff unat_less_32)
  then show ?case using \<open>drop i lvl = []\<close> 0(3) by (simp add: each_result_def)
next
  case (Suc d)
  let ?b = "level_bits pr n" and ?ls = "lvlhsh_shift pr n"
  from Suc(2) have i: "i < length lvl" by simp
  then have i': "i < 2 ^ ?ls" using level by simp
  have drop: "drop i lvl = lvl ! i # drop (Suc i) lvl" by (rule Cons_nth_drop_Suc [OF i, symmetric])
  have cur: "unat (each_current lhe) = lo + i * 2 ^ ?b" using Suc(5) i' by simp
  have less: "unat (each_current lhe) < 2 ^ (?b + ?ls)" unfolding cur by (rule position_less [OF lo i'])
  have b32: "?b + ?ls \<le> 32" using bits [of "Suc n"] by simp
  have slot: "slot_ok pr (Suc n) (p + i * 2 ^ ?b) (lvl ! i)" using level i by auto
  show ?case
  proof (cases "lvl ! i")
    case Null
    define lhe1 where "lhe1 = lhe\<lparr>each_current :=
        (each_current lhe AND NOT (push_bit ?b (mask ?ls))) OR push_bit ?b (of_nat (i + 1) AND mask ?ls)\<rparr>"
    have "unat (each_current lhe1) = lo + Suc i mod 2 ^ ?ls * 2 ^ ?b"
      using next_current [OF less b32, of "i + 1"] lo cur by (simp add: lhe1_def)
    with Suc(1) [of "Suc i" lhe1] Suc(2,4)
    have "each_result pr n lo lvl (concat (map slot_cells (drop (Suc i) lvl))) lhe1
        (level_each_loop pr lhe1 n ?b (Suc i) (drop (Suc i) lvl))" by (simp add: lhe1_def)
    moreover have "each_result pr n lo lvl cells lhe1 r = each_result pr n lo lvl cells lhe r" for cells r
      by (cases cells; cases r) (simp_all add: each_result_def lhe1_def)
    ultimately show ?thesis unfolding drop using Null by (simp add: Let_def lhe1_def)
  next
    case (Chain bkt)
    define lhe1 where "lhe1 = lhe\<lparr>each_bucket := Each_at bkt, each_entries := fst (hd bkt), each_entry := 0\<rparr>"
    have "at_ok pr lhe1 \<and> at_cells lhe1 = chain_cells bkt"
      using at_chain [of pr bkt lhe1] slot Chain by (simp add: lhe1_def)
    with bucket_each_step [of pr lhe1] obtain k v lhe2 where
      step: "njs_lvlhsh_bucket_each lhe1 = (Some v, lhe2)" "chain_cells bkt = (k, v) # at_cells lhe2"
        "at_ok pr lhe2 \<or> each_bucket lhe2 = NJS_LVLHSH_BUCKET_DONE" "each_current lhe2 = each_current lhe"
      by (auto simp: lhe1_def)
    have "unat (each_current lhe2) mod 2 ^ (?b + ?ls) = lo + i * 2 ^ ?b" using step(4) cur less by simp
    note idx = position_index [OF lo i' this]
    have "pos_ok pr n lo lvl lhe2 (at_cells lhe2 @ level_behind lvl i)"
      using step idx i Chain less by (simp add: pos_ok_def path_ok.simps [of pr n] resume_cells.simps [of pr n])
    then show ?thesis unfolding drop using Chain step Suc(4)
      by (simp add: each_result_def level_behind_def lhe1_def)
  next
    case (Level c' lvl')
    obtain r lhe' where r: "njs_lvlhsh_level_each pr lhe lvl' (Suc n) (level_bits pr (Suc n)) = (r, lhe')" by force
    have "Level c' lvl' \<in> set lvl" using Level i by (metis nth_mem)
    from sub [OF this Suc(4)] less
    have sub_r: "each_result pr (Suc n) (lo + i * 2 ^ ?b) lvl' (slot_cells (Level c' lvl')) lhe (r, lhe')"
      using r cur by simp
    have at: "slot_at lvl i = Level c' lvl'" using Level i by simp
    have "slot_cells (Level c' lvl') \<noteq> []" using slot_cells_Nil [OF slot] Level by simp
    note each_result_sub [OF sub_r lo i' at this, of lhe]
    then show ?thesis unfolding drop using Level r
      by (auto simp: Let_def level_behind_def njs_lvlhsh_level_each_def)
  qed
qed

lemma each_result_start:
  "each_result pr n lo lvl cells (lhe\<lparr>each_bucket := Each_start, each_current := c\<rparr>) r \<longleftrightarrow>
     each_result pr n lo lvl cells lhe r"
  by (cases cells; cases r) (simp_all add: each_result_def)

text \<open>A call with a new iterator, and one that goes on behind a bucket.\<close>

definition each_correct :: "('k, 'v) njs_lvlhsh_proto_t \<Rightarrow> nat \<Rightarrow> 'v slot list \<Rightarrow> bool" where
  "each_correct pr n lvl \<longleftrightarrow>
     (\<forall>lhe. each_bucket lhe = Each_start \<longrightarrow> unat (each_current lhe) < 2 ^ level_bits pr n \<longrightarrow>
       each_result pr n (unat (each_current lhe)) lvl (concat (map slot_cells lvl)) lhe
         (njs_lvlhsh_level_each pr lhe lvl n (level_bits pr n))) \<and>
     (\<forall>lhe. each_bucket lhe = NJS_LVLHSH_BUCKET_DONE \<longrightarrow> path_ok pr n (each_current lhe) lvl \<longrightarrow>
       each_result pr n (unat (each_current lhe) mod 2 ^ level_bits pr n) lvl
         (resume_cells pr n (each_current lhe) lvl) lhe
         (njs_lvlhsh_level_each pr lhe lvl n (level_bits pr n)))"

lemma level_each_resume:
  assumes bits: "\<And>n. level_bits pr n \<le> 32"
    and level: "slot_ok pr n p (Level c lvl)"
    and sub: "\<And>c' lvl'. Level c' lvl' \<in> set lvl \<Longrightarrow> each_correct pr (Suc n) lvl'"
    and lhe: "each_bucket lhe = NJS_LVLHSH_BUCKET_DONE" "path_ok pr n (each_current lhe) lvl"
  shows "each_result pr n (unat (each_current lhe) mod 2 ^ level_bits pr n) lvl
    (resume_cells pr n (each_current lhe) lvl) lhe
    (njs_lvlhsh_level_each pr lhe lvl n (level_bits pr n))"
proof -
  let ?b = "level_bits pr n" and ?ls = "lvlhsh_shift pr n"
  define lo where "lo = unat (each_current lhe) mod 2 ^ ?b"
  define i where "i = unat (each_current lhe) div 2 ^ ?b mod 2 ^ ?ls"
  have i: "i < length lvl" using level by (simp add: i_def)
  have i': "i < 2 ^ ?ls" by (simp add: i_def)
  have lo: "lo < 2 ^ ?b" by (simp add: lo_def)
  have drop: "drop i lvl = lvl ! i # drop (Suc i) lvl" by (rule Cons_nth_drop_Suc [OF i, symmetric])
  have b32: "?b + ?ls \<le> 32" using bits [of "Suc n"] by simp
  have from_next: "each_result pr n lo lvl (level_behind lvl i) lhe
      (level_each_loop pr (lhe\<lparr>each_bucket := Each_start, each_current := c'\<rparr>) n ?b (Suc i) (drop (Suc i) lvl))"
    if "unat c' = lo + Suc i mod 2 ^ ?ls * 2 ^ ?b" for c'
  proof -
    have "each_result pr n lo lvl (concat (map slot_cells (drop (Suc i) lvl)))
        (lhe\<lparr>each_bucket := Each_start, each_current := c'\<rparr>)
        (level_each_loop pr (lhe\<lparr>each_bucket := Each_start, each_current := c'\<rparr>) n ?b (Suc i) (drop (Suc i) lvl))"
    proof (rule level_each_from [OF bits level _ lo])
      show "each_result pr (Suc n) (unat (each_current lhe)) lvl' (slot_cells (Level c' lvl')) lhe
          (njs_lvlhsh_level_each pr lhe lvl' (Suc n) (level_bits pr (Suc n)))"
        if "Level c' lvl' \<in> set lvl" "each_bucket lhe = Each_start"
          "unat (each_current lhe) < 2 ^ level_bits pr (Suc n)" for c' lvl' lhe
        using sub [OF that(1)] that(2,3) unfolding each_correct_def slot_cells.simps by blast
    qed (use i that in simp_all)
    then show ?thesis unfolding each_result_start level_behind_def .
  qed
  have index: "level_index (drop_bit ?b (each_current lhe)) ?ls = i" by (simp add: current_index i_def)
  note def = njs_lvlhsh_level_each_def [of pr lhe lvl n ?b, unfolded Let_def index drop]
  show ?thesis
  proof (cases "lvl ! i")
    case Null
    then show ?thesis using lhe(2) i by (simp add: path_ok.simps [of pr n] flip: i_def)
  next
    case (Chain bkt)
    then have less: "unat (each_current lhe) < 2 ^ (?b + ?ls)"
      using lhe(2) i by (simp add: path_ok.simps [of pr n] flip: i_def)
    have "resume_cells pr n (each_current lhe) lvl = level_behind lvl i"
      using Chain i by (simp add: resume_cells.simps [of pr n] Let_def flip: i_def)
    then show ?thesis
      using from_next [OF next_current [OF less b32, of "i + 1", folded lo_def, simplified]] Chain lhe(1)
      unfolding def by (simp add: Let_def lo_def)
  next
    case (Level c' lvl')
    obtain r lhe' where r: "njs_lvlhsh_level_each pr lhe lvl' (Suc n) (level_bits pr (Suc n)) = (r, lhe')" by force
    have at: "slot_at lvl i = Level c' lvl'" using Level i by simp
    have path: "path_ok pr (Suc n) (each_current lhe) lvl'"
      using lhe(2) at by (simp add: path_ok.simps [of pr n] flip: i_def)
    have mem: "Level c' lvl' \<in> set lvl" using Level i by (metis nth_mem)
    have low: "unat (each_current lhe) mod 2 ^ level_bits pr (Suc n) = lo + i * 2 ^ ?b"
      by (simp add: lo_def i_def power_add mod_mult2_eq)
    have sub_r: "each_result pr (Suc n) (lo + i * 2 ^ ?b) lvl' (resume_cells pr (Suc n) (each_current lhe) lvl') lhe (r, lhe')"
      using sub [OF mem] lhe(1) path r low unfolding each_correct_def by metis
    have rest: "resume_cells pr n (each_current lhe) lvl =
        resume_cells pr (Suc n) (each_current lhe) lvl' @ level_behind lvl i"
      using at by (simp add: resume_cells.simps [of pr n] Let_def flip: i_def)
    show ?thesis
    proof (cases "resume_cells pr (Suc n) (each_current lhe) lvl' = []")
      case False
      from each_result_sub [OF sub_r lo i' at False, of lhe] show ?thesis
        unfolding def rest using Level r by (auto simp: Let_def njs_lvlhsh_level_each_def lo_def)
    next
      case True
      define c1 where "c1 = (of_nat (lo + i * 2 ^ ?b) :: u32)"
      have r1: "r = None" "lhe' = lhe\<lparr>each_current := c1, each_bucket := Each_start\<rparr>"
        using sub_r True by (simp_all add: each_result_def c1_def)
      have c1: "unat c1 = lo + i * 2 ^ ?b"
        unfolding c1_def by (rule unat_less_32 [OF position_less [OF lo i'] b32])
      then have less: "unat c1 < 2 ^ (?b + ?ls)" using position_less [OF lo i'] by simp
      have "unat c1 mod 2 ^ ?b = lo" using c1 lo by simp
      then have "unat ((c1 AND NOT (push_bit ?b (mask ?ls))) OR push_bit ?b (of_nat (i + 1) AND mask ?ls)) =
          lo + Suc i mod 2 ^ ?ls * 2 ^ ?b" using next_current [OF less b32, of "i + 1"] by simp
      from from_next [OF this] show ?thesis
        unfolding def rest using Level r r1 True by (simp add: Let_def njs_lvlhsh_level_each_def lo_def)
    qed
  qed
qed

lemma level_each_correct:
  assumes bits: "\<And>n. level_bits pr n \<le> 32"
  shows "slot_ok pr n p s \<Longrightarrow> s = Level c lvl \<Longrightarrow> each_correct pr n lvl"
proof (induction s arbitrary: n p c lvl)
  case (Level c0 lvl0)
  then have level: "slot_ok pr n p (Level c lvl)" by (simp del: slot_ok.simps)
  have sub: "each_correct pr (Suc n) lvl'" if mem: "Level c' lvl' \<in> set lvl" for c' lvl'
  proof -
    from mem obtain i where i: "i < length lvl" "lvl ! i = Level c' lvl'" by (metis in_set_conv_nth)
    have "slot_ok pr (Suc n) (p + i * 2 ^ level_bits pr n) (lvl ! i)" using level i(1) by auto
    then have "slot_ok pr (Suc n) (p + i * 2 ^ level_bits pr n) (Level c' lvl')" unfolding i(2) .
    then show ?thesis using Level(1) [OF _ _ refl] mem Level(3) by blast
  qed
  have "each_result pr n (unat (each_current lhe)) lvl (concat (map slot_cells lvl)) lhe
      (njs_lvlhsh_level_each pr lhe lvl n (level_bits pr n))"
    if lhe: "each_bucket lhe = Each_start" "unat (each_current lhe) < 2 ^ level_bits pr n" for lhe
  proof -
    have "each_result pr n (unat (each_current lhe)) lvl (concat (map slot_cells (drop 0 lvl))) lhe
        (level_each_loop pr lhe n (level_bits pr n) 0 (drop 0 lvl))"
    proof (rule level_each_from [OF bits level _ lhe(2)])
      show "each_result pr (Suc n) (unat (each_current lhe)) lvl' (slot_cells (Level c' lvl')) lhe
          (njs_lvlhsh_level_each pr lhe lvl' (Suc n) (level_bits pr (Suc n)))"
        if "Level c' lvl' \<in> set lvl" "each_bucket lhe = Each_start"
          "unat (each_current lhe) < 2 ^ level_bits pr (Suc n)" for c' lvl' lhe
        using sub [OF that(1)] that(2,3) unfolding each_correct_def slot_cells.simps by blast
    qed (use lhe in simp_all)
    moreover have "level_index (drop_bit (level_bits pr n) (each_current lhe)) (lvlhsh_shift pr n) = 0"
      using lhe(2) by (simp add: current_index)
    ultimately show ?thesis by (simp add: njs_lvlhsh_level_each_def)
  qed
  moreover have "each_result pr n (unat (each_current lhe) mod 2 ^ level_bits pr n) lvl
      (resume_cells pr n (each_current lhe) lvl) lhe (njs_lvlhsh_level_each pr lhe lvl n (level_bits pr n))"
    if lhe: "each_bucket lhe = NJS_LVLHSH_BUCKET_DONE" "path_ok pr n (each_current lhe) lvl" for lhe
    by (rule level_each_resume [OF bits level _ lhe]) (rule sub)
  ultimately show ?case unfolding each_correct_def by blast
qed simp_all

section \<open>Iteration over a hash\<close>

text \<open>
  The loop \<open>for ( ;; ) { value = njs_lvlhsh_each(...); if (value == NULL) break; ... }\<close> of the
  callers: the values in the order in which it sees them, \<^const>\<open>None\<close> if it makes more than
  the given number of calls.
\<close>

fun each_values ::
  "('k, 'v) njs_lvlhsh_proto_t \<Rightarrow> 'v slot \<Rightarrow> 'v njs_lvlhsh_each_t \<Rightarrow> nat \<Rightarrow> 'v list option"
where
  "each_values pr lh lhe 0 = None"
| "each_values pr lh lhe (Suc n) =
     (case njs_lvlhsh_each pr lh lhe of
        (None, lhe) \<Rightarrow> Some []
      | (Some v, lhe) \<Rightarrow> map_option (Cons v) (each_values pr lh lhe n))"

definition root_pos ::
  "('k, 'v) njs_lvlhsh_proto_t \<Rightarrow> 'v slot \<Rightarrow> 'v njs_lvlhsh_each_t \<Rightarrow> (u32 \<times> 'v) list \<Rightarrow> bool" where
  "root_pos pr lh lhe rest \<longleftrightarrow>
     (case lh of
        Null \<Rightarrow> False
      | Chain _ \<Rightarrow>
          (at_ok pr lhe \<or> each_bucket lhe = NJS_LVLHSH_BUCKET_DONE) \<and> rest = at_cells lhe
      | Level _ lvl \<Rightarrow> pos_ok pr 0 0 lvl lhe rest)"

lemma root_pos_at:
  assumes "root_pos pr lh lhe rest" "at_ok pr lhe"
  shows "\<exists>c r lhe'. rest = c # r \<and> njs_lvlhsh_each pr lh lhe = (Some (snd c), lhe') \<and> root_pos pr lh lhe' r"
proof -
  from bucket_each_step [OF assms(2)] obtain k v lhe' where
    step: "njs_lvlhsh_bucket_each lhe = (Some v, lhe')" "at_cells lhe = (k, v) # at_cells lhe'"
      "at_ok pr lhe' \<or> each_bucket lhe' = NJS_LVLHSH_BUCKET_DONE" "each_current lhe' = each_current lhe"
    by blast
  have "njs_lvlhsh_each pr lh lhe = (Some v, lhe')"
    using assms(2) step(1) by (auto simp: njs_lvlhsh_each_def at_ok_def)
  moreover have "\<exists>r. rest = (k, v) # r \<and> root_pos pr lh lhe' r"
    using assms(1) step by (cases lh) (auto simp: root_pos_def pos_ok_def)
  ultimately show ?thesis by force
qed

lemma each_result_root:
  assumes "each_result pr 0 0 lvl rest lhe (njs_lvlhsh_level_each pr lhe lvl 0 0)"
    "njs_lvlhsh_each pr (Level c lvl) lhe = njs_lvlhsh_level_each pr lhe lvl 0 0"
  shows "case rest of
      [] \<Rightarrow> fst (njs_lvlhsh_each pr (Level c lvl) lhe) = None
    | c' # r \<Rightarrow> \<exists>lhe'. njs_lvlhsh_each pr (Level c lvl) lhe = (Some (snd c'), lhe') \<and> root_pos pr (Level c lvl) lhe' r"
  using assms by (cases "njs_lvlhsh_level_each pr lhe lvl 0 0")
    (auto simp: each_result_def root_pos_def split: list.splits)

lemma each_step:
  assumes "\<And>n. level_bits pr n \<le> 32" "lvlhsh_ok pr lh" "root_pos pr lh lhe rest"
  shows "case rest of
      [] \<Rightarrow> fst (njs_lvlhsh_each pr lh lhe) = None
    | c # r \<Rightarrow> \<exists>lhe'. njs_lvlhsh_each pr lh lhe = (Some (snd c), lhe') \<and> root_pos pr lh lhe' r"
proof (cases "at_ok pr lhe")
  case True
  from root_pos_at [OF assms(3) this] show ?thesis by auto
next
  case False
  show ?thesis
  proof (cases lh)
    case Null
    then show ?thesis using assms(3) by (simp add: root_pos_def)
  next
    case (Chain bkt)
    then show ?thesis using assms(3) False by (simp add: root_pos_def at_cells_def njs_lvlhsh_each_def)
  next
    case (Level c lvl)
    with assms(3) False have pos: "each_bucket lhe = NJS_LVLHSH_BUCKET_DONE" "path_ok pr 0 (each_current lhe) lvl"
      "rest = resume_cells pr 0 (each_current lhe) lvl"
      by (auto simp: root_pos_def pos_ok_def at_cells_def)
    have "each_correct pr 0 lvl"
      using level_each_correct [OF assms(1) assms(2) Level] .
    with pos have "each_result pr 0 0 lvl rest lhe (njs_lvlhsh_level_each pr lhe lvl 0 0)"
      by (force simp: each_correct_def)
    moreover have "njs_lvlhsh_each pr (Level c lvl) lhe = njs_lvlhsh_level_each pr lhe lvl 0 0"
      using pos(1) by (simp add: njs_lvlhsh_each_def)
    ultimately show ?thesis unfolding Level by (rule each_result_root)
  qed
qed

lemma each_first:
  assumes "\<And>n. level_bits pr n \<le> 32" "lvlhsh_ok pr lh"
  shows "case slot_cells lh of
      [] \<Rightarrow> fst (njs_lvlhsh_each pr lh njs_lvlhsh_each_init) = None
    | c # r \<Rightarrow> \<exists>lhe'. njs_lvlhsh_each pr lh njs_lvlhsh_each_init = (Some (snd c), lhe') \<and> root_pos pr lh lhe' r"
proof (cases lh)
  case Null
  then show ?thesis by (simp add: njs_lvlhsh_each_def njs_lvlhsh_each_init_def)
next
  case (Chain bkt)
  define lhe where "lhe = njs_lvlhsh_each_init \<lparr>each_bucket := Each_at bkt, each_entries := fst (hd bkt)\<rparr>"
  have ok: "list_all (bucket_ok pr) bkt" "bkt \<noteq> []" using assms(2) Chain by simp_all
  note at = at_chain [OF ok, of lhe, unfolded lhe_def njs_lvlhsh_each_init_def, simplified, folded njs_lvlhsh_each_init_def]
  from bucket_each_step [OF at(1)] obtain k v lhe' where
    step: "njs_lvlhsh_bucket_each lhe = (Some v, lhe')" "chain_cells bkt = (k, v) # at_cells lhe'"
      "at_ok pr lhe' \<or> each_bucket lhe' = NJS_LVLHSH_BUCKET_DONE"
    using at(2) by (auto simp: lhe_def njs_lvlhsh_each_init_def)
  then show ?thesis using Chain
    by (simp add: njs_lvlhsh_each_def lhe_def root_pos_def) (simp add: njs_lvlhsh_each_init_def)
next
  case (Level c lvl)
  have "each_correct pr 0 lvl" using level_each_correct [OF assms(1) assms(2) Level] .
  then have "each_result pr 0 0 lvl (slot_cells lh) njs_lvlhsh_each_init
      (njs_lvlhsh_level_each pr njs_lvlhsh_each_init lvl 0 0)"
    using Level by (force simp: each_correct_def njs_lvlhsh_each_init_def)
  moreover have "njs_lvlhsh_each pr (Level c lvl) njs_lvlhsh_each_init =
      njs_lvlhsh_level_each pr njs_lvlhsh_each_init lvl 0 0"
    by (simp add: njs_lvlhsh_each_def njs_lvlhsh_each_init_def)
  ultimately show ?thesis unfolding Level by (rule each_result_root)
qed

lemma each_values_rest:
  assumes "\<And>n. level_bits pr n \<le> 32" "lvlhsh_ok pr lh"
  shows "root_pos pr lh lhe rest \<Longrightarrow> length rest < n \<Longrightarrow> each_values pr lh lhe n = Some (map snd rest)"
proof (induction rest arbitrary: lhe n)
  case Nil
  then show ?case using each_step [OF assms, of lhe "[]"] by (cases n) (auto split: prod.splits)
next
  case (Cons c rest)
  from each_step [OF assms Cons(2)] obtain lhe' where
    "njs_lvlhsh_each pr lh lhe = (Some (snd c), lhe')" "root_pos pr lh lhe' rest" by auto
  then show ?case using Cons(1) [of lhe' "n - 1"] Cons(3) by (cases n) auto
qed

lemma each_values_correct:
  assumes "\<And>n. level_bits pr n \<le> 32" "lvlhsh_ok pr lh" "length (slot_cells lh) < n"
  shows "each_values pr lh njs_lvlhsh_each_init n = Some (map snd (slot_cells lh))"
proof (cases "slot_cells lh")
  case Nil
  then show ?thesis using each_first [OF assms(1,2)] assms(3) by (cases n) (auto split: prod.splits)
next
  case (Cons c rest)
  with each_first [OF assms(1,2)] obtain lhe' where
    "njs_lvlhsh_each pr lh njs_lvlhsh_each_init = (Some (snd c), lhe')" "root_pos pr lh lhe' rest" by auto
  then show ?thesis using each_values_rest [OF assms(1,2), of lhe' rest "n - 1"] Cons assms(3)
    by (cases n) auto
qed

end
