(* ===== verification/Njs_Object_Hash.thy ===== *)
theory Njs_Object_Hash
  imports Njs_Lvlhsh_Each Njs_String Njs_Date
begin

text \<open>
  Values and properties (\<open>src/src/njs_value.h\<close>), and the tables of properties, level hashes
  with the names of the properties as keys (\<open>njs_object_hash_proto\<close> in
  \<open>src/src/njs_object.c\<close>). The contract of the level hash is interpreted here on the tables of
  properties.
\<close>

section \<open>Values\<close>

datatype object_type =
    NJS_OBJECT | NJS_ARRAY | NJS_OBJECT_BOOLEAN | NJS_OBJECT_NUMBER | NJS_OBJECT_STRING
  | NJS_FUNCTION | NJS_REGEXP | NJS_DATE | NJS_OBJECT_VALUE

text \<open>
  An object value is its type and the address of the object. \<open>Handler\<close> is the value of type
  \<open>NJS_INVALID\<close> in a property with a handler, whose union holds the handler; \<open>Invalid\<close> is any
  other value of that type. External values and internal data are left out.
\<close>

datatype njs_value =
    Null_value | Undefined | Boolean bool | Number_value number | String njs_string
  | Invalid | Handler nat | Object object_type nat

fun njs_is_valid :: "njs_value \<Rightarrow> bool" where
  "njs_is_valid Invalid = False"
| "njs_is_valid (Handler h) = False"
| "njs_is_valid v = True"

fun njs_is_function :: "njs_value \<Rightarrow> bool" where
  "njs_is_function (Object t a) = (t = NJS_FUNCTION)"
| "njs_is_function v = False"

definition njs_is_function_or_undefined :: "njs_value \<Rightarrow> bool" where
  "njs_is_function_or_undefined v \<longleftrightarrow> njs_is_function v \<or> v = Undefined"

fun njs_is_object :: "njs_value \<Rightarrow> bool" where
  "njs_is_object (Object t a) = True"
| "njs_is_object v = False"

text \<open>Only the type is overwritten: the union of a value with a handler keeps the handler.\<close>

fun njs_set_invalid :: "njs_value \<Rightarrow> njs_value" where
  "njs_set_invalid (Handler h) = Handler h"
| "njs_set_invalid v = Invalid"

text \<open>
  The field \<open>truth\<close>, as it is set when a value is made: a number is true unless it is zero or
  not a number, a string unless it is empty.
\<close>

fun njs_is_true :: "njs_value \<Rightarrow> bool" where
  "njs_is_true Null_value = False"
| "njs_is_true Undefined = False"
| "njs_is_true (Boolean b) = b"
| "njs_is_true (Number_value n) = (n \<noteq> NaN \<and> n \<noteq> Finite 0)"
| "njs_is_true (String s) = (str_size s \<noteq> 0)"
| "njs_is_true Invalid = False"
| "njs_is_true (Handler h) = True"
| "njs_is_true (Object t a) = True"

definition njs_string_eq :: "njs_string \<Rightarrow> njs_string \<Rightarrow> bool" where
  "njs_string_eq v1 v2 =
     (if str_size v1 \<noteq> str_size v2 then False
      else if str_length v1 \<noteq> 0 \<and> str_length v2 \<noteq> 0 \<and> str_length v1 \<noteq> str_length v2 then False
      else str_start v1 = str_start v2)"

text \<open>Values of different types are different; numbers are compared as such.\<close>

fun njs_values_strict_equal :: "njs_value \<Rightarrow> njs_value \<Rightarrow> bool" where
  "njs_values_strict_equal Null_value Null_value = True"
| "njs_values_strict_equal Undefined Undefined = True"
| "njs_values_strict_equal (Boolean a) (Boolean b) = (a = b)"
| "njs_values_strict_equal (Number_value a) (Number_value b) = (a \<noteq> NaN \<and> a = b)"
| "njs_values_strict_equal (String s) (String t) = njs_string_eq s t"
| "njs_values_strict_equal (Object t a) (Object u b) = (t = u \<and> a = b)"
| "njs_values_strict_equal _ _ = False"

section \<open>Properties\<close>

datatype njs_object_prop_type_t = NJS_PROPERTY | NJS_PROPERTY_REF | NJS_PROPERTY_HANDLER | NJS_WHITEOUT

datatype njs_object_attribute_t = NJS_ATTRIBUTE_FALSE | NJS_ATTRIBUTE_TRUE | NJS_ATTRIBUTE_UNSET

text \<open>An attribute used as a condition.\<close>

abbreviation attr :: "njs_object_attribute_t \<Rightarrow> bool" where
  "attr a \<equiv> a \<noteq> NJS_ATTRIBUTE_FALSE"

abbreviation of_bool_attr :: "bool \<Rightarrow> njs_object_attribute_t" where
  "of_bool_attr b \<equiv> (if b then NJS_ATTRIBUTE_TRUE else NJS_ATTRIBUTE_FALSE)"

record njs_object_prop =
  prop_value :: njs_value
  prop_name :: njs_string
  prop_getter :: njs_value
  prop_setter :: njs_value
  prop_type :: njs_object_prop_type_t
  prop_writable :: njs_object_attribute_t
  prop_enumerable :: njs_object_attribute_t
  prop_configurable :: njs_object_attribute_t

definition njs_object_prop_alloc ::
  "njs_string \<Rightarrow> njs_value \<Rightarrow> njs_object_attribute_t \<Rightarrow> njs_object_prop" where
  "njs_object_prop_alloc name val attributes =
     \<lparr>prop_value = val, prop_name = name, prop_getter = Invalid, prop_setter = Invalid,
      prop_type = NJS_PROPERTY, prop_writable = attributes, prop_enumerable = attributes,
      prop_configurable = attributes\<rparr>"

definition njs_is_data_descriptor :: "njs_object_prop \<Rightarrow> bool" where
  "njs_is_data_descriptor p \<longleftrightarrow> prop_writable p \<noteq> NJS_ATTRIBUTE_UNSET \<or> njs_is_valid (prop_value p)"

definition njs_is_accessor_descriptor :: "njs_object_prop \<Rightarrow> bool" where
  "njs_is_accessor_descriptor p \<longleftrightarrow>
     njs_is_function_or_undefined (prop_getter p) \<or> njs_is_function_or_undefined (prop_setter p)"

definition njs_is_generic_descriptor :: "njs_object_prop \<Rightarrow> bool" where
  "njs_is_generic_descriptor p \<longleftrightarrow> \<not> njs_is_data_descriptor p \<and> \<not> njs_is_accessor_descriptor p"

section \<open>Tables of properties\<close>

definition njs_object_hash_test :: "bytes \<Rightarrow> njs_object_prop \<Rightarrow> bool" where
  "njs_object_hash_test key p =
     (if length key \<noteq> str_size (prop_name p) then False else str_start (prop_name p) = key)"

definition njs_object_hash_proto :: "(bytes, njs_object_prop) njs_lvlhsh_proto_t" where
  "njs_object_hash_proto = NJS_LVLHSH_DEFAULT njs_object_hash_test"

abbreviation prop_key :: "njs_object_prop \<Rightarrow> bytes" where
  "prop_key p \<equiv> str_start (prop_name p)"

definition object_lhq ::
  "bytes \<Rightarrow> njs_object_prop option \<Rightarrow> bool \<Rightarrow> (bytes, njs_object_prop) njs_lvlhsh_query_t" where
  "object_lhq key val replace =
     \<lparr>lhq_key_hash = njs_djb_hash key, lhq_key = key, lhq_replace = replace, lhq_value = val\<rparr>"

fun njs_object_hash_create ::
  "njs_object_prop slot \<Rightarrow> njs_object_prop list \<Rightarrow> njs_object_prop lvlhsh_pool \<Rightarrow>
    njs_int_t \<times> njs_object_prop slot \<times> njs_object_prop lvlhsh_pool"
where
  "njs_object_hash_create hash [] m = (NJS_OK, hash, m)"
| "njs_object_hash_create hash (p # ps) m =
     (case njs_lvlhsh_insert njs_object_hash_proto (object_lhq (prop_key p) (Some p) False) hash m of
        (NJS_OK, _, hash, m) \<Rightarrow> njs_object_hash_create hash ps m
      | (_, _, hash, m) \<Rightarrow> (NJS_ERROR, hash, m))"

lemma object_hash_test: "njs_object_hash_test k p \<longleftrightarrow> prop_key p = k"
  by (auto simp: njs_object_hash_test_def)

interpretation object_hash: lvlhsh_table njs_object_hash_proto prop_key njs_djb_hash
  by unfold_locales
    (simp_all add: njs_object_hash_proto_def NJS_LVLHSH_DEFAULT_def NJS_LVLHSH_BUCKET_END_def object_hash_test)

lemma level_bits_le: "level_bits pr n \<le> sum_list (proto_shift pr)"
proof -
  have "level_bits pr n = sum_list (take n (proto_shift pr))"
    by (induction n) (auto simp: lvlhsh_shift_def take_Suc_conv_app_nth)
  also have "\<dots> \<le> sum_list (take n (proto_shift pr) @ drop n (proto_shift pr))"
    unfolding sum_list_append by simp
  finally show ?thesis by simp
qed

lemma object_level_bits: "level_bits njs_object_hash_proto n \<le> 32"
  using level_bits_le [of njs_object_hash_proto n]
  by (simp add: njs_object_hash_proto_def NJS_LVLHSH_DEFAULT_def)

definition object_hash_ok :: "njs_object_prop slot \<Rightarrow> bool" where
  "object_hash_ok hash \<longleftrightarrow> table_ok njs_object_hash_proto prop_key njs_djb_hash hash"

definition object_hash_map :: "njs_object_prop slot \<Rightarrow> bytes \<rightharpoonup> njs_object_prop" where
  "object_hash_map hash = table_map prop_key hash"

lemmas object_hash_laws =
  object_hash.table_find [folded object_hash_ok_def object_hash_map_def]
  object_hash.table_insert [folded object_hash_ok_def object_hash_map_def]
  object_hash.table_delete [folded object_hash_ok_def object_hash_map_def]

lemma object_lhq_simps [simp]:
  "lhq_key_hash (object_lhq k v r) = njs_djb_hash k" "lhq_key (object_lhq k v r) = k"
  "lhq_value (object_lhq k v r) = v" "lhq_replace (object_lhq k v r) = r"
  "(object_lhq k v r)\<lparr>lhq_value := w\<rparr> = object_lhq k w r"
  by (simp_all add: object_lhq_def)

section \<open>Properties of the tables\<close>

text \<open>The table \<open>njs_object_hash_create\<close> makes of an array of properties with all memory it needs.\<close>

definition table_of :: "njs_object_prop list \<Rightarrow> njs_object_prop slot" where
  "table_of ps = fst (snd (njs_object_hash_create Null ps \<lparr>pool_outcomes = [], pool_live = 0\<rparr>))"

definition property_a :: njs_object_prop where
  "property_a = njs_object_prop_alloc \<lparr>str_start = [0x61], str_length = 1, str_map = []\<rparr> Null_value NJS_ATTRIBUTE_TRUE"

lemma property_a_key [simp]: "prop_key property_a = [0x61]"
  by (simp add: property_a_def njs_object_prop_alloc_def)

lemma table_of_property_a: "object_hash_ok (table_of [property_a])"
  and property_a_map: "object_hash_map (table_of [property_a]) = [[0x61] \<mapsto> property_a]"
proof -
  obtain ret lhq h m where ins: "njs_lvlhsh_insert njs_object_hash_proto
      (object_lhq (prop_key property_a) (Some property_a) False) Null \<lparr>pool_outcomes = [], pool_live = 0\<rparr> = (ret, lhq, h, m)"
    by (metis prod_cases4)
  have Null: "object_hash_ok Null" "object_hash_map Null = Map.empty"
    by (simp_all add: object_hash_ok_def object_hash_map_def)
  note laws = object_hash_laws(2-5) [OF Null(1) _ _ _ ins, of property_a, simplified]
  have "ret = NJS_OK" "object_hash_map h = [[0x61] \<mapsto> property_a]"
    using laws(4) by (auto simp: Null(2) out_of_memory_def)
  moreover from this have "table_of [property_a] = h"
    using ins by (simp add: table_of_def)
  ultimately show "object_hash_ok (table_of [property_a])"
    "object_hash_map (table_of [property_a]) = [[0x61] \<mapsto> property_a]" using laws(1) by simp_all
qed

text \<open>The outcome of an insertion, by the entry the map has for the key.\<close>

definition insert_outcome ::
  "(bytes \<rightharpoonup> njs_object_prop) \<Rightarrow> njs_object_prop \<Rightarrow> bool \<Rightarrow> bool \<Rightarrow>
    njs_int_t \<times> njs_object_prop option \<Rightarrow> (bytes \<rightharpoonup> njs_object_prop) \<Rightarrow> bool"
where
  "insert_outcome M p replace no_memory res M' \<longleftrightarrow>
     (case M (prop_key p) of
        None \<Rightarrow>
          res = (NJS_OK, Some p) \<and> M' = M(prop_key p \<mapsto> p) \<or>
          res = (NJS_ERROR, Some p) \<and> M' = M \<and> no_memory
      | Some old \<Rightarrow>
          if replace then res = (NJS_OK, Some old) \<and> M' = M(prop_key p \<mapsto> p)
          else res = (NJS_DECLINED, Some old) \<and> M' = M)"

text \<open>
  C12. The level hash with which an object stores its properties implements a finite map from
  names to properties. A search returns the property of the name; an insertion stores a
  property under its name unless there is one, which it reports and, when asked to, replaces;
  a deletion removes the property of the name. An insertion fails only when the pool refuses
  a block, and then the map is as before. All operations keep the table well-formed, and the
  blocks of the pool in use are those of the table, also after a failure.
\<close>

theorem object_hash_refines_map:
  assumes "object_hash_ok hash"
  defines "M \<equiv> object_hash_map hash"
  shows "njs_lvlhsh_find njs_object_hash_proto (object_lhq k v r) hash =
      (case M k of
         None \<Rightarrow> (NJS_DECLINED, object_lhq k v r)
       | Some p \<Rightarrow> (NJS_OK, object_lhq k (Some p) r)) \<and>
    (case njs_lvlhsh_insert njs_object_hash_proto (object_lhq (prop_key p) (Some p) r) hash m of
       (ret, lhq, hash', m') \<Rightarrow>
         object_hash_ok hash' \<and>
         insert_outcome M p r (out_of_memory m) (ret, lhq_value lhq) (object_hash_map hash') \<and>
         pool_live m' - int (slot_blocks hash') = pool_live m - int (slot_blocks hash)) \<and>
    (case njs_lvlhsh_delete njs_object_hash_proto (object_lhq k v r) hash m of
       (ret, lhq, hash', m') \<Rightarrow>
         object_hash_ok hash' \<and> ret = (if M k = None then NJS_DECLINED else NJS_OK) \<and>
         (M k \<noteq> None \<longrightarrow> lhq_value lhq = M k) \<and> object_hash_map hash' = M(k := None) \<and>
         pool_live m' - int (slot_blocks hash') = pool_live m - int (slot_blocks hash))"
proof (intro conjI)
  show find: "njs_lvlhsh_find njs_object_hash_proto (object_lhq k v r) hash =
      (case M k of
         None \<Rightarrow> (NJS_DECLINED, object_lhq k v r)
       | Some p \<Rightarrow> (NJS_OK, object_lhq k (Some p) r))"
    using object_hash_laws(1) [OF assms(1), of "object_lhq k v r"] by (auto simp: M_def split: option.split)
  obtain ret lhq hash' m' where
    ins: "njs_lvlhsh_insert njs_object_hash_proto (object_lhq (prop_key p) (Some p) r) hash m = (ret, lhq, hash', m')"
    by (metis prod_cases4)
  note laws = object_hash_laws(2-5) [OF assms(1) _ _ _ ins, of p, simplified]
  have "insert_outcome M p r (out_of_memory m) (ret, lhq_value lhq) (object_hash_map hash')"
    using laws(3,4) by (auto simp: M_def insert_outcome_def split: option.split)
  with laws(1,2) ins
  show "case njs_lvlhsh_insert njs_object_hash_proto (object_lhq (prop_key p) (Some p) r) hash m of
       (ret, lhq, hash', m') \<Rightarrow>
         object_hash_ok hash' \<and>
         insert_outcome M p r (out_of_memory m) (ret, lhq_value lhq) (object_hash_map hash') \<and>
         pool_live m' - int (slot_blocks hash') = pool_live m - int (slot_blocks hash)" by simp
  obtain ret lhq hash' m' where
    del: "njs_lvlhsh_delete njs_object_hash_proto (object_lhq k v r) hash m = (ret, lhq, hash', m')"
    by (metis prod_cases4)
  note laws = object_hash_laws(6-9) [OF assms(1) _ del, simplified]
  with del find
  show "case njs_lvlhsh_delete njs_object_hash_proto (object_lhq k v r) hash m of
       (ret, lhq, hash', m') \<Rightarrow>
         object_hash_ok hash' \<and> ret = (if M k = None then NJS_DECLINED else NJS_OK) \<and>
         (M k \<noteq> None \<longrightarrow> lhq_value lhq = M k) \<and> object_hash_map hash' = M(k := None) \<and>
         pool_live m' - int (slot_blocks hash') = pool_live m - int (slot_blocks hash)"
    by (auto simp: M_def split: option.splits)
qed

theorem object_hash_refines_map_witness:
  "njs_lvlhsh_find njs_object_hash_proto (object_lhq [0x61] None False) (table_of [property_a]) =
     (NJS_OK, object_lhq [0x61] (Some property_a) False) \<and>
   fst (njs_lvlhsh_delete njs_object_hash_proto (object_lhq [0x62] None False) (table_of [property_a])
     \<lparr>pool_outcomes = [], pool_live = 1\<rparr>) = NJS_DECLINED"
  using object_hash_refines_map [OF table_of_property_a, of "[0x61]" None False]
    object_hash_refines_map [OF table_of_property_a, of "[0x62]" None False property_a "\<lparr>pool_outcomes = [], pool_live = 1\<rparr>"]
  by (auto simp: property_a_map split: prod.splits)

text \<open>
  C13. The loop over the properties of an object with \<open>njs_lvlhsh_each\<close> ends: after one call for
  every property of the table the next call returns the null pointer. Until then it has
  returned every property exactly once.
\<close>

theorem object_hash_each:
  assumes "object_hash_ok hash"
  shows "\<exists>ps. (\<forall>n. each_values njs_object_hash_proto hash njs_lvlhsh_each_init n =
        (if length ps < n then Some ps else None)) \<and>
      distinct (map prop_key ps) \<and>
      (\<forall>k p. object_hash_map hash k = Some p \<longleftrightarrow> p \<in> set ps \<and> prop_key p = k)"
proof -
  let ?ps = "map snd (slot_cells hash)"
  from assms have ok: "lvlhsh_ok njs_object_hash_proto hash" "cells_ok prop_key njs_djb_hash (slot_cells hash)"
    by (simp_all add: object_hash_ok_def table_ok_def)
  have more: "each_values pr lh lhe n = None" if "each_values pr lh lhe m = Some vs" "n \<le> length vs"
    for pr :: "(bytes, njs_object_prop) njs_lvlhsh_proto_t" and lh lhe m n vs
    using that
  proof (induction m arbitrary: lhe n vs)
    case (Suc m)
    then show ?case by (cases n) (auto split: prod.splits option.splits)
  qed simp
  have "each_values njs_object_hash_proto hash njs_lvlhsh_each_init n =
      (if length ?ps < n then Some ?ps else None)" for n
    using each_values_correct [OF object_level_bits ok(1), of n]
      more [OF each_values_correct [OF object_level_bits ok(1) lessI], of n] by auto
  moreover have d: "distinct (map prop_key ?ps)" using ok(2) by (simp add: cells_ok_def comp_def)
  moreover have "object_hash_map hash k = Some p \<longleftrightarrow> p \<in> set ?ps \<and> prop_key p = k" for k p
  proof -
    have "map_of (map (\<lambda>p. (prop_key p, p)) qs) k = Some p \<longleftrightarrow> p \<in> set qs \<and> prop_key p = k"
      if "distinct (map prop_key qs)" for qs
      using that by (induction qs) (auto simp: image_iff)
    from this [OF d] show ?thesis by (simp add: object_hash_map_def table_map_def comp_def)
  qed
  ultimately show ?thesis by blast
qed

theorem object_hash_each_witness:
  "\<exists>ps. each_values njs_object_hash_proto (table_of [property_a]) njs_lvlhsh_each_init (Suc (length ps)) = Some ps \<and>
     property_a \<in> set ps"
proof -
  from object_hash_each [OF table_of_property_a] obtain ps where
    ps: "\<forall>n. each_values njs_object_hash_proto (table_of [property_a]) njs_lvlhsh_each_init n =
        (if length ps < n then Some ps else None)"
      "\<forall>k p. object_hash_map (table_of [property_a]) k = Some p \<longleftrightarrow> p \<in> set ps \<and> prop_key p = k" by blast
  have "object_hash_map (table_of [property_a]) [0x61] = Some property_a" by (simp add: property_a_map)
  with ps(2) have "property_a \<in> set ps" by blast
  moreover have "each_values njs_object_hash_proto (table_of [property_a]) njs_lvlhsh_each_init (Suc (length ps)) = Some ps"
    using ps(1) [rule_format, of "Suc (length ps)"] by (simp del: each_values.simps)
  ultimately show ?thesis by blast
qed

end
