(* ===== verification/Njs_Object.thy ===== *)
theory Njs_Object
  imports Njs_Object_Hash Njs_Sprintf "HOL-Library.AList"
begin

text \<open>
  Objects in memory and the search for a property: \<open>src/src/njs_value.c\<close> from
  \<open>njs_property_query\<close> on, \<open>njs_object_property\<close> and \<open>njs_prop_private_copy\<close> of
  \<open>src/src/njs_object_prop.c\<close>, the copies of functions of \<open>src/src/njs_function.c\<close>, and the
  pieces of \<open>njs_array.c\<close>, \<open>njs_string.c\<close> and \<open>njs_number.c\<close> they use.
\<close>

section \<open>Memory\<close>

text \<open>
  The properties of an object by their names: the finite map the level hash implements
  (\<open>Njs_Object_Hash\<close>), as an association list. Objects are referred to by their
  addresses, the positions in the heap. An object holds the fields of every kind of object:
  \<open>obj_start\<close>, \<open>obj_size\<close> and \<open>obj_free\<close> are the elements of an array, the elements its
  memory has room for, and the free ones before the first (\<open>array->start - array->data\<close>);
  \<open>obj_value\<close> is the value of a wrapper; \<open>obj_native\<close> and \<open>obj_ctor\<close> belong to functions,
  whose code and closures are a parameter. The memory does not run out, apart from the limit
  on the size of an array.
\<close>

type_synonym njs_props = "(bytes \<times> njs_object_prop) list"

record njs_object =
  obj_hash :: njs_props
  obj_shared_hash :: njs_props
  obj_proto :: "nat option"
  obj_type :: object_type
  obj_shared :: bool
  obj_extensible :: bool
  obj_start :: "njs_value list"
  obj_size :: nat
  obj_free :: nat
  obj_value :: njs_value
  obj_native :: "nat option"
  obj_ctor :: bool

type_synonym heap = "njs_object list"

text \<open>
  A computation ends in an exception or in a value, with the heap it leaves, or does not end.
\<close>

type_synonym 'a run = "((njs_error + 'a) \<times> heap) option"

abbreviation ok :: "'a \<Rightarrow> heap \<Rightarrow> 'a run" where
  "ok x h \<equiv> Some (Inr x, h)"

abbreviation throw :: "njs_error \<Rightarrow> heap \<Rightarrow> 'a run" where
  "throw e h \<equiv> Some (Inl e, h)"

fun run_bind :: "'a run \<Rightarrow> ('a \<Rightarrow> heap \<Rightarrow> 'b run) \<Rightarrow> 'b run" where
  "run_bind None f = None"
| "run_bind (Some (Inl e, h)) f = throw e h"
| "run_bind (Some (Inr x, h)) f = f x h"

lemma run_bind_cong [fundef_cong]:
  "m = m' \<Longrightarrow> (\<And>x h. m' = Some (Inr x, h) \<Longrightarrow> f x h = g x h) \<Longrightarrow> run_bind m f = run_bind m' g"
  by (cases "(m, f)" rule: run_bind.cases) auto

text \<open>
  The prototypes and tables of the virtual machine, uninitialised memory as a value, and what
  is not modelled: the calls of functions, the property handlers (the number returned is
  \<open>NJS_OK\<close> or not, the value what \<open>*retval\<close> holds then), and the conversions between numbers
  and texts of \<open>njs_number_to_string\<close> and \<open>njs_strtod\<close> (the value and the bytes left).
\<close>

record env =
  env_prototype :: "object_type \<Rightarrow> nat"
  env_string_object :: nat
  env_function_instance_hash :: njs_props
  env_arrow_instance_hash :: njs_props
  env_string_instance_hash :: njs_props
  env_array_instance_hash :: njs_props
  env_fresh_cell :: njs_value
  env_call :: "heap \<Rightarrow> nat \<Rightarrow> njs_value \<Rightarrow> njs_value list \<Rightarrow> njs_value run"
  env_handler :: "nat \<Rightarrow> heap \<Rightarrow> njs_object_prop \<Rightarrow> njs_value \<Rightarrow> njs_value option \<Rightarrow> (bool \<times> njs_value) run"
  env_number_to_string :: "number \<Rightarrow> njs_string"
  env_strtod :: "bytes \<Rightarrow> number \<times> bytes"

section \<open>Values\<close>

definition text_string :: "string \<Rightarrow> njs_string" where
  "text_string s = \<lparr>str_start = ascii s, str_length = length s, str_map = []\<rparr>"

fun njs_is_null_or_undefined :: "njs_value \<Rightarrow> bool" where
  "njs_is_null_or_undefined Null_value = True"
| "njs_is_null_or_undefined Undefined = True"
| "njs_is_null_or_undefined v = False"

fun njs_is_null_or_undefined_or_boolean :: "njs_value \<Rightarrow> bool" where
  "njs_is_null_or_undefined_or_boolean (Boolean b) = True"
| "njs_is_null_or_undefined_or_boolean v = njs_is_null_or_undefined v"

fun njs_is_primitive :: "njs_value \<Rightarrow> bool" where
  "njs_is_primitive Invalid = False"
| "njs_is_primitive (Handler n) = False"
| "njs_is_primitive (Object t a) = False"
| "njs_is_primitive v = True"

text \<open>
  An internal object value has no type name: \<open>%s\<close> of the null pointer prints nothing. The
  messages below are whole texts; \<open>njs_error_new\<close> keeps the first 2048 bytes of them.
\<close>

fun njs_type_string :: "njs_value \<Rightarrow> bytes" where
  "njs_type_string Null_value = ascii ''null''"
| "njs_type_string Undefined = ascii ''undefined''"
| "njs_type_string (Boolean b) = ascii ''boolean''"
| "njs_type_string (Number_value n) = ascii ''number''"
| "njs_type_string (String s) = ascii ''string''"
| "njs_type_string Invalid = ascii ''invalid''"
| "njs_type_string (Handler n) = ascii ''invalid''"
| "njs_type_string (Object NJS_OBJECT a) = ascii ''object''"
| "njs_type_string (Object NJS_ARRAY a) = ascii ''array''"
| "njs_type_string (Object NJS_OBJECT_BOOLEAN a) = ascii ''object boolean''"
| "njs_type_string (Object NJS_OBJECT_NUMBER a) = ascii ''object number''"
| "njs_type_string (Object NJS_OBJECT_STRING a) = ascii ''object string''"
| "njs_type_string (Object NJS_FUNCTION a) = ascii ''function''"
| "njs_type_string (Object NJS_REGEXP a) = ascii ''regexp''"
| "njs_type_string (Object NJS_DATE a) = ascii ''date''"
| "njs_type_string (Object NJS_OBJECT_VALUE a) = []"

definition njs_primitive_value_to_string :: "env \<Rightarrow> njs_value \<Rightarrow> njs_string option" where
  "njs_primitive_value_to_string env src =
     (case src of
        Null_value \<Rightarrow> Some (text_string ''null'')
      | Undefined \<Rightarrow> Some (text_string ''undefined'')
      | Boolean b \<Rightarrow> Some (if njs_is_true src then text_string ''true'' else text_string ''false'')
      | Number_value n \<Rightarrow> Some (env_number_to_string env n)
      | String s \<Rightarrow> Some s
      | _ \<Rightarrow> None)"

definition njs_string_to_index :: "env \<Rightarrow> njs_string \<Rightarrow> number" where
  "njs_string_to_index env s =
     (if str_size s = 0 then NaN
      else if str_start s ! 0 = 0x30 \<and> str_size s > 1 then NaN
      else case env_strtod env (str_start s) of (num, p) \<Rightarrow> if p \<noteq> [] then NaN else num)"

definition NJS_ARRAY_MAX_INDEX :: nat where "NJS_ARRAY_MAX_INDEX = 0xffffffff"

definition NJS_ARRAY_MAX_LENGTH :: nat where "NJS_ARRAY_MAX_LENGTH = 0xffffffff div 16"

text \<open>
  The conversion of a primitive value that is not null, undefined or a Boolean; a number
  outside of \<open>uint32_t\<close> does not survive the cast.
\<close>

definition njs_value_to_index :: "env \<Rightarrow> njs_value \<Rightarrow> nat" where
  "njs_value_to_index env v =
     (let num = (case v of Number_value n \<Rightarrow> n | String s \<Rightarrow> njs_string_to_index env s | _ \<Rightarrow> NaN)
      in case num of
           Finite q \<Rightarrow>
             if q = of_int \<lfloor>q\<rfloor> \<and> 0 \<le> \<lfloor>q\<rfloor> \<and> \<lfloor>q\<rfloor> < 2 ^ 32 then nat \<lfloor>q\<rfloor> else NJS_ARRAY_MAX_INDEX
         | _ \<Rightarrow> NJS_ARRAY_MAX_INDEX)"

section \<open>The slice of a string\<close>

definition string_prop_length :: "njs_string \<Rightarrow> nat" where
  "string_prop_length s = (if str_length s = 0 then str_size s else str_length s)"

text \<open>The loop over the characters of the slice: the bytes and the characters left.\<close>

fun slice_loop :: "nat \<Rightarrow> bytes \<Rightarrow> (bytes \<times> nat) option" where
  "slice_loop n [] = Some ([], n)"
| "slice_loop 0 p = Some (p, 0)"
| "slice_loop (Suc n) p = (case njs_utf8_next p of None \<Rightarrow> None | Some p' \<Rightarrow> slice_loop n p')"

text \<open>The bytes and the length of the slice; \<^const>\<open>None\<close> is an access outside the string.\<close>

definition njs_string_slice_string_prop :: "njs_string \<Rightarrow> nat \<Rightarrow> nat \<Rightarrow> nat \<Rightarrow> (bytes \<times> nat) option" where
  "njs_string_slice_string_prop s start len string_length =
     (if str_size s = string_length then
        Some (take len (drop start (str_start s)), if str_length s = 0 then 0 else len)
      else if start < string_length then
        case njs_string_offset s start of
          None \<Rightarrow> None
        | Some p \<Rightarrow>
            (case slice_loop len p of
               None \<Rightarrow> None
             | Some (p', n) \<Rightarrow> Some (take (length p - length p') p, len - n))
      else Some ([], 0))"

definition njs_string_slice :: "njs_string \<Rightarrow> nat \<Rightarrow> nat \<Rightarrow> nat \<Rightarrow> njs_error + njs_string" where
  "njs_string_slice s start len string_length =
     (case njs_string_slice_string_prop s start len string_length of
        None \<Rightarrow> Inl Bad_access
      | Some (bs, n) \<Rightarrow> if length bs \<noteq> 0 then njs_string_new bs n else Inr (text_string []))"

definition njs_uint32_to_string :: "nat \<Rightarrow> njs_string" where
  "njs_uint32_to_string u32 =
     (let p = integer_dec u32 [] in \<lparr>str_start = p, str_length = length p, str_map = []\<rparr>)"

section \<open>Tables of properties in memory\<close>

definition upd_object :: "heap \<Rightarrow> nat \<Rightarrow> (njs_object \<Rightarrow> njs_object) \<Rightarrow> heap" where
  "upd_object h a f = h[a := f (h ! a)]"

definition put_prop :: "heap \<Rightarrow> nat \<Rightarrow> bytes \<Rightarrow> njs_object_prop \<Rightarrow> heap" where
  "put_prop h a k p = upd_object h a (\<lambda>obj. obj\<lparr>obj_hash := AList.update k p (obj_hash obj)\<rparr>)"

text \<open>\<open>njs_lvlhsh_insert\<close> without replacement.\<close>

definition insert_prop :: "heap \<Rightarrow> nat \<Rightarrow> bytes \<Rightarrow> njs_object_prop \<Rightarrow> unit run" where
  "insert_prop h a k p =
     (case map_of (obj_hash (h ! a)) k of
        None \<Rightarrow> ok () (put_prop h a k p)
      | Some _ \<Rightarrow> throw (Internal_error (ascii ''lvlhsh insert failed'')) h)"

section \<open>Copies of functions\<close>

text \<open>The value, changed to the copy.\<close>

definition njs_function_copy :: "env \<Rightarrow> njs_object \<Rightarrow> njs_object" where
  "njs_function_copy env f =
     f\<lparr>obj_proto := Some (env_prototype env NJS_FUNCTION), obj_shared := False\<rparr>"

definition njs_function_value_copy :: "env \<Rightarrow> heap \<Rightarrow> njs_value \<Rightarrow> njs_value \<times> heap" where
  "njs_function_value_copy env h v =
     (case v of
        Object t a \<Rightarrow>
          if \<not> obj_shared (h ! a) then (v, h)
          else
            let copy = njs_function_copy env (h ! a);
                copy = copy\<lparr>obj_shared_hash :=
                  (if obj_ctor copy then env_function_instance_hash env else env_arrow_instance_hash env)\<rparr>
            in (Object t (length h), h @ [copy])
      | _ \<Rightarrow> (v, h))"

fun value_address :: "njs_value \<Rightarrow> nat option" where
  "value_address (Object t a) = Some a"
| "value_address v = None"

abbreviation address :: "njs_value \<Rightarrow> nat" where
  "address v \<equiv> the (value_address v)"

definition njs_function_name_set :: "heap \<Rightarrow> nat \<Rightarrow> njs_string \<Rightarrow> unit run" where
  "njs_function_name_set h function name =
     insert_prop h function (ascii ''name'')
       ((njs_object_prop_alloc (text_string ''name'') (String name) NJS_ATTRIBUTE_FALSE)
          \<lparr>prop_configurable := NJS_ATTRIBUTE_TRUE\<rparr>)"

text \<open>A call of a value that is not an object uses memory that is none.\<close>

definition call_function :: "env \<Rightarrow> heap \<Rightarrow> njs_value \<Rightarrow> njs_value \<Rightarrow> njs_value list \<Rightarrow> njs_value run" where
  "call_function env h f this args =
     (case f of Object t a \<Rightarrow> env_call env h a this args | _ \<Rightarrow> throw Bad_access h)"

definition call_handler ::
  "env \<Rightarrow> heap \<Rightarrow> njs_object_prop \<Rightarrow> njs_value \<Rightarrow> njs_value option \<Rightarrow> (bool \<times> njs_value) run" where
  "call_handler env h prop v setval =
     (case prop_value prop of
        Handler n \<Rightarrow> env_handler env n h prop v setval
      | _ \<Rightarrow> throw Bad_access h)"

section \<open>The search without special objects\<close>

partial_function (option) find_in_chain ::
  "heap \<Rightarrow> bytes \<Rightarrow> nat \<Rightarrow> njs_object_prop option option" where
  [code]: "find_in_chain h key a =
     (case map_of (obj_hash (h ! a)) key of
        Some prop \<Rightarrow> Some (Some prop)
      | None \<Rightarrow>
          (case map_of (obj_shared_hash (h ! a)) key of
             Some prop \<Rightarrow> Some (Some prop)
           | None \<Rightarrow>
               (case obj_proto (h ! a) of
                  None \<Rightarrow> Some None
                | Some proto \<Rightarrow> find_in_chain h key proto)))"

text \<open>Whether the property was found (\<open>NJS_OK\<close> or \<open>NJS_DECLINED\<close>), and its value.\<close>

definition njs_object_property :: "env \<Rightarrow> heap \<Rightarrow> njs_value \<Rightarrow> bytes \<Rightarrow> (bool \<times> njs_value) run" where
  "njs_object_property env h v key =
     (case find_in_chain h key (address v) of
        None \<Rightarrow> None
      | Some None \<Rightarrow> ok (False, Undefined) h
      | Some (Some prop) \<Rightarrow>
          if njs_is_data_descriptor prop then ok (True, prop_value prop) h
          else if prop_getter prop = Undefined then ok (True, Undefined) h
          else run_bind (call_function env h (prop_getter prop) v []) (\<lambda>retval h. ok (True, retval) h))"

text \<open>
  The hint is 0 for numbers and 1 for strings; \<open>tries\<close> counts the methods tried.
\<close>

fun to_primitive_loop :: "env \<Rightarrow> heap \<Rightarrow> njs_value \<Rightarrow> bool \<Rightarrow> nat \<Rightarrow> njs_value run" where
  "to_primitive_loop env h v hint 0 =
     throw (Type_error (ascii ''Cannot convert object to primitive value'')) h"
| "to_primitive_loop env h v hint (Suc left) =
     (if \<not> njs_is_object v then throw (Type_error (ascii ''Cannot convert object to primitive value'')) h
      else
        let hint = (if left = 1 then hint else \<not> hint)
        in run_bind (njs_object_property env h v (if hint then ascii ''toString'' else ascii ''valueOf''))
             (\<lambda>(found, method) h.
                if njs_is_function method then
                  run_bind (call_function env h method v [])
                    (\<lambda>retval h. if njs_is_primitive retval then ok retval h else to_primitive_loop env h v hint left)
                else to_primitive_loop env h v hint left))"

definition njs_value_to_primitive :: "env \<Rightarrow> heap \<Rightarrow> njs_value \<Rightarrow> bool \<Rightarrow> njs_value run" where
  "njs_value_to_primitive env h v hint =
     (if njs_is_primitive v then ok v h else to_primitive_loop env h v hint 2)"

text \<open>The last case, a value that is not valid, is an error without an exception.\<close>

definition njs_value_to_string :: "env \<Rightarrow> heap \<Rightarrow> njs_value \<Rightarrow> njs_string run" where
  "njs_value_to_string env h v =
     run_bind (if \<not> njs_is_primitive v then njs_value_to_primitive env h v True else ok v h)
       (\<lambda>v h. case njs_primitive_value_to_string env v of
                None \<Rightarrow> throw Bad_access h
              | Some s \<Rightarrow> ok s h)"

section \<open>Property queries\<close>

datatype query_t = NJS_PROPERTY_QUERY_GET | NJS_PROPERTY_QUERY_SET | NJS_PROPERTY_QUERY_DELETE

text \<open>
  Where the property a query found is stored: in a table of an object, in the query itself
  (\<open>pq->scratch\<close>), or there with a reference to an element of an array.
\<close>

datatype prop_place = In_hash nat | In_shared_hash nat | Scratch | Cell nat nat

text \<open>
  \<open>pq_value\<close> is \<open>lhq.value\<close>: the place of the property and its contents. \<open>pq_key\<close> is the key as
  a string; a whiteout of the object itself is given by the object.
\<close>

record njs_property_query_t =
  pq_query :: query_t
  pq_own :: bool
  pq_shared :: bool
  pq_own_whiteout :: "nat option"
  pq_value :: "(prop_place \<times> njs_object_prop) option"
  pq_key :: njs_string
  pq_prototype :: nat

abbreviation pq_text :: "njs_property_query_t \<Rightarrow> bytes" where
  "pq_text pq \<equiv> str_start (pq_key pq)"

definition njs_property_query_init :: "query_t \<Rightarrow> bool \<Rightarrow> njs_property_query_t" where
  "njs_property_query_init query own =
     \<lparr>pq_query = query, pq_own = own, pq_shared = False, pq_own_whiteout = None, pq_value = None,
      pq_key = text_string [], pq_prototype = 0\<rparr>"

text \<open>A property in the query: its getter and setter are not set, and not read.\<close>

definition scratch_prop :: "njs_value \<Rightarrow> njs_object_prop_type_t \<Rightarrow> bool \<Rightarrow> njs_object_prop" where
  "scratch_prop v type mutable =
     \<lparr>prop_value = v, prop_name = text_string [], prop_getter = Invalid, prop_setter = Invalid,
      prop_type = type, prop_writable = of_bool_attr mutable, prop_enumerable = NJS_ATTRIBUTE_TRUE,
      prop_configurable = of_bool_attr mutable\<rparr>"

text \<open>The copy of a shared property; the functions in it are copied as well.\<close>

definition njs_prop_private_copy ::
  "env \<Rightarrow> njs_property_query_t \<Rightarrow> njs_object_prop \<Rightarrow> heap \<Rightarrow> njs_property_query_t run" where
  "njs_prop_private_copy env pq prop h =
     (let a = pq_prototype pq;
          result = (\<lambda>prop h. ok (pq\<lparr>pq_value := Some (In_hash a, prop)\<rparr>) (put_prop h a (pq_text pq) prop))
      in run_bind (insert_prop h a (pq_text pq) prop) (\<lambda>_ h.
           if njs_is_accessor_descriptor prop then
             let (getter, h) =
                   (if njs_is_function (prop_getter prop) then njs_function_value_copy env h (prop_getter prop)
                    else (prop_getter prop, h));
                 prop = prop\<lparr>prop_getter := getter\<rparr>
             in if njs_is_function getter \<and> njs_is_function (prop_setter prop) \<and>
                   obj_native (h ! address getter) \<noteq> None \<and>
                   obj_native (h ! address getter) = obj_native (h ! address (prop_setter prop))
                then result (prop\<lparr>prop_setter := getter\<rparr>) h
                else if njs_is_function (prop_setter prop) then
                  case njs_function_value_copy env h (prop_setter prop) of
                    (setter, h) \<Rightarrow> result (prop\<lparr>prop_setter := setter\<rparr>) h
                else result prop h
           else if \<not> njs_is_function (prop_value prop) then result prop h
           else case njs_function_value_copy env h (prop_value prop) of
             (v, h) \<Rightarrow>
               run_bind (result (prop\<lparr>prop_value := v\<rparr>) h) (\<lambda>pq h.
                 run_bind (njs_function_name_set h (address v) (prop_name prop)) (\<lambda>_ h. ok pq h))))"

text \<open>Room for \<open>pre\<close> elements before the array and \<open>post\<close> behind it.\<close>

definition njs_array_expand :: "njs_object \<Rightarrow> nat \<Rightarrow> nat \<Rightarrow> njs_error + njs_object" where
  "njs_array_expand array pre post =
     (let free_before = obj_free array;
          free_after = obj_size array - length (obj_start array) - free_before;
          size = pre + length (obj_start array) + post;
          size = (if size < 16 then size * 2 else size + size div 2)
      in if free_before \<ge> pre \<and> free_after \<ge> post then Inr array
         else if size > NJS_ARRAY_MAX_LENGTH then Inl Memory_error
         else Inr (array\<lparr>obj_size := size, obj_free := pre\<rparr>))"

text \<open>
  Whether the property was found, the query, and the heap. A query to set an element beyond
  the end fills the gap with invalid elements and leaves the new last element as it is in
  memory.
\<close>

definition njs_array_property_query ::
  "env \<Rightarrow> njs_property_query_t \<Rightarrow> heap \<Rightarrow> nat \<Rightarrow> nat \<Rightarrow> (bool \<times> njs_property_query_t) run" where
  "njs_array_property_query env pq h a index =
     (let array = h ! a; len = length (obj_start array)
      in if index \<ge> len \<and> pq_query pq \<noteq> NJS_PROPERTY_QUERY_SET then ok (False, pq) h
         else
           case (if index \<ge> len then
                   case njs_array_expand array 0 (index - len + 1) of
                     Inl e \<Rightarrow> Inl e
                   | Inr array \<Rightarrow>
                       Inr (array\<lparr>obj_start :=
                         obj_start array @ replicate (index - len) Invalid @ [env_fresh_cell env]\<rparr>)
                 else Inr array) of
             Inl e \<Rightarrow> throw e h
           | Inr array \<Rightarrow>
               let h = h[a := array]
               in if pq_query pq = NJS_PROPERTY_QUERY_GET then
                    if \<not> njs_is_valid (obj_start array ! index) then ok (False, pq) h
                    else ok (True, pq\<lparr>pq_value := Some (Scratch,
                           scratch_prop (obj_start array ! index) NJS_PROPERTY True)\<rparr>) h
                  else ok (True, pq\<lparr>pq_value := Some (Cell a index,
                         scratch_prop Invalid NJS_PROPERTY_REF True)\<rparr>) h)"

definition njs_string_property_query ::
  "njs_property_query_t \<Rightarrow> heap \<Rightarrow> njs_string \<Rightarrow> nat \<Rightarrow> (bool \<times> njs_property_query_t) run" where
  "njs_string_property_query pq h s index =
     (let string_length = string_prop_length s
      in if index < string_length then
           case njs_string_slice s index 1 string_length of
             Inl e \<Rightarrow> throw e h
           | Inr c \<Rightarrow>
               let pq = pq\<lparr>pq_value := Some (Scratch, scratch_prop (String c) NJS_PROPERTY False)\<rparr>
               in ok (True,
                      if pq_query pq \<noteq> NJS_PROPERTY_QUERY_GET then pq\<lparr>pq_key := njs_uint32_to_string index\<rparr>
                      else pq) h
         else ok (False, pq) h)"

text \<open>
  The part of the loop of \<open>njs_object_property_query\<close> for arrays and wrapped strings:
  \<^const>\<open>None\<close> goes on with the tables.
\<close>

definition indexed_query ::
  "env \<Rightarrow> njs_property_query_t \<Rightarrow> heap \<Rightarrow> nat \<Rightarrow> njs_value \<Rightarrow> (bool \<times> njs_property_query_t) run" where
  "indexed_query env pq h proto key =
     (if njs_is_null_or_undefined_or_boolean key then None
      else
        let index = njs_value_to_index env key
        in case (obj_type (h ! proto), obj_value (h ! proto)) of
             (NJS_ARRAY, _) \<Rightarrow>
               if index < NJS_ARRAY_MAX_INDEX then njs_array_property_query env pq h proto index else None
           | (NJS_OBJECT_STRING, String s) \<Rightarrow>
               if index < NJS_STRING_MAX_LENGTH then
                 case njs_string_property_query pq h s index of
                   Some (Inr (False, _), _) \<Rightarrow> None
                 | result \<Rightarrow> result
               else None
           | _ \<Rightarrow> None)"

text \<open>
  One turn of the loop: the result of the query, or the query to go on with at the next
  prototype.
\<close>

definition query_step ::
  "env \<Rightarrow> njs_value \<Rightarrow> njs_property_query_t \<Rightarrow> heap \<Rightarrow> nat \<Rightarrow>
    (bool \<times> njs_property_query_t) run + njs_property_query_t" where
  "query_step env key pq h proto =
     (let pq = pq\<lparr>pq_prototype := proto\<rparr>
      in case indexed_query env pq h proto key of
           Some result \<Rightarrow> Inl (Some result)
         | None \<Rightarrow>
             (case map_of (obj_hash (h ! proto)) (pq_text pq) of
                Some prop \<Rightarrow>
                  let pq = pq\<lparr>pq_value := Some (In_hash proto, prop)\<rparr>
                  in if prop_type prop \<noteq> NJS_WHITEOUT then Inl (ok (True, pq) h)
                     else Inr (if pq_own pq then pq\<lparr>pq_own_whiteout := Some proto\<rparr> else pq)
              | None \<Rightarrow>
                  (case map_of (obj_shared_hash (h ! proto)) (pq_text pq) of
                     Some prop \<Rightarrow>
                       let pq = pq\<lparr>pq_value := Some (In_shared_hash proto, prop)\<rparr>
                       in if \<not> attr (prop_configurable prop) \<and> prop_type prop = NJS_PROPERTY_HANDLER
                          then Inl (ok (True, pq\<lparr>pq_shared := True\<rparr>) h)
                          else Inl (run_bind (njs_prop_private_copy env pq prop h) (\<lambda>pq h. ok (True, pq) h))
                   | None \<Rightarrow> Inr pq)))"

partial_function (option) query_loop ::
  "env \<Rightarrow> njs_value \<Rightarrow> bool \<Rightarrow> njs_property_query_t \<Rightarrow> heap \<Rightarrow> nat \<Rightarrow> (bool \<times> njs_property_query_t) run" where
  [code]: "query_loop env key own pq h proto =
     (case query_step env key pq h proto of
        Inl result \<Rightarrow> result
      | Inr pq \<Rightarrow>
          if own then ok (False, pq) h
          else
            (case obj_proto (h ! proto) of
               None \<Rightarrow> ok (False, pq\<lparr>pq_own := False\<rparr>) h
             | Some proto \<Rightarrow> query_loop env key own (pq\<lparr>pq_own := False\<rparr>) h proto))"

definition njs_object_property_query ::
  "env \<Rightarrow> njs_property_query_t \<Rightarrow> heap \<Rightarrow> nat \<Rightarrow> njs_value \<Rightarrow> (bool \<times> njs_property_query_t) run" where
  "njs_object_property_query env pq h object key =
     query_loop env key (pq_own pq) (pq\<lparr>pq_own := True\<rparr>) h object"

text \<open>
  The result has the value as the query leaves it: a shared function is replaced by its copy.
\<close>

definition njs_property_query ::
  "env \<Rightarrow> njs_property_query_t \<Rightarrow> heap \<Rightarrow> njs_value \<Rightarrow> njs_value \<Rightarrow>
    (bool \<times> njs_property_query_t \<times> njs_value) run" where
  "njs_property_query env pq h v key =
     run_bind
       (if \<not> njs_is_primitive key then run_bind (njs_value_to_string env h key) (\<lambda>s h. ok (String s) h)
        else ok key h)
       (\<lambda>key h.
          let in_object = (\<lambda>v h obj.
                case njs_primitive_value_to_string env key of
                  None \<Rightarrow> throw Bad_access h
                | Some s \<Rightarrow>
                    run_bind (njs_object_property_query env (pq\<lparr>pq_key := s\<rparr>) h obj key)
                      (\<lambda>(found, pq) h. ok (found, pq, v) h))
          in case v of
               Boolean b \<Rightarrow> in_object v h (env_prototype env NJS_OBJECT_BOOLEAN)
             | Number_value n \<Rightarrow> in_object v h (env_prototype env NJS_OBJECT_NUMBER)
             | String s \<Rightarrow>
                 let index = (if njs_is_null_or_undefined_or_boolean key then NJS_STRING_MAX_LENGTH
                              else njs_value_to_index env key)
                 in if index < NJS_STRING_MAX_LENGTH then
                      run_bind (njs_string_property_query pq h s index) (\<lambda>(found, pq) h. ok (found, pq, v) h)
                    else in_object v h (env_string_object env)
             | Object NJS_FUNCTION a \<Rightarrow>
                 (case njs_function_value_copy env h v of (v, h) \<Rightarrow> in_object v h (address v))
             | Object t a \<Rightarrow> in_object v h a
             | _ \<Rightarrow>
                 throw (Type_error
                   (case njs_primitive_value_to_string env key of
                      Some s \<Rightarrow> ascii ''cannot get property \"'' @ str_start s @ ascii ''\" of undefined''
                    | None \<Rightarrow> ascii ''cannot get property \"unknown\" of undefined'')) h)"

section \<open>Reading, writing and deleting a property\<close>

fun njs_prop_type_string :: "njs_object_prop_type_t \<Rightarrow> bytes" where
  "njs_prop_type_string NJS_PROPERTY_REF = ascii ''property_ref''"
| "njs_prop_type_string NJS_PROPERTY_HANDLER = ascii ''property handler''"
| "njs_prop_type_string NJS_WHITEOUT = ascii ''whiteout''"
| "njs_prop_type_string NJS_PROPERTY = ascii ''property''"

text \<open>Whether the property was found, its value, and the object as the query leaves it.\<close>

definition njs_value_property :: "env \<Rightarrow> heap \<Rightarrow> njs_value \<Rightarrow> njs_value \<Rightarrow> (bool \<times> njs_value \<times> njs_value) run" where
  "njs_value_property env h v key =
     run_bind (njs_property_query env (njs_property_query_init NJS_PROPERTY_QUERY_GET False) h v key)
       (\<lambda>(found, pq, v) h.
          case (found, pq_value pq) of
            (True, Some (place, prop)) \<Rightarrow>
              (case prop_type prop of
                 NJS_PROPERTY \<Rightarrow>
                   if njs_is_data_descriptor prop then ok (True, prop_value prop, v) h
                   else if prop_getter prop = Undefined then ok (True, Undefined, v) h
                   else run_bind (call_function env h (prop_getter prop) v []) (\<lambda>retval h. ok (True, retval, v) h)
               | NJS_PROPERTY_HANDLER \<Rightarrow>
                   run_bind (call_handler env h prop v None) (\<lambda>(_, retval) h. ok (True, retval, v) h)
               | type \<Rightarrow>
                   throw (Internal_error (ascii ''unexpected property type \"'' @ njs_prop_type_string type @
                     ascii ''\" while getting'')) h)
          | _ \<Rightarrow> ok (False, Undefined, v) h)"

text \<open>The last part of \<open>njs_value_property_set\<close>: a property of the object itself is added.\<close>

definition add_property :: "heap \<Rightarrow> njs_value \<Rightarrow> njs_property_query_t \<Rightarrow> njs_value \<Rightarrow> njs_value run" where
  "add_property h v pq setval =
     (case pq_own_whiteout pq of
        Some a \<Rightarrow>
          (case map_of (obj_hash (h ! a)) (pq_text pq) of
             Some prop \<Rightarrow>
               ok v (put_prop h a (pq_text pq)
                 (prop\<lparr>prop_type := NJS_PROPERTY, prop_enumerable := NJS_ATTRIBUTE_TRUE,
                       prop_configurable := NJS_ATTRIBUTE_TRUE, prop_writable := NJS_ATTRIBUTE_TRUE,
                       prop_value := setval\<rparr>))
           | None \<Rightarrow> throw Bad_access h)
      | None \<Rightarrow>
          if \<not> obj_extensible (h ! address v) then
            throw (Type_error (ascii ''Cannot add property \"'' @ pq_text pq @
              ascii ''\", object is not extensible'')) h
          else
            run_bind
              (insert_prop h (address v) (pq_text pq) (njs_object_prop_alloc (pq_key pq) setval NJS_ATTRIBUTE_TRUE))
              (\<lambda>_ h. ok v h))"

text \<open>
  The property is stored where the query found it. A handler is called before the stored
  property is looked at again, but none of the handlers changes it in place.
\<close>

definition store_property ::
  "heap \<Rightarrow> njs_value \<Rightarrow> njs_property_query_t \<Rightarrow> prop_place \<Rightarrow> njs_object_prop \<Rightarrow> njs_value \<Rightarrow> njs_value run" where
  "store_property h v pq place prop setval =
     (if \<not> pq_own pq then add_property h v pq setval
      else
        case (prop_type prop, place) of
          (NJS_PROPERTY, In_hash a) \<Rightarrow> ok v (put_prop h a (pq_text pq) (prop\<lparr>prop_value := setval\<rparr>))
        | (NJS_PROPERTY, _) \<Rightarrow> ok v h
        | (NJS_PROPERTY_REF, Cell a i) \<Rightarrow>
            ok v (upd_object h a (\<lambda>obj. obj\<lparr>obj_start := (obj_start obj)[i := setval]\<rparr>))
        | (type, _) \<Rightarrow>
            throw (Internal_error (ascii ''unexpected property type \"'' @ njs_prop_type_string type @
              ascii ''\" while setting'')) h)"

text \<open>The switch of \<open>njs_value_property_set\<close> on the result of the query.\<close>

definition assign_property ::
  "env \<Rightarrow> heap \<Rightarrow> njs_value \<Rightarrow> bool \<Rightarrow> njs_property_query_t \<Rightarrow> njs_value \<Rightarrow> njs_value run" where
  "assign_property env h v found pq setval =
     (case (found, pq_value pq) of
        (True, Some (place, prop)) \<Rightarrow>
          if njs_is_data_descriptor prop \<and> \<not> attr (prop_writable prop) then
            throw (Type_error (ascii ''Cannot assign to read-only property \"'' @ pq_text pq @
              ascii ''\" of '' @ njs_type_string v)) h
          else if \<not> njs_is_data_descriptor prop then
            if njs_is_function (prop_setter prop) then
              run_bind (call_function env h (prop_setter prop) v [setval]) (\<lambda>_ h. ok v h)
            else
              throw (Type_error (ascii ''Cannot set property \"'' @ pq_text pq @ ascii ''\" of '' @
                njs_type_string v @ ascii '' which has only a getter'')) h
          else if prop_type prop = NJS_PROPERTY_HANDLER then
            run_bind (call_handler env h prop v (Some setval))
              (\<lambda>(done, _) h. if done then ok v h else store_property h v pq place prop setval)
          else store_property h v pq place prop setval
      | _ \<Rightarrow> add_property h v pq setval)"

definition njs_value_property_set ::
  "env \<Rightarrow> heap \<Rightarrow> njs_value \<Rightarrow> njs_value \<Rightarrow> njs_value \<Rightarrow> njs_value run" where
  "njs_value_property_set env h v key setval =
     (if njs_is_primitive v then
        throw (Type_error (ascii ''property set on primitive '' @ njs_type_string v @ ascii '' type'')) h
      else
        run_bind (njs_property_query env (njs_property_query_init NJS_PROPERTY_QUERY_SET False) h v key)
          (\<lambda>(found, pq, v) h. assign_property env h v found pq setval))"

text \<open>
  Whether there was such a property, the removed value, and the object. Of a property only
  the type and the value are overwritten.
\<close>

definition remove_property ::
  "heap \<Rightarrow> njs_value \<Rightarrow> bool \<Rightarrow> njs_property_query_t \<Rightarrow> (bool \<times> njs_value \<times> njs_value) run" where
  "remove_property h v found pq =
     (case (found, pq_value pq) of
        (True, Some (place, prop)) \<Rightarrow>
          if \<not> attr (prop_configurable prop) then
            throw (Type_error (ascii ''Cannot delete property \"'' @ pq_text pq @ ascii ''\" of '' @
              njs_type_string v)) h
          else
            (case (prop_type prop, place) of
               (NJS_PROPERTY_REF, Cell a i) \<Rightarrow>
                 ok (True, obj_start (h ! a) ! i, v)
                   (upd_object h a (\<lambda>obj. obj\<lparr>obj_start := (obj_start obj)[i := njs_set_invalid (obj_start obj ! i)]\<rparr>))
             | (NJS_PROPERTY_REF, _) \<Rightarrow> throw Bad_access h
             | (NJS_WHITEOUT, _) \<Rightarrow>
                 throw (Internal_error (ascii ''unexpected property type \"'' @
                   njs_prop_type_string NJS_WHITEOUT @ ascii ''\" while deleting'')) h
             | (_, In_hash a) \<Rightarrow>
                 ok (True, prop_value prop, v)
                   (put_prop h a (pq_text pq)
                     (prop\<lparr>prop_type := NJS_WHITEOUT, prop_value := njs_set_invalid (prop_value prop)\<rparr>))
             | _ \<Rightarrow> ok (True, prop_value prop, v) h)
      | _ \<Rightarrow> ok (False, Invalid, v) h)"

definition njs_value_property_delete ::
  "env \<Rightarrow> heap \<Rightarrow> njs_value \<Rightarrow> njs_value \<Rightarrow> (bool \<times> njs_value \<times> njs_value) run" where
  "njs_value_property_delete env h v key =
     run_bind (njs_property_query env (njs_property_query_init NJS_PROPERTY_QUERY_DELETE True) h v key)
       (\<lambda>(found, pq, v) h. remove_property h v found pq)"

end
