(* ===== verification/Njs_Object_Define.thy ===== *)
theory Njs_Object_Define
  imports Njs_Object
begin

text \<open>
  Property descriptors, \<open>src/src/njs_object_prop.c\<close>: reading a descriptor object
  (\<open>njs_descriptor_prop\<close>), defining a property by it (\<open>njs_object_prop_define\<close>), and making a
  descriptor object of a property (\<open>njs_object_prop_descriptor\<close>).
\<close>

section \<open>Reading a descriptor\<close>

datatype njs_object_prop_define_t =
    NJS_OBJECT_PROP_DESCRIPTOR | NJS_OBJECT_PROP_GETTER | NJS_OBJECT_PROP_SETTER

text \<open>The field \<open>get\<close> or \<open>set\<close>: not valid if the descriptor has none.\<close>

definition descriptor_function :: "env \<Rightarrow> heap \<Rightarrow> njs_value \<Rightarrow> string \<Rightarrow> string \<Rightarrow> njs_value run" where
  "descriptor_function env h desc field name =
     run_bind (njs_object_property env h desc (ascii field)) (\<lambda>(found, v) h.
       if \<not> found then ok Invalid h
       else if v \<noteq> Undefined \<and> \<not> njs_is_function v
         then throw (Type_error (ascii name @ ascii '' must be a function'')) h
       else ok v h)"

text \<open>An attribute: unset if the descriptor has none.\<close>

definition descriptor_attribute ::
  "env \<Rightarrow> heap \<Rightarrow> njs_value \<Rightarrow> string \<Rightarrow> njs_object_attribute_t \<Rightarrow> (bool \<times> njs_object_attribute_t) run" where
  "descriptor_attribute env h desc field old =
     run_bind (njs_object_property env h desc (ascii field)) (\<lambda>(found, v) h.
       ok (found, if found then of_bool_attr (njs_is_true v) else old) h)"

definition njs_descriptor_prop :: "env \<Rightarrow> heap \<Rightarrow> njs_object_prop \<Rightarrow> njs_value \<Rightarrow> njs_object_prop run" where
  "njs_descriptor_prop env h prop desc =
     run_bind (descriptor_function env h desc ''get'' ''Getter'') (\<lambda>getter h.
     run_bind (descriptor_function env h desc ''set'' ''Setter'') (\<lambda>setter h.
     run_bind (njs_object_property env h desc (ascii ''value'')) (\<lambda>(has_value, v) h.
     run_bind (descriptor_attribute env h desc ''writable'' (prop_writable prop)) (\<lambda>(has_writable, w) h.
     run_bind (descriptor_attribute env h desc ''enumerable'' (prop_enumerable prop)) (\<lambda>(_, e) h.
     run_bind (descriptor_attribute env h desc ''configurable'' (prop_configurable prop)) (\<lambda>(_, c) h.
       if (getter \<noteq> Invalid \<or> setter \<noteq> Invalid) \<and> (has_value \<or> has_writable) then
         throw (Type_error (ascii ''Cannot both specify accessors and a value or writable attribute'')) h
       else
         ok (prop\<lparr>prop_getter := getter, prop_setter := setter,
                  prop_value := (if has_value then v else prop_value prop),
                  prop_writable := w, prop_enumerable := e, prop_configurable := c\<rparr>) h))))))"

section \<open>Defining a property\<close>

text \<open>6.2.5.6 CompletePropertyDescriptor\<close>

definition complete_descriptor :: "njs_object_prop \<Rightarrow> njs_object_prop" where
  "complete_descriptor prop =
     (let prop =
            (if njs_is_accessor_descriptor prop then
               prop\<lparr>prop_getter := (if \<not> njs_is_valid (prop_getter prop) then Undefined else prop_getter prop),
                    prop_setter := (if \<not> njs_is_valid (prop_setter prop) then Undefined else prop_setter prop)\<rparr>
             else
               prop\<lparr>prop_writable :=
                      (if prop_writable prop = NJS_ATTRIBUTE_UNSET then NJS_ATTRIBUTE_FALSE else prop_writable prop),
                    prop_value := (if \<not> njs_is_valid (prop_value prop) then Undefined else prop_value prop)\<rparr>)
      in prop\<lparr>prop_enumerable :=
                (if prop_enumerable prop = NJS_ATTRIBUTE_UNSET then NJS_ATTRIBUTE_FALSE else prop_enumerable prop),
              prop_configurable :=
                (if prop_configurable prop = NJS_ATTRIBUTE_UNSET then NJS_ATTRIBUTE_FALSE
                 else prop_configurable prop)\<rparr>)"

text \<open>A changed property goes where it was found; one in the query or for an element is lost.\<close>

definition put_place :: "heap \<Rightarrow> prop_place \<Rightarrow> bytes \<Rightarrow> njs_object_prop \<Rightarrow> heap" where
  "put_place h place key prop =
     (case place of
        In_hash a \<Rightarrow> put_prop h a key prop
      | In_shared_hash a \<Rightarrow>
          upd_object h a (\<lambda>obj. obj\<lparr>obj_shared_hash := AList.update key prop (obj_shared_hash obj)\<rparr>)
      | _ \<Rightarrow> h)"

definition set_attributes :: "njs_object_prop \<Rightarrow> njs_object_prop \<Rightarrow> njs_object_prop" where
  "set_attributes prev prop =
     prev\<lparr>prop_writable := (if prop_writable prop \<noteq> NJS_ATTRIBUTE_UNSET then prop_writable prop else prop_writable prev),
          prop_enumerable :=
            (if prop_enumerable prop \<noteq> NJS_ATTRIBUTE_UNSET then prop_enumerable prop else prop_enumerable prev),
          prop_configurable :=
            (if prop_configurable prop \<noteq> NJS_ATTRIBUTE_UNSET then prop_configurable prop else prop_configurable prev)\<rparr>"

definition set_functions :: "njs_object_prop \<Rightarrow> njs_object_prop \<Rightarrow> njs_object_prop" where
  "set_functions prev prop =
     prev\<lparr>prop_getter := (if njs_is_valid (prop_getter prop) then prop_getter prop else prop_getter prev),
          prop_setter := (if njs_is_valid (prop_setter prop) then prop_setter prop else prop_setter prev)\<rparr>"

text \<open>
  The part behind the label \<open>done\<close>: the fields of the descriptor are set. A handler may put a
  new property in the place of this one, and then the attributes go to the old one.
\<close>

definition apply_descriptor ::
  "env \<Rightarrow> heap \<Rightarrow> njs_value \<Rightarrow> bytes \<Rightarrow> prop_place \<Rightarrow> njs_object_prop \<Rightarrow> njs_object_prop \<Rightarrow> njs_value run" where
  "apply_descriptor env h object key place prev prop =
     (let prev = set_functions prev prop
      in if njs_is_valid (prop_value prop) \<and> prop_type prev = NJS_PROPERTY_HANDLER then
           if njs_is_data_descriptor prev \<and> attr (prop_writable prev) then
             run_bind (call_handler env (put_place h place key prev) prev object (Some (prop_value prop)))
               (\<lambda>_ h.
                  ok object
                    (case place of
                       In_hash a \<Rightarrow>
                         if map_of (obj_hash (h ! a)) key = Some prev
                         then put_place h place key (set_attributes prev prop) else h
                     | _ \<Rightarrow> put_place h place key (set_attributes prev prop)))
           else ok object (put_place h place key (set_attributes prev prop))
         else
           ok object
             (put_place h place key
               (set_attributes
                 (if njs_is_valid (prop_value prop) then prev\<lparr>prop_value := prop_value prop\<rparr> else prev) prop)))"

text \<open>
  6.b-c of 9.1.6.3: the conversion between the two kinds of properties.
\<close>

definition convert_property :: "njs_object_prop \<Rightarrow> njs_object_prop" where
  "convert_property prev =
     (if njs_is_data_descriptor prev then
        prev\<lparr>prop_getter := Undefined, prop_setter := Undefined,
             prop_value := njs_set_invalid (prop_value prev), prop_writable := NJS_ATTRIBUTE_UNSET\<rparr>
      else
        prev\<lparr>prop_value := Undefined, prop_writable := NJS_ATTRIBUTE_FALSE,
             prop_getter := njs_set_invalid (prop_getter prev), prop_setter := njs_set_invalid (prop_setter prev)\<rparr>)"

definition redefine_error :: "bytes \<Rightarrow> njs_error" where
  "redefine_error key = Type_error (ascii ''Cannot redefine property: \"'' @ key @ ascii ''\"'')"

text \<open>The exceptions for two data properties and for two accessor properties.\<close>

definition data_conflict :: "njs_object_prop \<Rightarrow> njs_object_prop \<Rightarrow> bool" where
  "data_conflict prev prop \<longleftrightarrow>
     \<not> attr (prop_configurable prev) \<and> \<not> attr (prop_writable prev) \<and>
     (prop_writable prop = NJS_ATTRIBUTE_TRUE \<or>
      njs_is_valid (prop_value prop) \<and> prop_type prev \<noteq> NJS_PROPERTY_HANDLER \<and>
      \<not> njs_values_strict_equal (prop_value prop) (prop_value prev))"

definition accessor_conflict :: "njs_object_prop \<Rightarrow> njs_object_prop \<Rightarrow> bool" where
  "accessor_conflict prev prop \<longleftrightarrow>
     \<not> attr (prop_configurable prev) \<and>
     (njs_is_valid (prop_getter prop) \<and> \<not> njs_values_strict_equal (prop_getter prop) (prop_getter prev) \<or>
      njs_is_valid (prop_setter prop) \<and> \<not> njs_values_strict_equal (prop_setter prop) (prop_setter prev))"

text \<open>
  9.1.6.3 ValidateAndApplyPropertyDescriptor: the checks behind the first two, and the
  update; before it, those two and the copy of a shared property.
\<close>

definition update_property ::
  "env \<Rightarrow> heap \<Rightarrow> njs_value \<Rightarrow> bytes \<Rightarrow> prop_place \<Rightarrow> njs_object_prop \<Rightarrow> njs_object_prop \<Rightarrow> njs_value run" where
  "update_property env h object key place prev prop =
     (if njs_is_generic_descriptor prop then apply_descriptor env h object key place prev prop
      else if njs_is_data_descriptor prev \<noteq> njs_is_data_descriptor prop then
        if \<not> attr (prop_configurable prev) then throw (redefine_error key) h
        else apply_descriptor env h object key place (convert_property prev) prop
      else if njs_is_data_descriptor prev \<and> njs_is_data_descriptor prop then
        if data_conflict prev prop then throw (redefine_error key) h
        else apply_descriptor env h object key place prev prop
      else
        if accessor_conflict prev prop then throw (redefine_error key) h
        else apply_descriptor env h object key place prev prop)"

definition redefine_property ::
  "env \<Rightarrow> heap \<Rightarrow> njs_value \<Rightarrow> njs_property_query_t \<Rightarrow> prop_place \<Rightarrow> njs_object_prop \<Rightarrow> njs_object_prop \<Rightarrow>
    njs_value run" where
  "redefine_property env h object pq place prev prop =
     (if \<not> attr (prop_configurable prev) \<and>
         (prop_configurable prop = NJS_ATTRIBUTE_TRUE \<or>
          prop_enumerable prop \<noteq> NJS_ATTRIBUTE_UNSET \<and> prop_enumerable prev \<noteq> prop_enumerable prop)
      then throw (redefine_error (pq_text pq)) h
      else if \<not> attr (prop_configurable prev) \<and> pq_shared pq then
        run_bind (njs_prop_private_copy env pq prev h) (\<lambda>pq h.
          case pq_value pq of
            None \<Rightarrow> throw Bad_access h
          | Some (place, prev) \<Rightarrow> update_property env h object (pq_text pq) place prev prop)
      else update_property env h object (pq_text pq) place prev prop)"

text \<open>The property the descriptor, the getter or the setter describes.\<close>

definition described_property ::
  "env \<Rightarrow> heap \<Rightarrow> njs_string \<Rightarrow> njs_value \<Rightarrow> njs_object_prop_define_t \<Rightarrow> njs_object_prop run" where
  "described_property env h name v type =
     (let prop = njs_object_prop_alloc name Invalid NJS_ATTRIBUTE_UNSET
      in case type of
           NJS_OBJECT_PROP_DESCRIPTOR \<Rightarrow> njs_descriptor_prop env h prop v
         | NJS_OBJECT_PROP_GETTER \<Rightarrow>
             ok (prop\<lparr>prop_getter := v, prop_setter := Invalid, prop_enumerable := NJS_ATTRIBUTE_TRUE,
                      prop_configurable := NJS_ATTRIBUTE_TRUE\<rparr>) h
         | NJS_OBJECT_PROP_SETTER \<Rightarrow>
             ok (prop\<lparr>prop_setter := v, prop_getter := Invalid, prop_enumerable := NJS_ATTRIBUTE_TRUE,
                      prop_configurable := NJS_ATTRIBUTE_TRUE\<rparr>) h)"

text \<open>
  Reading a descriptor can run getters between the query and the update: the stored property
  is looked at when it is updated, and the reference to an element is of no use when the
  array was moved or resized, which the C code does not detect.
\<close>

definition prop_now :: "heap \<Rightarrow> prop_place \<Rightarrow> bytes \<Rightarrow> njs_object_prop \<Rightarrow> njs_object_prop" where
  "prop_now h place key prop =
     (case place of
        In_hash a \<Rightarrow> (case map_of (obj_hash (h ! a)) key of Some prop \<Rightarrow> prop | None \<Rightarrow> prop)
      | _ \<Rightarrow> prop)"

definition same_memory :: "njs_object \<Rightarrow> njs_object \<Rightarrow> bool" where
  "same_memory a b \<longleftrightarrow>
     obj_size a = obj_size b \<and> obj_free a = obj_free b \<and> length (obj_start a) = length (obj_start b)"

text \<open>
  The part behind the descriptor: \<open>h0\<close> is the heap after the query and \<open>h\<close> the heap now.
\<close>

definition define_described ::
  "env \<Rightarrow> heap \<Rightarrow> heap \<Rightarrow> njs_value \<Rightarrow> bool \<Rightarrow> njs_property_query_t \<Rightarrow> njs_object_prop \<Rightarrow> njs_value run" where
  "define_described env h0 h object found pq prop =
     (if \<not> found then
        case pq_value pq of
          Some (place, prev) \<Rightarrow>
            ok object
              (if prop_type (prop_now h place (pq_text pq) prev) = NJS_WHITEOUT
               then put_place h place (pq_text pq) (complete_descriptor prop) else h)
        | None \<Rightarrow>
            run_bind (insert_prop h (address object) (pq_text pq) (complete_descriptor prop))
              (\<lambda>_ h. ok object h)
      else
        case pq_value pq of
          None \<Rightarrow> throw Bad_access h
        | Some (place, prev) \<Rightarrow>
            (let prev = prop_now h place (pq_text pq) prev in
             case (prop_type prev, place) of
               (NJS_PROPERTY_REF, Cell a i) \<Rightarrow>
                 if \<not> same_memory (h0 ! a) (h ! a) then throw Bad_access h
                 else ok object (upd_object h a (\<lambda>obj. obj\<lparr>obj_start := (obj_start obj)[i :=
                   (if njs_is_valid (prop_value prop) then prop_value prop else Undefined)]\<rparr>))
             | (NJS_PROPERTY_REF, _) \<Rightarrow> throw Bad_access h
             | (NJS_WHITEOUT, _) \<Rightarrow>
                 throw (Internal_error (ascii ''unexpected property type \"'' @
                   njs_prop_type_string NJS_WHITEOUT @ ascii ''\" while defining property'')) h
             | _ \<Rightarrow> redefine_property env h object pq place prev prop))"

text \<open>The result is the object as the query leaves it.\<close>

definition njs_object_prop_define ::
  "env \<Rightarrow> heap \<Rightarrow> njs_value \<Rightarrow> njs_string \<Rightarrow> njs_value \<Rightarrow> njs_object_prop_define_t \<Rightarrow> njs_value run" where
  "njs_object_prop_define env h object name v type =
     run_bind (njs_property_query env (njs_property_query_init NJS_PROPERTY_QUERY_SET True) h object (String name))
       (\<lambda>(found, pq, object) h0.
          run_bind (described_property env h0 name v type)
            (\<lambda>prop h. define_described env h0 h object found pq prop))"

section \<open>Making a descriptor\<close>

definition plain_object :: "env \<Rightarrow> njs_object" where
  "plain_object env =
     \<lparr>obj_hash = [], obj_shared_hash = [], obj_proto = Some (env_prototype env NJS_OBJECT),
      obj_type = NJS_OBJECT, obj_shared = False, obj_extensible = True, obj_start = [], obj_size = 0,
      obj_free = 0, obj_value = Undefined, obj_native = None, obj_ctor = False\<rparr>"

definition njs_object_alloc :: "env \<Rightarrow> heap \<Rightarrow> nat \<times> heap" where
  "njs_object_alloc env h = (length h, h @ [plain_object env])"

text \<open>The fields are inserted one by one into the table of the new object.\<close>

definition insert_field :: "string \<Rightarrow> njs_value \<Rightarrow> nat \<Rightarrow> heap \<Rightarrow> unit run" where
  "insert_field name v desc h =
     insert_prop h desc (ascii name) (njs_object_prop_alloc (text_string name) v NJS_ATTRIBUTE_TRUE)"

definition descriptor_object :: "env \<Rightarrow> heap \<Rightarrow> njs_object_prop \<Rightarrow> njs_value run" where
  "descriptor_object env h prop =
     (case njs_object_alloc env h of
        (desc, h) \<Rightarrow>
          run_bind
            (if njs_is_data_descriptor prop then
               run_bind (insert_field ''value'' (prop_value prop) desc h) (\<lambda>_ h.
               insert_field ''writable'' (Boolean (prop_writable prop = NJS_ATTRIBUTE_TRUE)) desc h)
             else
               run_bind (insert_field ''get'' (prop_getter prop) desc h) (\<lambda>_ h.
               insert_field ''set'' (prop_setter prop) desc h)) (\<lambda>_ h.
          run_bind (insert_field ''enumerable'' (Boolean (prop_enumerable prop = NJS_ATTRIBUTE_TRUE)) desc h) (\<lambda>_ h.
          run_bind (insert_field ''configurable'' (Boolean (prop_configurable prop = NJS_ATTRIBUTE_TRUE)) desc h) (\<lambda>_ h.
          ok (Object NJS_OBJECT desc) h))))"

definition njs_object_prop_descriptor :: "env \<Rightarrow> heap \<Rightarrow> njs_value \<Rightarrow> njs_value \<Rightarrow> njs_value run" where
  "njs_object_prop_descriptor env h v key =
     run_bind (njs_property_query env (njs_property_query_init NJS_PROPERTY_QUERY_GET True) h v key)
       (\<lambda>(found, pq, v) h.
          case (found, pq_value pq) of
            (True, Some (place, prop)) \<Rightarrow>
              (case prop_type prop of
                 NJS_PROPERTY \<Rightarrow> descriptor_object env h prop
               | NJS_PROPERTY_HANDLER \<Rightarrow>
                   run_bind (call_handler env h prop v None)
                     (\<lambda>(_, retval) h. descriptor_object env h (prop\<lparr>prop_value := retval\<rparr>))
               | type \<Rightarrow>
                   throw (Type_error (ascii ''unexpected property type: '' @ njs_prop_type_string type)) h)
          | _ \<Rightarrow> ok Undefined h)"

end
