(* ===== verification/Njs_Object_Builtin.thy ===== *)
theory Njs_Object_Builtin
  imports Njs_Object_Define
begin

text \<open>
  The functions of \<open>Object\<close> and of its prototype that work on the properties and the
  prototype of an object, \<open>src/src/njs_object.c\<close>. The arguments come with \<open>this\<close> first.
\<close>

definition njs_arg :: "njs_value list \<Rightarrow> nat \<Rightarrow> njs_value" where
  "njs_arg args n = (if n < length args then args ! n else Undefined)"

definition cannot_convert :: "njs_value \<Rightarrow> njs_error" where
  "cannot_convert v = Type_error (ascii ''cannot convert '' @ njs_type_string v @ ascii '' argument to object'')"

section \<open>Objects of values\<close>

text \<open>The object types of Booleans, numbers and strings have the order of the primitive types.\<close>

fun njs_object_value_type :: "njs_value \<Rightarrow> object_type" where
  "njs_object_value_type (Boolean b) = NJS_OBJECT_BOOLEAN"
| "njs_object_value_type (Number_value n) = NJS_OBJECT_NUMBER"
| "njs_object_value_type (String s) = NJS_OBJECT_STRING"
| "njs_object_value_type v = NJS_OBJECT"

definition njs_object_value_alloc :: "env \<Rightarrow> heap \<Rightarrow> njs_value \<Rightarrow> nat \<times> heap" where
  "njs_object_value_alloc env h v =
     (length h,
      h @ [(plain_object env)
        \<lparr>obj_shared_hash := (case v of String s \<Rightarrow> env_string_instance_hash env | _ \<Rightarrow> []),
         obj_type := njs_object_value_type v,
         obj_proto := Some (env_prototype env (njs_object_value_type v)),
         obj_value := v\<rparr>])"

definition njs_object_constructor :: "env \<Rightarrow> heap \<Rightarrow> njs_value list \<Rightarrow> njs_value run" where
  "njs_object_constructor env h args =
     (let v = njs_arg args 1
      in if njs_is_null_or_undefined v then
           case njs_object_alloc env h of (a, h) \<Rightarrow> ok (Object NJS_OBJECT a) h
         else if njs_is_object v then ok v h
         else if njs_is_primitive v then
           case njs_object_value_alloc env h v of (a, h) \<Rightarrow> ok (Object (njs_object_value_type v) a) h
         else throw (Type_error (ascii ''unexpected constructor argument:'' @ njs_type_string v)) h)"

definition njs_value_to_object :: "env \<Rightarrow> heap \<Rightarrow> njs_value \<Rightarrow> njs_value run" where
  "njs_value_to_object env h v =
     (if njs_is_null_or_undefined v then
        throw (Type_error (ascii ''cannot convert null or undefined to object'')) h
      else if njs_is_object v then ok v h
      else if njs_is_primitive v then
        case njs_object_value_alloc env h v of (a, h) \<Rightarrow> ok (Object (njs_object_value_type v) a) h
      else throw (Type_error (ascii ''cannot convert '' @ njs_type_string v @ ascii '' to object'')) h)"

definition njs_object_create :: "env \<Rightarrow> heap \<Rightarrow> njs_value list \<Rightarrow> njs_value run" where
  "njs_object_create env h args =
     (let v = njs_arg args 1
      in if njs_is_object v \<or> v = Null_value then
           case njs_object_alloc env h of
             (a, h) \<Rightarrow> ok (Object NJS_OBJECT a) (upd_object h a (\<lambda>obj. obj\<lparr>obj_proto := value_address v\<rparr>))
         else throw (Type_error (ascii ''prototype may only be an object or null: '' @ njs_type_string v)) h)"

section \<open>Properties\<close>

definition njs_object_define_property :: "env \<Rightarrow> heap \<Rightarrow> njs_value list \<Rightarrow> njs_value run" where
  "njs_object_define_property env h args =
     (let v = njs_arg args 1; desc = njs_arg args 3
      in if \<not> njs_is_object v then throw (cannot_convert v) h
         else if \<not> obj_extensible (h ! address v) then
           throw (Type_error (ascii ''object is not extensible'')) h
         else if \<not> njs_is_object desc then throw (Type_error (ascii ''descriptor is not an object'')) h
         else
           run_bind
             (case njs_arg args 2 of String s \<Rightarrow> ok s h | name \<Rightarrow> njs_value_to_string env h name)
             (\<lambda>name h. njs_object_prop_define env h v name desc NJS_OBJECT_PROP_DESCRIPTOR))"

text \<open>
  The iteration follows the table of the descriptors while it is being used: the entries are
  those at its start, unless an entry is inserted meanwhile.
\<close>

fun define_each :: "env \<Rightarrow> heap \<Rightarrow> njs_value \<Rightarrow> njs_object_prop list \<Rightarrow> njs_value run" where
  "define_each env h v [] = ok v h"
| "define_each env h v (prop # props) =
     (if attr (prop_enumerable prop) \<and> njs_is_object (prop_value prop) then
        run_bind (njs_object_prop_define env h v (prop_name prop) (prop_value prop) NJS_OBJECT_PROP_DESCRIPTOR)
          (\<lambda>v h. define_each env h v props)
      else define_each env h v props)"

definition njs_object_define_properties :: "env \<Rightarrow> heap \<Rightarrow> njs_value list \<Rightarrow> njs_value run" where
  "njs_object_define_properties env h args =
     (let v = njs_arg args 1; desc = njs_arg args 2
      in if \<not> njs_is_object v then throw (cannot_convert v) h
         else if \<not> obj_extensible (h ! address v) then
           throw (Type_error (ascii ''object is not extensible'')) h
         else if \<not> njs_is_object desc then throw (Type_error (ascii ''descriptor is not an object'')) h
         else define_each env h v (map snd (obj_hash (h ! address desc))))"

definition njs_object_get_own_property_descriptor :: "env \<Rightarrow> heap \<Rightarrow> njs_value list \<Rightarrow> njs_value run" where
  "njs_object_get_own_property_descriptor env h args =
     (let v = njs_arg args 1
      in if njs_is_null_or_undefined v then throw (cannot_convert v) h
         else njs_object_prop_descriptor env h v (njs_arg args 2))"

definition njs_object_prototype_has_own_property :: "env \<Rightarrow> heap \<Rightarrow> njs_value list \<Rightarrow> bool run" where
  "njs_object_prototype_has_own_property env h args =
     (let v = njs_arg args 0
      in if njs_is_null_or_undefined v then throw (cannot_convert v) h
         else
           run_bind (njs_property_query env (njs_property_query_init NJS_PROPERTY_QUERY_GET True) h v (njs_arg args 1))
             (\<lambda>(found, _) h. ok found h))"

definition njs_object_prototype_prop_is_enumerable :: "env \<Rightarrow> heap \<Rightarrow> njs_value list \<Rightarrow> bool run" where
  "njs_object_prototype_prop_is_enumerable env h args =
     (let v = njs_arg args 0
      in if njs_is_null_or_undefined v then throw (cannot_convert v) h
         else
           run_bind (njs_property_query env (njs_property_query_init NJS_PROPERTY_QUERY_GET True) h v (njs_arg args 1))
             (\<lambda>(found, pq, _) h.
                case (found, pq_value pq) of
                  (True, Some (place, prop)) \<Rightarrow> ok (attr (prop_enumerable prop)) h
                | _ \<Rightarrow> ok False h))"

section \<open>Integrity levels\<close>

text \<open>The loops over the table: each of its properties is changed, or asked.\<close>

definition map_props :: "(njs_object_prop \<Rightarrow> njs_object_prop) \<Rightarrow> heap \<Rightarrow> nat \<Rightarrow> heap" where
  "map_props f h a = upd_object h a (\<lambda>obj. obj\<lparr>obj_hash := map (\<lambda>(k, p). (k, f p)) (obj_hash obj)\<rparr>)"

definition freeze_prop :: "njs_object_prop \<Rightarrow> njs_object_prop" where
  "freeze_prop prop =
     (let prop = (if \<not> njs_is_accessor_descriptor prop then prop\<lparr>prop_writable := NJS_ATTRIBUTE_FALSE\<rparr> else prop)
      in prop\<lparr>prop_configurable := NJS_ATTRIBUTE_FALSE\<rparr>)"

definition prevent_extensions :: "heap \<Rightarrow> nat \<Rightarrow> heap" where
  "prevent_extensions h a = upd_object h a (\<lambda>obj. obj\<lparr>obj_extensible := False\<rparr>)"

definition njs_object_freeze :: "heap \<Rightarrow> njs_value list \<Rightarrow> njs_value run" where
  "njs_object_freeze h args =
     (let v = njs_arg args 1
      in if \<not> njs_is_object v then ok Undefined h
         else ok v (map_props freeze_prop (prevent_extensions h (address v)) (address v)))"

definition njs_object_is_frozen :: "heap \<Rightarrow> njs_value list \<Rightarrow> bool run" where
  "njs_object_is_frozen h args =
     (let v = njs_arg args 1; obj = h ! address v
      in if \<not> njs_is_object v then ok True h
         else if obj_extensible obj then ok False h
         else
           ok (list_all
                (\<lambda>(k, prop). \<not> attr (prop_configurable prop) \<and>
                   \<not> (njs_is_data_descriptor prop \<and> attr (prop_writable prop)))
                (obj_hash obj)) h)"

definition njs_object_seal :: "heap \<Rightarrow> njs_value list \<Rightarrow> njs_value run" where
  "njs_object_seal h args =
     (let v = njs_arg args 1
      in if \<not> njs_is_object v then ok v h
         else ok v (map_props (\<lambda>prop. prop\<lparr>prop_configurable := NJS_ATTRIBUTE_FALSE\<rparr>)
                     (prevent_extensions h (address v)) (address v)))"

definition njs_object_is_sealed :: "heap \<Rightarrow> njs_value list \<Rightarrow> bool run" where
  "njs_object_is_sealed h args =
     (let v = njs_arg args 1; obj = h ! address v
      in if \<not> njs_is_object v then ok True h
         else if obj_extensible obj then ok False h
         else ok (list_all (\<lambda>(k, prop). \<not> attr (prop_configurable prop)) (obj_hash obj)) h)"

definition njs_object_prevent_extensions :: "heap \<Rightarrow> njs_value list \<Rightarrow> njs_value run" where
  "njs_object_prevent_extensions h args =
     (let v = njs_arg args 1
      in if \<not> njs_is_object v then ok v h else ok v (prevent_extensions h (address v)))"

definition njs_object_is_extensible :: "heap \<Rightarrow> njs_value list \<Rightarrow> bool run" where
  "njs_object_is_extensible h args =
     (let v = njs_arg args 1
      in if \<not> njs_is_object v then ok False h else ok (obj_extensible (h ! address v)) h)"

section \<open>Prototypes\<close>

text \<open>The search for an object among another and its prototypes.\<close>

partial_function (option) among_prototypes :: "heap \<Rightarrow> nat \<Rightarrow> nat option \<Rightarrow> bool option" where
  [code]: "among_prototypes h object proto =
     (case proto of
        None \<Rightarrow> Some False
      | Some a \<Rightarrow> if a = object then Some True else among_prototypes h object (obj_proto (h ! a)))"

datatype set_proto = Set_ok | Set_declined | Set_cyclic

definition njs_object_set_prototype_of :: "heap \<Rightarrow> nat \<Rightarrow> njs_value \<Rightarrow> (set_proto \<times> heap) option" where
  "njs_object_set_prototype_of h object v =
     (let proto = value_address v
      in if obj_proto (h ! object) = proto then Some (Set_ok, h)
         else if \<not> obj_extensible (h ! object) then Some (Set_declined, h)
         else
           case among_prototypes h object proto of
             None \<Rightarrow> None
           | Some True \<Rightarrow> Some (Set_cyclic, h)
           | Some False \<Rightarrow> Some (Set_ok, upd_object h object (\<lambda>obj. obj\<lparr>obj_proto := proto\<rparr>)))"

text \<open>The handler of \<open>__proto__\<close>; without a value to set it returns the prototype.\<close>

definition njs_object_prototype_proto :: "heap \<Rightarrow> njs_value \<Rightarrow> njs_value option \<Rightarrow> njs_value run" where
  "njs_object_prototype_proto h v setval =
     (if \<not> njs_is_object v then ok v h
      else
        case setval of
          Some s \<Rightarrow>
            if njs_is_object s \<or> s = Null_value then
              case njs_object_set_prototype_of h (address v) s of
                None \<Rightarrow> None
              | Some (Set_cyclic, h) \<Rightarrow> throw (Type_error (ascii ''Cyclic __proto__ value'')) h
              | Some (_, h) \<Rightarrow> ok Undefined h
            else ok Undefined h
        | None \<Rightarrow>
            (case obj_proto (h ! address v) of
               Some proto \<Rightarrow> ok (Object (obj_type (h ! proto)) proto) h
             | None \<Rightarrow> ok Null_value h))"

definition njs_object_get_prototype_of :: "heap \<Rightarrow> njs_value list \<Rightarrow> njs_value run" where
  "njs_object_get_prototype_of h args =
     (let v = njs_arg args 1
      in if njs_is_object v then njs_object_prototype_proto h v None else throw (cannot_convert v) h)"

definition njs_object_prototype_is_prototype_of :: "heap \<Rightarrow> njs_value list \<Rightarrow> bool run" where
  "njs_object_prototype_is_prototype_of h args =
     (let prototype = njs_arg args 0; v = njs_arg args 1
      in if njs_is_null_or_undefined prototype then
           throw (Type_error (ascii ''cannot convert undefined to object'')) h
         else if njs_is_object prototype \<and> njs_is_object v then
           case among_prototypes h (address prototype) (obj_proto (h ! address v)) of
             None \<Rightarrow> None
           | Some found \<Rightarrow> ok found h
         else ok False h)"

end
