(* ===== verification/Njs_Object_Proto.thy ===== *)
theory Njs_Object_Proto
  imports Njs_Object_Builtin
begin

text \<open>
  Chains of prototypes: where they end, the searches that follow them, and the objects that
  operations add to the heap.
\<close>

section \<open>Chains that end\<close>

inductive rooted :: "heap \<Rightarrow> nat \<Rightarrow> bool" for h where
  root: "a < length h \<Longrightarrow> obj_proto (h ! a) = None \<Longrightarrow> rooted h a"
| step: "a < length h \<Longrightarrow> obj_proto (h ! a) = Some p \<Longrightarrow> rooted h p \<Longrightarrow> rooted h a"

code_pred rooted .

text \<open>The objects on the chain that starts at an object.\<close>

inductive on_chain :: "heap \<Rightarrow> nat \<Rightarrow> nat \<Rightarrow> bool" for h where
  here: "on_chain h a a"
| there: "obj_proto (h ! a) = Some p \<Longrightarrow> on_chain h p b \<Longrightarrow> on_chain h a b"

inductive_simps on_chain_step: "on_chain h a b"

definition heap_rooted :: "heap \<Rightarrow> bool" where
  "heap_rooted h \<longleftrightarrow> list_all (rooted h) [0..<length h]"

lemma heap_rooted_iff: "heap_rooted h \<longleftrightarrow> (\<forall>a<length h. rooted h a)"
  by (auto simp: heap_rooted_def list_all_iff)

lemma rooted_length: "rooted h a \<Longrightarrow> a < length h"
  by (induction rule: rooted.induct)

lemma rooted_proto: "rooted h a \<Longrightarrow> obj_proto (h ! a) = Some p \<Longrightarrow> rooted h p"
  by (erule rooted.cases) auto

lemma among_prototypes_rooted:
  "rooted h a \<Longrightarrow> among_prototypes h object (Some a) = Some (on_chain h a object)"
proof (induction rule: rooted.induct)
  case (root a)
  then show ?case
    by (subst among_prototypes.simps) (auto simp: among_prototypes.simps [of _ _ None] on_chain_step [of h a])
next
  case (step a p)
  then show ?case
    by (subst among_prototypes.simps) (auto simp: on_chain_step [of h a])
qed

lemma find_in_chain_rooted: "rooted h a \<Longrightarrow> \<exists>r. find_in_chain h key a = Some r"
proof (induction rule: rooted.induct)
  case (root a)
  then show ?case by (subst find_in_chain.simps) (auto split: option.split)
next
  case (step a p)
  then show ?case by (subst find_in_chain.simps) (auto split: option.split)
qed

section \<open>Changes of the heap\<close>

text \<open>Objects are only added, and the prototype of a new one is an older one.\<close>

definition heap_grows :: "heap \<Rightarrow> heap \<Rightarrow> bool" where
  "heap_grows h h' \<longleftrightarrow>
     length h \<le> length h' \<and> (\<forall>a<length h. obj_proto (h' ! a) = obj_proto (h ! a)) \<and>
     (\<forall>a p. length h \<le> a \<longrightarrow> a < length h' \<longrightarrow> obj_proto (h' ! a) = Some p \<longrightarrow> p < a)"

lemma rooted_grows:
  "rooted h a \<Longrightarrow> heap_grows h h' \<Longrightarrow> rooted h' a"
  by (induction rule: rooted.induct) (auto simp: heap_grows_def intro: rooted.intros)

lemma heap_rooted_grows:
  assumes "heap_rooted h" "heap_grows h h'"
  shows "heap_rooted h'"
proof -
  have "a < length h' \<Longrightarrow> rooted h' a" for a
  proof (induction a rule: less_induct)
    case (less a)
    show ?case
    proof (cases "a < length h")
      case True
      with assms(1) have "rooted h a" by (simp add: heap_rooted_iff)
      then show ?thesis using assms(2) by (rule rooted_grows)
    next
      case False
      then show ?thesis
        using less assms(2) by (cases "obj_proto (h' ! a)") (auto simp: heap_grows_def intro: rooted.intros)
    qed
  qed
  then show ?thesis by (simp add: heap_rooted_iff)
qed

lemma length_upd_object [simp]: "length (upd_object h a f) = length h"
  by (simp add: upd_object_def)

lemma length_put_prop [simp]: "length (put_prop h a k p) = length h"
  by (simp add: put_prop_def)

lemma nth_upd_object:
  "b < length h \<Longrightarrow> upd_object h a f ! b = (if a = b then f (h ! b) else h ! b)"
  by (simp add: upd_object_def nth_list_update)

lemma heap_grows_upd: "(\<And>obj. obj_proto (f obj) = obj_proto obj) \<Longrightarrow> heap_grows h (upd_object h a f)"
  by (simp add: heap_grows_def nth_upd_object)

lemma heap_grows_append:
  "(\<And>p. obj_proto obj = Some p \<Longrightarrow> p < length h) \<Longrightarrow> heap_grows h (h @ [obj])"
  by (auto simp: heap_grows_def nth_append)

section \<open>Changing the prototype\<close>

lemma on_chain_trans: "on_chain h a b \<Longrightarrow> on_chain h b c \<Longrightarrow> on_chain h a c"
  by (induction rule: on_chain.induct) (auto intro: on_chain.intros)

lemma rooted_off_chain:
  "rooted h a \<Longrightarrow> \<not> on_chain h a object \<Longrightarrow>
    rooted (upd_object h object (\<lambda>obj. obj\<lparr>obj_proto := q\<rparr>)) a"
proof (induction rule: rooted.induct)
  case (root a)
  have "a \<noteq> object" using root(3) by (metis on_chain.here)
  then have "obj_proto (upd_object h object (\<lambda>obj. obj\<lparr>obj_proto := q\<rparr>) ! a) = None"
    using root by (simp add: nth_upd_object)
  then show ?case using root(1) by (simp add: rooted.root)
next
  case (step a p)
  have "a \<noteq> object" using step(5) by (metis on_chain.here)
  then have "obj_proto (upd_object h object (\<lambda>obj. obj\<lparr>obj_proto := q\<rparr>) ! a) = Some p"
    using step(1,2) by (simp add: nth_upd_object)
  moreover have "\<not> on_chain h p object" using step(2,5) on_chain.there [of h a p object] by metis
  ultimately show ?case using step by (simp add: rooted.step [where p = p])
qed

lemma rooted_through:
  "rooted h a \<Longrightarrow> rooted (upd_object h object (\<lambda>obj. obj\<lparr>obj_proto := q\<rparr>)) object \<Longrightarrow>
    rooted (upd_object h object (\<lambda>obj. obj\<lparr>obj_proto := q\<rparr>)) a"
proof (induction rule: rooted.induct)
  case (root a)
  then show ?case by (cases "a = object") (simp_all add: nth_upd_object rooted.root)
next
  case (step a p)
  then show ?case
    by (cases "a = object") (simp_all add: nth_upd_object rooted.step [where p = p])
qed

lemma heap_rooted_set_proto:
  assumes "heap_rooted h" and q: "\<And>p. q = Some p \<Longrightarrow> p < length h \<and> \<not> on_chain h p object"
  shows "heap_rooted (upd_object h object (\<lambda>obj. obj\<lparr>obj_proto := q\<rparr>))"
proof (cases "object < length h")
  case True
  have "rooted (upd_object h object (\<lambda>obj. obj\<lparr>obj_proto := q\<rparr>)) object"
  proof (cases q)
    case None
    with True show ?thesis by (auto intro!: rooted.root simp: nth_upd_object)
  next
    case (Some p)
    with q assms(1) have "rooted h p" "\<not> on_chain h p object" by (auto simp: heap_rooted_iff)
    then have "rooted (upd_object h object (\<lambda>obj. obj\<lparr>obj_proto := q\<rparr>)) p" by (rule rooted_off_chain)
    with True Some show ?thesis
      by - (rule rooted.step [where p = p], simp_all add: nth_upd_object)
  qed
  with assms(1) show ?thesis by (auto simp: heap_rooted_iff intro: rooted_through)
next
  case False
  with assms(1) show ?thesis by (simp add: upd_object_def list_update_beyond)
qed

definition value_in :: "heap \<Rightarrow> njs_value \<Rightarrow> bool" where
  "value_in h v \<longleftrightarrow> (case value_address v of Some a \<Rightarrow> a < length h | None \<Rightarrow> True)"

lemma set_prototype_cases:
  assumes "heap_rooted h" "value_in h v"
  obtains (same) "njs_object_set_prototype_of h object v = Some (Set_ok, h)"
      "obj_proto (h ! object) = value_address v"
    | (fixed) "njs_object_set_prototype_of h object v = Some (Set_declined, h)"
      "obj_proto (h ! object) \<noteq> value_address v" "\<not> obj_extensible (h ! object)"
    | (cyclic) p where "njs_object_set_prototype_of h object v = Some (Set_cyclic, h)"
      "value_address v = Some p" "on_chain h p object"
      "obj_proto (h ! object) \<noteq> value_address v" "obj_extensible (h ! object)"
    | (set) "njs_object_set_prototype_of h object v =
          Some (Set_ok, upd_object h object (\<lambda>obj. obj\<lparr>obj_proto := value_address v\<rparr>))"
      "\<And>p. value_address v = Some p \<Longrightarrow> p < length h \<and> \<not> on_chain h p object"
      "obj_proto (h ! object) \<noteq> value_address v" "obj_extensible (h ! object)"
proof (cases "obj_proto (h ! object) = value_address v \<or> \<not> obj_extensible (h ! object)")
  case True
  with same fixed show ?thesis by (auto simp: njs_object_set_prototype_of_def Let_def)
next
  case False
  show ?thesis
  proof (cases "value_address v")
    case None
    with False show ?thesis
      by (intro set) (auto simp: njs_object_set_prototype_of_def among_prototypes.simps)
  next
    case (Some p)
    with assms have "rooted h p" "p < length h"
      by (auto simp: value_in_def heap_rooted_iff)
    with among_prototypes_rooted False Some cyclic set show ?thesis
      by (cases "on_chain h p object") (auto simp: njs_object_set_prototype_of_def Let_def)
  qed
qed

end
