(* ===== verification/Njs_Object_Steps.thy ===== *)
theory Njs_Object_Steps
  imports Njs_Object_Proto
begin

text \<open>
  What all operations on objects have in common: they change the heap by a few kinds of
  steps. The locale below states the contract of a relation between heaps that allows these
  steps; every operation then relates the heap before it to the heap after it.
\<close>

section \<open>Properties that stay\<close>

text \<open>
  A constant property can not be configured and not be written. Its value stays the same up
  to the stored length of a string, which the strict comparison ignores when it is zero.
\<close>

definition constant_prop :: "njs_object_prop \<Rightarrow> bool" where
  "constant_prop p \<longleftrightarrow>
     prop_type p = NJS_PROPERTY \<and> prop_writable p = NJS_ATTRIBUTE_FALSE \<and> prop_configurable p = NJS_ATTRIBUTE_FALSE"

fun plain_value :: "njs_value \<Rightarrow> njs_value" where
  "plain_value (String s) = String \<lparr>str_start = str_start s, str_length = 0, str_map = []\<rparr>"
| "plain_value v = v"

definition allowed :: "njs_object_prop \<Rightarrow> njs_object_prop \<Rightarrow> bool" where
  "allowed p p' \<longleftrightarrow>
     (constant_prop p \<longrightarrow> constant_prop p' \<and> plain_value (prop_value p') = plain_value (prop_value p))"

lemma strict_equal_plain: "njs_values_strict_equal u v \<Longrightarrow> plain_value u = plain_value v"
  by (induction u v rule: njs_values_strict_equal.induct) (auto simp: njs_string_eq_def split: if_splits)

lemma allowed_simps [simp]:
  "prop_type p \<noteq> NJS_PROPERTY \<Longrightarrow> allowed p p'"
  "prop_writable p \<noteq> NJS_ATTRIBUTE_FALSE \<Longrightarrow> allowed p p'"
  "prop_configurable p \<noteq> NJS_ATTRIBUTE_FALSE \<Longrightarrow> allowed p p'"
  "allowed p p"
  by (auto simp: allowed_def constant_prop_def)

lemma allowed_trans: "allowed p q \<Longrightarrow> allowed q r \<Longrightarrow> allowed p r"
  by (auto simp: allowed_def)

lemma allowed_freeze: "allowed p (freeze_prop p)"
  by (auto simp: allowed_def constant_prop_def freeze_prop_def Let_def)

lemma allowed_seal: "allowed p (p\<lparr>prop_configurable := NJS_ATTRIBUTE_FALSE\<rparr>)"
  by (auto simp: allowed_def constant_prop_def)

lemma set_functions_simps [simp]:
  "prop_type (set_functions p q) = prop_type p" "prop_value (set_functions p q) = prop_value p"
  "prop_writable (set_functions p q) = prop_writable p"
  "prop_enumerable (set_functions p q) = prop_enumerable p"
  "prop_configurable (set_functions p q) = prop_configurable p"
  "njs_is_data_descriptor (set_functions p q) = njs_is_data_descriptor p"
  by (simp_all add: set_functions_def njs_is_data_descriptor_def)

lemma set_attributes_simps [simp]:
  "prop_type (set_attributes p q) = prop_type p" "prop_value (set_attributes p q) = prop_value p"
  by (simp_all add: set_attributes_def)

section \<open>Tables\<close>

lemma put_prop_same:
  "a < length h \<Longrightarrow> map_of (obj_hash (put_prop h a k p ! a)) k = Some p"
  by (simp add: put_prop_def nth_upd_object update_conv)

lemma put_prop_other:
  "(b, k') \<noteq> (a, k) \<Longrightarrow> map_of (obj_hash (put_prop h a k p ! b)) k' = map_of (obj_hash (h ! b)) k'"
  by (cases "a < length h"; cases "b = a")
    (auto simp: put_prop_def upd_object_def nth_list_update update_conv list_update_beyond)

lemma put_prop_put: "a < length h \<Longrightarrow> put_prop (put_prop h a k p @ fs) a k q = put_prop (h @ fs) a k q"
  by (simp add: put_prop_def upd_object_def list_update_append nth_append update_last)

text \<open>An insertion keeps the entries there are.\<close>

lemma insert_prop_keeps:
  assumes "insert_prop h a k p = Some (r, h')" "map_of (obj_hash (h ! b)) k' = Some q"
  shows "map_of (obj_hash (h' ! b)) k' = Some q"
  using assms put_prop_other [of b k' a k h p]
  by (cases "b = a \<and> k' = k") (auto simp: insert_prop_def split: option.splits)

lemma value_copy_append:
  obtains v' fs where "njs_function_value_copy env h v = (v', h @ fs)"
    "\<And>f. f \<in> set fs \<Longrightarrow> obj_proto f = Some (env_prototype env NJS_FUNCTION)"
proof (cases v)
  case (Object t a)
  then show ?thesis
    by (cases "obj_shared (h ! a)")
      (auto simp: njs_function_value_copy_def njs_function_copy_def Let_def
        intro: that [of v "[]"] that [of _ "[_]"])
qed (auto simp: njs_function_value_copy_def intro: that [of _ "[]"])

section \<open>The contract\<close>

definition env_in :: "env \<Rightarrow> heap \<Rightarrow> bool" where
  "env_in env h \<longleftrightarrow> (\<forall>t. env_prototype env t < length h) \<and> env_string_object env < length h"

locale heap_steps =
  fixes R :: "heap \<Rightarrow> heap \<Rightarrow> bool"
  assumes R_refl [simp, intro]: "R h h"
    and R_trans: "R h h' \<Longrightarrow> R h' h'' \<Longrightarrow> R h h''"
    and R_length: "R h h' \<Longrightarrow> length h \<le> length h'"
    and R_rooted: "heap_rooted h \<Longrightarrow> R h h' \<Longrightarrow> heap_rooted h'"
    and R_put: "(\<And>p. map_of (obj_hash (h ! a)) k = Some p \<Longrightarrow> allowed p p') \<Longrightarrow> R h (put_prop h a k p')"
    and R_map: "(\<And>p. allowed p (change p)) \<Longrightarrow> R h (map_props change h a)"
    and R_upd: "(\<And>obj. obj_hash (upd obj) = obj_hash obj) \<Longrightarrow> (\<And>obj. obj_proto (upd obj) = obj_proto obj) \<Longrightarrow>
      R h (upd_object h a upd)"
    and R_new: "(\<And>p. obj_proto obj = Some p \<Longrightarrow> p < length h) \<Longrightarrow> R h (h @ [obj])"
    and R_proto: "(\<And>p. q = Some p \<Longrightarrow> p < length h \<and> \<not> on_chain h p a) \<Longrightarrow>
      R h (upd_object h a (\<lambda>obj. obj\<lparr>obj_proto := q\<rparr>))"

text \<open>The functions and the handlers that are called keep to the same steps.\<close>

locale heap_calls = heap_steps +
  fixes env :: env
  assumes R_call: "env_call env h function this args = Some (r, h') \<Longrightarrow> R h h'"
    and R_handler: "env_handler env n h prop v s = Some (result, h') \<Longrightarrow> R h h'"
    and handler_declines: "env_handler env n h prop v s = Some (Inr (False, x), h') \<Longrightarrow> h' = h"
begin

definition runs :: "heap \<Rightarrow> 'a run \<Rightarrow> bool" where
  "runs h m \<longleftrightarrow> (\<forall>r h'. m = Some (r, h') \<longrightarrow> R h h')"

lemma env_in_R: "env_in env h \<Longrightarrow> R h h' \<Longrightarrow> env_in env h'"
  unfolding env_in_def by (meson R_length less_le_trans)

lemma runs_simps [simp]: "runs h None" "runs h (Some (r, h')) \<longleftrightarrow> R h h'"
  by (auto simp: runs_def)

lemma runs_later: "R h h' \<Longrightarrow> runs h' m \<Longrightarrow> runs h m"
  by (auto simp: runs_def intro: R_trans)

lemma runs_bind:
  assumes "runs h m" "\<And>x h'. m = Some (Inr x, h') \<Longrightarrow> R h h' \<Longrightarrow> runs h' (f x h')"
  shows "runs h (run_bind m f)"
proof (cases "(m, f)" rule: run_bind.cases)
  case (3 x h' f)
  with assms have "R h h'" "runs h' (f x h')" by auto
  then have "runs h (f x h')" by (rule runs_later)
  with 3 show ?thesis by simp
qed (use assms(1) in auto)

lemma runs_insert: "runs h (insert_prop h a k p)"
  by (auto simp: insert_prop_def intro!: R_put split: option.split)

lemma runs_call: "runs h (call_function env h f this args)"
  by (auto simp: call_function_def runs_def R_call split: njs_value.splits)

lemma runs_handler: "runs h (call_handler env h prop v s)"
  by (auto simp: call_handler_def runs_def R_handler split: njs_value.splits)

lemma runs_property: "runs h (njs_object_property env h v key)"
  by (auto simp: njs_object_property_def split: option.split intro!: runs_bind runs_call)

lemma runs_to_primitive_loop: "runs h (to_primitive_loop env h v hint tries)"
proof (induction tries arbitrary: h hint)
  case (Suc left)
  show ?case
    unfolding to_primitive_loop.simps(2) Let_def
    by (simp add: Suc runs_bind runs_property runs_call split: prod.split)
qed simp

lemma runs_to_string: "runs h (njs_value_to_string env h v)"
  by (auto simp: njs_value_to_string_def njs_value_to_primitive_def runs_to_primitive_loop
      split: option.split intro!: runs_bind)

lemma R_value_copy: "env_in env h \<Longrightarrow> R h (snd (njs_function_value_copy env h v))"
  by (auto simp: njs_function_value_copy_def njs_function_copy_def env_in_def Let_def
      split: njs_value.splits intro!: R_new)

end

end
