(* ===== verification/Njs_Object_Query.thy ===== *)
theory Njs_Object_Query
  imports Njs_Object_Steps
begin

text \<open>
  The query for a property: it ends, it changes the heap by allowed steps, and the property
  it returns is the one at the place it names.
\<close>

abbreviation entry :: "heap \<Rightarrow> nat \<Rightarrow> bytes \<Rightarrow> njs_object_prop option" where
  "entry h a k \<equiv> map_of (obj_hash (h ! a)) k"

definition sane :: "env \<Rightarrow> heap \<Rightarrow> bool" where
  "sane env h \<longleftrightarrow> env_in env h \<and> heap_rooted h"

section \<open>The private copy\<close>

definition copied_functions :: "env \<Rightarrow> njs_object list \<Rightarrow> bool" where
  "copied_functions env fs \<longleftrightarrow> (\<forall>f\<in>set fs. obj_proto f = Some (env_prototype env NJS_FUNCTION))"

lemma copied_functions_simps [simp]:
  "copied_functions env []"
  "copied_functions env (fs @ gs) \<longleftrightarrow> copied_functions env fs \<and> copied_functions env gs"
  by (auto simp: copied_functions_def)

lemma value_copy_functions:
  obtains v' fs where "njs_function_value_copy env h v = (v', h @ fs)" "copied_functions env fs"
  using value_copy_append [of env h v] by (metis copied_functions_def)

text \<open>The copy has the attributes and the type of the shared property.\<close>

definition same_attributes :: "njs_object_prop \<Rightarrow> njs_object_prop \<Rightarrow> bool" where
  "same_attributes p q \<longleftrightarrow>
     prop_type p = prop_type q \<and> prop_writable p = prop_writable q \<and> prop_enumerable p = prop_enumerable q \<and>
     prop_configurable p = prop_configurable q \<and> prop_name p = prop_name q"

lemma same_attributes_simps [simp]:
  "same_attributes p p" "same_attributes (p\<lparr>prop_value := v\<rparr>) p"
  "same_attributes (p\<lparr>prop_getter := g\<rparr>) p" "same_attributes (p\<lparr>prop_setter := s\<rparr>) p"
  "same_attributes (p\<lparr>prop_getter := g, prop_setter := s\<rparr>) p"
  by (simp_all add: same_attributes_def)

lemma length_append_less: "a < length h \<Longrightarrow> a < length (h @ fs)"
  by simp

lemma private_copy_cases:
  assumes a: "pq_prototype pq = a" "a < length h" and k: "pq_text pq = k" and none: "entry h a k = None"
  obtains fs q where "copied_functions env fs" "same_attributes q sp"
      "njs_prop_private_copy env pq sp h = ok (pq\<lparr>pq_value := Some (In_hash a, q)\<rparr>) (put_prop (h @ fs) a k q)"
    | fs q b where "copied_functions env fs" "same_attributes q sp"
      "njs_prop_private_copy env pq sp h =
        run_bind (njs_function_name_set (put_prop (h @ fs) a k q) b (prop_name sp))
          (\<lambda>_ h. ok (pq\<lparr>pq_value := Some (In_hash a, q)\<rparr>) h)"
proof -
  let ?h = "put_prop h a k sp"
  have inserted: "insert_prop h a k sp = ok () ?h"
    by (simp add: insert_prop_def none)
  have put: "put_prop ?h a k q = put_prop h a k q" for q
    using put_prop_put [OF a(2), where fs = "[]"] by simp
  obtain g fs where g: "njs_function_value_copy env ?h (prop_getter sp) = (g, ?h @ fs)" "copied_functions env fs"
    by (rule value_copy_functions)
  obtain s gs where s: "njs_function_value_copy env (?h @ fs) (prop_setter sp) = (s, (?h @ fs) @ gs)"
    "copied_functions env gs"
    by (rule value_copy_functions)
  obtain s' gs' where s': "njs_function_value_copy env ?h (prop_setter sp) = (s', ?h @ gs')"
    "copied_functions env gs'" by (rule value_copy_functions)
  obtain v vs where v: "njs_function_value_copy env ?h (prop_value sp) = (v, ?h @ vs)" "copied_functions env vs"
    by (rule value_copy_functions)
  note copy = njs_prop_private_copy_def a(1) k Let_def inserted put run_bind.simps
  show ?thesis
  proof (cases "njs_is_accessor_descriptor sp")
    case accessor: True
    show ?thesis
    proof (cases "njs_is_function (prop_getter sp)")
      case getter: True
      show ?thesis
      proof (cases "njs_is_function g \<and> njs_is_function (prop_setter sp) \<and>
          obj_native ((?h @ fs) ! address g) \<noteq> None \<and>
          obj_native ((?h @ fs) ! address g) = obj_native ((?h @ fs) ! address (prop_setter sp))")
        case True
        then show ?thesis
          by (intro that(1) [of fs "sp\<lparr>prop_getter := g, prop_setter := g\<rparr>"])
            (auto simp add: copy accessor getter g put_prop_put [OF a(2)])
      next
        case shared: False
        show ?thesis
        proof (cases "njs_is_function (prop_setter sp)")
          case True
          with shared show ?thesis
            by (intro that(1) [of "fs @ gs" "sp\<lparr>prop_getter := g, prop_setter := s\<rparr>"])
              (auto simp: copy accessor getter g s put_prop_put [OF a(2)])
        next
          case False
          then show ?thesis
            by (intro that(1) [of fs "sp\<lparr>prop_getter := g\<rparr>"])
              (simp_all add: copy accessor getter g put_prop_put [OF a(2)])
        qed
      qed
    next
      case getter: False
      show ?thesis
      proof (cases "njs_is_function (prop_setter sp)")
        case True
        then show ?thesis
          by (intro that(1) [of gs' "sp\<lparr>prop_setter := s'\<rparr>"])
            (simp_all add: copy accessor getter s' put_prop_put [OF a(2)])
      next
        case False
        then show ?thesis
          by (intro that(1) [of "[]" sp]) (simp_all add: copy accessor getter)
      qed
    qed
  next
    case accessor: False
    show ?thesis
    proof (cases "njs_is_function (prop_value sp)")
      case True
      then show ?thesis
        by (intro that(2) [of vs "sp\<lparr>prop_value := v\<rparr>"])
          (simp_all add: copy accessor v put_prop_put [OF a(2)])
    next
      case False
      then show ?thesis
        by (intro that(1) [of "[]" sp]) (simp_all add: copy accessor)
    qed
  qed
qed

section \<open>The result of a query\<close>

text \<open>
  The place of the property holds it; what was passed by are whiteouts; a property found in a
  shared table has a handler and can not be configured; and a property that is in the query
  itself, a character, can not be written, unless it is an element of an array.
\<close>

definition whiteout_at :: "heap \<Rightarrow> bytes \<Rightarrow> nat \<Rightarrow> bool" where
  "whiteout_at h k a \<longleftrightarrow> a < length h \<and> (\<exists>p. entry h a k = Some p \<and> prop_type p = NJS_WHITEOUT)"

definition passed :: "heap \<Rightarrow> njs_property_query_t \<Rightarrow> bool" where
  "passed h pq \<longleftrightarrow>
     \<not> pq_shared pq \<and>
     (case pq_value pq of
        None \<Rightarrow> True
      | Some (In_hash a, p) \<Rightarrow> a < length h \<and> entry h a (pq_text pq) = Some p \<and> prop_type p = NJS_WHITEOUT
      | _ \<Rightarrow> False) \<and>
     (\<forall>a. pq_own_whiteout pq = Some a \<longrightarrow> whiteout_at h (pq_text pq) a)"

definition found_at :: "heap \<Rightarrow> njs_property_query_t \<Rightarrow> bool" where
  "found_at h pq \<longleftrightarrow>
     (case pq_value pq of
        None \<Rightarrow> False
      | Some (In_hash a, p) \<Rightarrow>
          a < length h \<and> entry h a (pq_text pq) = Some p \<and>
          \<not> pq_shared pq \<and>
          (\<forall>a. pq_own_whiteout pq = Some a \<longrightarrow> whiteout_at h (pq_text pq) a)
      | Some (In_shared_hash a, p) \<Rightarrow>
          a < length h \<and> pq_prototype pq = a \<and> prop_type p = NJS_PROPERTY_HANDLER \<and> prop_configurable p = NJS_ATTRIBUTE_FALSE \<and>
          (\<forall>a. pq_own_whiteout pq = Some a \<longrightarrow> whiteout_at h (pq_text pq) a)
      | Some (Scratch, p) \<Rightarrow>
          \<not> pq_shared pq \<and> prop_type p = NJS_PROPERTY \<and>
          (prop_writable p = NJS_ATTRIBUTE_FALSE \<or>
           (\<forall>a. pq_own_whiteout pq = Some a \<longrightarrow> whiteout_at h (pq_text pq) a))
      | Some (Cell a i, p) \<Rightarrow>
          \<not> pq_shared pq \<and> prop_type p = NJS_PROPERTY_REF \<and>
          (\<forall>a. pq_own_whiteout pq = Some a \<longrightarrow> whiteout_at h (pq_text pq) a))"

definition query_result :: "heap \<Rightarrow> bool \<times> njs_property_query_t \<Rightarrow> bool" where
  "query_result h = (\<lambda>(found, pq). if found then found_at h pq else passed h pq)"

lemma passed_simps [simp]:
  "passed h (pq\<lparr>pq_prototype := a\<rparr>) = passed h pq" "passed h (pq\<lparr>pq_own := b\<rparr>) = passed h pq"
  by (auto simp: passed_def split: option.split prop_place.split)

lemma string_query_found:
  "njs_string_property_query pq h s i = Some (Inr (True, pq'), h') \<Longrightarrow> \<not> pq_shared pq \<Longrightarrow> h' = h \<and> found_at h pq'"
  by (auto simp: njs_string_property_query_def found_at_def scratch_prop_def Let_def split: if_splits sum.splits)

lemma string_query_total:
  "\<exists>r. njs_string_property_query pq h s i = Some (r, h) \<and> (\<forall>pq'. r = Inr (False, pq') \<longrightarrow> pq' = pq)"
  by (auto simp: njs_string_property_query_def Let_def split: sum.split)

lemma whiteout_upd:
  "(\<And>obj. obj_hash (f obj) = obj_hash obj) \<Longrightarrow> whiteout_at (upd_object h b f) k a = whiteout_at h k a"
  by (cases "a < length h") (auto simp: whiteout_at_def nth_upd_object)

lemma passed_upd:
  "(\<And>obj. obj_hash (f obj) = obj_hash obj) \<Longrightarrow> passed (upd_object h b f) pq = passed h pq"
  by (auto simp: passed_def whiteout_upd nth_upd_object split: option.splits prop_place.splits if_splits)

lemma upd_object_id: "a < length h \<Longrightarrow> h[a := h ! a] = h"
  by simp

context heap_calls
begin

lemma array_query:
  assumes "passed h pq"
  shows "\<exists>r h'. njs_array_property_query env pq h a i = Some (r, h') \<and> R h h' \<and>
    (\<forall>x. r = Inr x \<longrightarrow> query_result h' x)"
proof -
  have found: "R h h' \<and> query_result h' x"
    if "h' = upd_object h a f" "\<And>obj. obj_hash (f obj) = obj_hash obj" "\<And>obj. obj_proto (f obj) = obj_proto obj"
      "x = (False, pq) \<or>
       x = (True, pq\<lparr>pq_value := Some (Scratch, scratch_prop v NJS_PROPERTY True)\<rparr>) \<and>
         pq_query pq = NJS_PROPERTY_QUERY_GET \<or>
       x = (True, pq\<lparr>pq_value := Some (Cell a i, scratch_prop Invalid NJS_PROPERTY_REF True)\<rparr>)" for h' f x v
    using that assms R_upd [of f h a]
    by (auto simp: query_result_def found_at_def passed_def scratch_prop_def whiteout_upd passed_upd nth_upd_object
        split: option.splits prop_place.splits)
  show ?thesis
  proof (cases "i \<ge> length (obj_start (h ! a))")
    case False
    then show ?thesis
      using found [of h "\<lambda>obj. obj"]
      by (auto simp: njs_array_property_query_def Let_def upd_object_def)
  next
    case True
    show ?thesis
    proof (cases "pq_query pq = NJS_PROPERTY_QUERY_SET")
      case False
      with True show ?thesis using assms by (simp add: njs_array_property_query_def query_result_def)
    next
      case set: True
      show ?thesis
      proof (cases "njs_array_expand (h ! a) 0 (i - length (obj_start (h ! a)) + 1)")
        case (Inl e)
        with True set show ?thesis by (simp add: njs_array_property_query_def)
      next
        case (Inr array)
        let ?xs = "obj_start array @ replicate (i - length (obj_start (h ! a))) Invalid @ [env_fresh_cell env]"
        let ?f = "\<lambda>obj. obj\<lparr>obj_start := ?xs, obj_size := obj_size array, obj_free := obj_free array\<rparr>"
        have "array\<lparr>obj_start := ?xs\<rparr> = ?f (h ! a)"
          using Inr by (auto simp: njs_array_expand_def Let_def split: if_splits)
        with Inr True set have "njs_array_property_query env pq h a i =
            ok (True, pq\<lparr>pq_value := Some (Cell a i, scratch_prop Invalid NJS_PROPERTY_REF True)\<rparr>) (upd_object h a ?f)"
          by (simp add: njs_array_property_query_def upd_object_def Let_def)
        moreover have "obj_hash (?f obj) = obj_hash obj" "obj_proto (?f obj) = obj_proto obj" for obj
          by simp_all
        ultimately show ?thesis using found [of "upd_object h a ?f" ?f] by blast
      qed
    qed
  qed
qed

lemma indexed_query_cases:
  assumes "passed h pq"
  shows "indexed_query env pq h a key = None \<or>
    (\<exists>r h'. indexed_query env pq h a key = Some (r, h') \<and> R h h' \<and> (\<forall>x. r = Inr x \<longrightarrow> query_result h' x))"
proof (cases "njs_is_null_or_undefined_or_boolean key")
  case False
  show ?thesis
  proof (cases "obj_type (h ! a) = NJS_OBJECT_STRING")
    case True
    show ?thesis
    proof (cases "obj_value (h ! a)")
      case (String s)
      show ?thesis
        using string_query_total [of pq h s "njs_value_to_index env key"]
          string_query_found [of pq h s "njs_value_to_index env key"]
          assms
        by (auto simp: indexed_query_def True String Let_def query_result_def passed_def split: sum.splits bool.splits)
    qed (use True in \<open>simp_all add: indexed_query_def\<close>)
  next
    case False
    then show ?thesis
      using array_query [OF assms, of a "njs_value_to_index env key"]
      by (cases "obj_type (h ! a)") (simp_all add: indexed_query_def Let_def)
  qed
qed (simp add: indexed_query_def)

lemma R_copies: "copied_functions env fs \<Longrightarrow> env_in env h \<Longrightarrow> R h (h @ fs)"
proof (induction fs rule: rev_induct)
  case (snoc f fs)
  then have "R h (h @ fs)" "obj_proto f = Some (env_prototype env NJS_FUNCTION)" by (auto simp: copied_functions_def)
  moreover from this snoc(3) have "R (h @ fs) ((h @ fs) @ [f])"
    by (intro R_new) (auto simp: env_in_def trans_less_add1)
  ultimately show ?case using R_trans by fastforce
qed simp

text \<open>The copy is at its place, and the other properties are where they were.\<close>

definition copy_ok :: "heap \<Rightarrow> njs_property_query_t \<Rightarrow> njs_object_prop \<Rightarrow> heap \<Rightarrow> njs_property_query_t \<Rightarrow> bool" where
  "copy_ok h pq sp h' pq' \<longleftrightarrow>
     (\<exists>q. pq' = pq\<lparr>pq_value := Some (In_hash (pq_prototype pq), q)\<rparr> \<and> same_attributes q sp \<and>
        entry h' (pq_prototype pq) (pq_text pq) = Some q) \<and>
     (\<forall>b p. b < length h \<longrightarrow> entry h b (pq_text pq) = Some p \<longrightarrow> entry h' b (pq_text pq) = Some p)"

lemma private_copy_entry:
  assumes a: "pq_prototype pq < length h" and "env_in env h"
  shows "\<exists>r h'. njs_prop_private_copy env pq sp h = Some (r, h') \<and> R h h' \<and> (\<forall>pq'. r = Inr pq' \<longrightarrow> copy_ok h pq sp h' pq')"
proof (cases "entry h (pq_prototype pq) (pq_text pq)")
  case (Some p)
  then show ?thesis by (simp add: njs_prop_private_copy_def insert_prop_def Let_def)
next
  case none: None
  let ?a = "pq_prototype pq" and ?k = "pq_text pq"
  have put: "R h (put_prop (h @ fs) ?a ?k q)" "entry (put_prop (h @ fs) ?a ?k q) ?a ?k = Some q"
      "\<And>c p. c < length h \<Longrightarrow> entry h c ?k = Some p \<Longrightarrow> entry (put_prop (h @ fs) ?a ?k q) c ?k = Some p"
    if "copied_functions env fs" for fs q
  proof -
    have "R (h @ fs) (put_prop (h @ fs) ?a ?k q)" using none a by (intro R_put) (simp add: nth_append)
    then show "R h (put_prop (h @ fs) ?a ?k q)" using R_copies [OF that \<open>env_in env h\<close>] R_trans by blast
    show "entry (put_prop (h @ fs) ?a ?k q) ?a ?k = Some q" using a by (simp add: put_prop_same)
    fix c p assume "c < length h" "entry h c ?k = Some p"
    then show "entry (put_prop (h @ fs) ?a ?k q) c ?k = Some p"
      using none put_prop_other [of c ?k ?a ?k "h @ fs" q] by (cases "c = ?a") (auto simp: nth_append)
  qed
  show ?thesis
    using refl a refl none
  proof (cases rule: private_copy_cases [where sp = sp and env = env])
    case (1 fs q)
    then show ?thesis using put [OF 1(1)] by (auto simp: copy_ok_def)
  next
    case (2 fs q b)
    let ?h = "put_prop (h @ fs) ?a ?k q"
    show ?thesis
    proof (cases "njs_function_name_set ?h b (prop_name sp)")
      case (Some result)
      then obtain r h' where r: "njs_function_name_set ?h b (prop_name sp) = Some (r, h')" by (cases result) simp
      then have keeps: "entry ?h c k = Some p \<Longrightarrow> entry h' c k = Some p" for c k p
        unfolding njs_function_name_set_def by (rule insert_prop_keeps)
      have "R ?h h'" using r runs_insert [of ?h] by (auto simp: njs_function_name_set_def runs_def)
      then have "R h h'" using put(1) [OF 2(1)] R_trans by blast
      moreover have "copy_ok h pq sp h' (pq\<lparr>pq_value := Some (In_hash ?a, q)\<rparr>)"
        using put(2,3) [OF 2(1)] keeps 2(2) by (auto simp: copy_ok_def)
      ultimately show ?thesis using 2 r by (cases r) auto
    qed (simp add: njs_function_name_set_def insert_prop_def split: option.splits)
  qed
qed

lemma private_copy_result:
  assumes a: "pq_prototype pq < length h" and "env_in env h"
    and passed: "\<forall>b. pq_own_whiteout pq = Some b \<longrightarrow> whiteout_at h (pq_text pq) b"
    and type: "\<not> pq_shared pq"
  shows "\<exists>r h'. njs_prop_private_copy env pq sp h = Some (r, h') \<and> R h h' \<and> (\<forall>pq. r = Inr pq \<longrightarrow> found_at h' pq)"
proof -
  obtain r h' where r: "njs_prop_private_copy env pq sp h = Some (r, h')" "R h h'"
    "\<forall>pq'. r = Inr pq' \<longrightarrow> copy_ok h pq sp h' pq'" using private_copy_entry [OF a \<open>env_in env h\<close>] by blast
  moreover have "found_at h' pq'" if "copy_ok h pq sp h' pq'" for pq'
    using that a passed type R_length [OF r(2)]
    by (auto simp: copy_ok_def found_at_def same_attributes_def whiteout_at_def)
  ultimately show ?thesis by blast
qed

lemma query_step_cases:
  assumes a: "a < length h" and "sane env h" "passed h pq" "\<not> pq_shared pq"
  shows "(\<exists>r h'. query_step env key pq h a = Inl (Some (r, h')) \<and> R h h' \<and> (\<forall>x. r = Inr x \<longrightarrow> query_result h' x)) \<or>
    (\<exists>pq'. query_step env key pq h a = Inr pq' \<and> passed h pq' \<and> \<not> pq_shared pq')"
proof -
  let ?pq = "pq\<lparr>pq_prototype := a\<rparr>"
  have passed: "passed h ?pq" using assms(3) by simp
  then have whiteout: "\<forall>b. pq_own_whiteout pq = Some b \<longrightarrow> whiteout_at h (pq_text pq) b" by (simp add: passed_def)
  show ?thesis
  proof (cases "indexed_query env ?pq h a key")
    case (Some result)
    then show ?thesis using indexed_query_cases [OF passed, of a key] by (auto simp: query_step_def)
  next
    case indexed: None
    show ?thesis
    proof (cases "entry h a (pq_text pq)")
      case (Some p)
      then show ?thesis
        using indexed a assms(4) whiteout
        by (cases "prop_type p = NJS_WHITEOUT")
          (auto simp: query_step_def Let_def passed_def query_result_def found_at_def whiteout_at_def)
    next
      case none: None
      show ?thesis
      proof (cases "map_of (obj_shared_hash (h ! a)) (pq_text pq)")
        case None
        then show ?thesis using indexed none passed assms(4) by (auto simp: query_step_def)
      next
        case (Some p)
        let ?spq = "?pq\<lparr>pq_value := Some (In_shared_hash a, p)\<rparr>"
        show ?thesis
        proof (cases "prop_configurable p = NJS_ATTRIBUTE_FALSE \<and> prop_type p = NJS_PROPERTY_HANDLER")
          case True
          then show ?thesis
            using a indexed none Some whiteout by (auto simp: query_step_def Let_def query_result_def found_at_def)
        next
          case False
          obtain r h' where r: "njs_prop_private_copy env ?spq p h = Some (r, h')" "R h h'"
            "\<forall>pq. r = Inr pq \<longrightarrow> found_at h' pq"
            using private_copy_result [of ?spq h p] a \<open>sane env h\<close> whiteout assms(4) by (auto simp: sane_def)
          with indexed none Some False show ?thesis
            by (cases r) (auto simp: query_step_def Let_def query_result_def)
        qed
      qed
    qed
  qed
qed

lemma query_loop_result:
  assumes "rooted h a" "sane env h" "passed h pq" "\<not> pq_shared pq"
  shows "\<exists>r h'. query_loop env key own pq h a = Some (r, h') \<and> R h h' \<and> (\<forall>x. r = Inr x \<longrightarrow> query_result h' x)"
  using assms
proof (induction arbitrary: pq rule: rooted.induct)
  case (root a)
  then show ?case
    using query_step_cases [of a h pq key]
    by (subst query_loop.simps) (auto simp: query_result_def)
next
  case (step a p)
  from query_step_cases [OF step(1) step(5,6,7), of key] show ?case
  proof (elim disjE exE conjE)
    fix pq' assume pq: "query_step env key pq h a = Inr pq'" "passed h pq'" "\<not> pq_shared pq'"
    then have "passed h (pq'\<lparr>pq_own := False\<rparr>)" by simp
    from step.IH [OF step(5) this] pq step(2) show ?thesis
      by (subst query_loop.simps) (auto simp: query_result_def)
  qed (subst query_loop.simps, auto)
qed

lemma sane_R: "sane env h \<Longrightarrow> R h h' \<Longrightarrow> sane env h'"
  using env_in_R R_rooted by (auto simp: sane_def)

lemma value_in_R: "value_in h v \<Longrightarrow> R h h' \<Longrightarrow> value_in h' v"
  using R_length by (fastforce simp: value_in_def split: option.splits)

text \<open>The computation ends, with an allowed step and a query that fits the heap it leaves.\<close>

definition query_ok :: "heap \<Rightarrow> (bool \<times> njs_property_query_t \<times> njs_value) run \<Rightarrow> bool" where
  "query_ok h m \<longleftrightarrow>
     (\<exists>r h'. m = Some (r, h') \<and> R h h' \<and>
       (\<forall>found pq v. r = Inr (found, pq, v) \<longrightarrow> query_result h' (found, pq) \<and> value_in h' v))"

lemma query_ok_throw [simp]: "query_ok h (throw e h)"
  by (auto simp: query_ok_def)

lemma query_ok_later: "R h h' \<Longrightarrow> query_ok h' m \<Longrightarrow> query_ok h m"
  using R_trans by (auto simp: query_ok_def)

lemma passed_init: "passed h ((njs_property_query_init q own)\<lparr>pq_key := s\<rparr>)"
  by (simp add: passed_def njs_property_query_init_def)

lemma object_query_ok:
  assumes "sane env h" "a < length h" "value_in h v"
  shows "query_ok h
    (run_bind (njs_object_property_query env ((njs_property_query_init q own)\<lparr>pq_key := s\<rparr>) h a key)
      (\<lambda>(found, pq) h. ok (found, pq, v) h))"
proof -
  have "rooted h a" using assms by (simp add: sane_def heap_rooted_iff)
  then obtain r h' where "njs_object_property_query env ((njs_property_query_init q own)\<lparr>pq_key := s\<rparr>) h a key = Some (r, h')"
    "R h h'" "\<forall>x. r = Inr x \<longrightarrow> query_result h' x"
    using query_loop_result [of h a "(njs_property_query_init q own)\<lparr>pq_key := s, pq_own := True\<rparr>" key own]
      assms(1) passed_init [of h s q True]
    by (auto simp: njs_object_property_query_def njs_property_query_init_def)
  with assms(3) value_in_R show ?thesis by (cases r) (auto simp: query_ok_def)
qed

lemma string_query_ok:
  "query_ok h (run_bind (njs_string_property_query (njs_property_query_init q own) h s i)
    (\<lambda>(found, pq) h. ok (found, pq, String s) h))"
proof -
  obtain r where r: "njs_string_property_query (njs_property_query_init q own) h s i = Some (r, h)"
    and no: "\<forall>pq'. r = Inr (False, pq') \<longrightarrow> pq' = njs_property_query_init q own"
    using string_query_total by blast
  have "\<not> pq_shared (njs_property_query_init q own)" by (simp add: njs_property_query_init_def)
  then have yes: "\<forall>pq'. r = Inr (True, pq') \<longrightarrow> found_at h pq'" using string_query_found r by blast
  show ?thesis
  proof (cases r)
    case (Inr x)
    then obtain found pq where "r = Inr (found, pq)" by (cases x) auto
    then show ?thesis
      using r no yes
      by (cases found) (auto simp: query_ok_def query_result_def value_in_def passed_def njs_property_query_init_def)
  qed (simp add: r)
qed

lemma copy_address:
  "value_in h (Object t a) \<Longrightarrow>
    \<exists>b h'. njs_function_value_copy env h (Object t a) = (Object t b, h') \<and> b < length h'"
  by (auto simp: njs_function_value_copy_def value_in_def Let_def)

lemma property_query_primitive:
  assumes h: "sane env h" "value_in h v" and key: "njs_is_primitive key"
  shows "query_ok h (njs_property_query env (njs_property_query_init q own) h v key)"
proof -
  obtain s where s: "njs_primitive_value_to_string env key = Some s"
    using key by (cases key) (auto simp: njs_primitive_value_to_string_def)
  have obj: "env_prototype env t < length h" "env_string_object env < length h" for t
    using h by (auto simp: sane_def env_in_def)
  show ?thesis
  proof (cases v)
    case (Object t a)
    show ?thesis
    proof (cases "t = NJS_FUNCTION")
      case True
      with Object h(2) copy_address [of h t a] obtain b h' where
        b: "njs_function_value_copy env h (Object t a) = (Object t b, h')" "b < length h'" by auto
      then have "R h h'" using R_value_copy [of h "Object t a"] h(1) by (simp add: sane_def)
      moreover have "query_ok h' (run_bind (njs_object_property_query env ((njs_property_query_init q own)\<lparr>pq_key := s\<rparr>) h' b key)
          (\<lambda>(found, pq) h. ok (found, pq, Object t b) h))"
        using sane_R [OF h(1) \<open>R h h'\<close>] b(2) by (intro object_query_ok) (simp_all add: value_in_def)
      ultimately show ?thesis
        using query_ok_later key s b(1) True by (simp add: njs_property_query_def Object)
    next
      case False
      then show ?thesis
        using key s h object_query_ok [OF h(1) _ h(2), where a = a and q = q and own = own and s = s and key = key]
        by (cases t) (simp_all add: njs_property_query_def Object value_in_def)
    qed
  qed (use key s h object_query_ok [OF h(1) obj(1) h(2)] object_query_ok [OF h(1) obj(2) h(2)] string_query_ok in
      \<open>auto simp: njs_property_query_def Let_def\<close>)
qed

lemma property_query_result:
  assumes "sane env h" "value_in h v" "njs_property_query env (njs_property_query_init q own) h v key = Some (r, h')"
  shows "R h h' \<and> (\<forall>found pq v. r = Inr (found, pq, v) \<longrightarrow> query_result h' (found, pq) \<and> value_in h' v)"
proof (cases "njs_is_primitive key")
  case True
  from property_query_primitive [OF assms(1,2) this, of q own] assms(3) show ?thesis
    by (auto simp: query_ok_def)
next
  case False
  obtain r1 h1 where string: "njs_value_to_string env h key = Some (r1, h1)"
    using assms(3) False by (cases "njs_value_to_string env h key") (auto simp: njs_property_query_def)
  have R: "R h h1" using runs_to_string [of h key] string by (simp add: runs_def)
  show ?thesis
  proof (cases r1)
    case (Inl e)
    with assms(3) False string R show ?thesis by (auto simp: njs_property_query_def)
  next
    case (Inr s)
    then have "njs_property_query env (njs_property_query_init q own) h v key =
        njs_property_query env (njs_property_query_init q own) h1 v (String s)"
      using False string by (simp add: njs_property_query_def)
    with property_query_primitive [OF sane_R [OF assms(1) R] value_in_R [OF assms(2) R], of "String s" q own]
      assms(3) R R_trans show ?thesis
      by (auto simp: query_ok_def)
  qed
qed

end

end
