(* ===== verification/Njs_Object_Ops.thy ===== *)
theory Njs_Object_Ops
  imports Njs_Object_Query
begin

text \<open>
  Every operation on properties changes the heap by the steps of the contract only.
\<close>

lemma same_attributes_type: "same_attributes p q \<Longrightarrow> prop_type p = prop_type q"
  by (simp add: same_attributes_def)

lemma prop_now_entry:
  "prop_now h (In_hash a) key p = q \<Longrightarrow> entry h a key = None \<or> entry h a key = Some q"
  by (auto simp: prop_now_def split: option.splits)

text \<open>The update of a property, where it is constant.\<close>

definition keeps_constant :: "njs_object_prop \<Rightarrow> njs_object_prop \<Rightarrow> bool" where
  "keeps_constant p prop \<longleftrightarrow>
     prop_configurable prop \<noteq> NJS_ATTRIBUTE_TRUE \<and> prop_writable prop \<noteq> NJS_ATTRIBUTE_TRUE \<and>
     (njs_is_valid (prop_value prop) \<longrightarrow> plain_value (prop_value prop) = plain_value (prop_value p))"

lemma attribute_cases: "w \<noteq> NJS_ATTRIBUTE_TRUE \<Longrightarrow> w = NJS_ATTRIBUTE_UNSET \<or> w = NJS_ATTRIBUTE_FALSE"
  by (cases w) auto

lemma allowed_attributes:
  assumes "constant_prop p \<Longrightarrow> keeps_constant p prop \<and> q = p"
  shows "allowed p (set_attributes (set_functions q prop) prop)"
    "njs_is_valid (prop_value prop) \<Longrightarrow>
      allowed p (set_attributes (set_functions q prop\<lparr>prop_value := prop_value prop\<rparr>) prop)"
proof -
  show "allowed p (set_attributes (set_functions q prop) prop)"
    using assms
    by (auto simp: allowed_def constant_prop_def keeps_constant_def set_attributes_def set_functions_def
        dest: attribute_cases)
  show "njs_is_valid (prop_value prop) \<Longrightarrow>
      allowed p (set_attributes (set_functions q prop\<lparr>prop_value := prop_value prop\<rparr>) prop)"
    using assms
    by (auto simp: allowed_def constant_prop_def keeps_constant_def set_attributes_def set_functions_def
        dest: attribute_cases)
qed

lemma keeps_constant_checked:
  assumes "constant_prop p"
    and "\<not> (prop_configurable prop = NJS_ATTRIBUTE_TRUE \<or> c)"
    and "njs_is_generic_descriptor prop \<or>
      njs_is_data_descriptor p = njs_is_data_descriptor prop \<and> \<not> data_conflict p prop"
  shows "keeps_constant p prop"
  using assms strict_equal_plain [of "prop_value prop" "prop_value p"]
  by (auto simp: keeps_constant_def constant_prop_def njs_is_generic_descriptor_def njs_is_data_descriptor_def
      data_conflict_def)

lemma constant_data: "constant_prop p \<Longrightarrow> njs_is_data_descriptor p \<and> \<not> attr (prop_configurable p)"
  by (simp add: constant_prop_def njs_is_data_descriptor_def)

text \<open>A definition returns the object it was asked for.\<close>

lemma run_bind_ok: "run_bind m f = ok y h' \<longleftrightarrow> (\<exists>x h. m = ok x h \<and> f x h = ok y h')"
  by (cases "(m, f)" rule: run_bind.cases) auto

lemma apply_descriptor_ok: "apply_descriptor env h v key place prev prop = ok v' h' \<Longrightarrow> v' = v"
  by (auto simp: apply_descriptor_def Let_def run_bind_ok split: if_splits)

lemma update_property_ok: "update_property env h v key place prev prop = ok v' h' \<Longrightarrow> v' = v"
  by (auto simp: update_property_def split: if_splits dest: apply_descriptor_ok)

lemma redefine_property_ok: "redefine_property env h v pq place prev prop = ok v' h' \<Longrightarrow> v' = v"
  by (auto simp: redefine_property_def run_bind_ok split: if_splits option.splits dest: update_property_ok)

lemma define_described_ok: "define_described env h0 h v found pq prop = ok v' h' \<Longrightarrow> v' = v"
  by (auto simp: define_described_def Let_def run_bind_ok dest: redefine_property_ok
      split: if_splits option.splits njs_object_prop_type_t.splits prop_place.splits)

context heap_calls
begin

lemma runs_put_place:
  "(\<And>a p. place = In_hash a \<Longrightarrow> entry h a key = Some p \<Longrightarrow> allowed p q) \<Longrightarrow> R h (put_place h place key q)"
  by (cases place) (auto simp: put_place_def intro: R_put R_upd)

lemma runs_apply:
  assumes "\<And>a p. place = In_hash a \<Longrightarrow> entry h a key = Some p \<Longrightarrow>
      prop_type p = prop_type prev \<and> (constant_prop p \<longrightarrow> keeps_constant p prop \<and> prev = p)"
  shows "runs h (apply_descriptor env h object key place prev prop)"
proof (cases "njs_is_valid (prop_value prop) \<and> prop_type prev = NJS_PROPERTY_HANDLER")
  case True
  let ?prev = "set_functions prev prop"
  have "R h (put_place h place key ?prev)" "R h (put_place h place key (set_attributes ?prev prop))"
    using assms True by (auto intro!: runs_put_place)
  moreover have "R h' (put_place h' (In_hash a) key (set_attributes ?prev prop))"
    if "entry h' a key = Some ?prev" for h' a
    using that True by (intro runs_put_place) auto
  moreover have "R h' (put_place h' place key (set_attributes ?prev prop))" if "\<And>a. place \<noteq> In_hash a" for h'
    using that by (intro runs_put_place) auto
  ultimately show ?thesis
    using True
    by (cases place) (auto simp: apply_descriptor_def Let_def
        intro!: runs_bind runs_later [OF _ runs_handler])
next
  case False
  have "allowed p (set_attributes (set_functions prev prop) prop)"
    "njs_is_valid (prop_value prop) \<Longrightarrow>
      allowed p (set_attributes (set_functions prev prop\<lparr>prop_value := prop_value prop\<rparr>) prop)"
    if "place = In_hash a" "entry h a key = Some p" for a p
    using assms [OF that] allowed_attributes [of p "prop" prev] by auto
  with False show ?thesis
    by (auto simp: apply_descriptor_def Let_def intro!: runs_put_place)
qed

lemma runs_update:
  assumes prev: "\<And>a p. place = In_hash a \<Longrightarrow> entry h a key = Some p \<Longrightarrow> prev = p"
    and "attr (prop_configurable prev) \<or> prop_configurable prop \<noteq> NJS_ATTRIBUTE_TRUE"
  shows "runs h (update_property env h object key place prev prop)"
proof -
  have "runs h (apply_descriptor env h object key place prev prop)"
    if "constant_prop prev \<Longrightarrow> keeps_constant prev prop"
    using that prev by (intro runs_apply) auto
  moreover have "runs h (apply_descriptor env h object key place (convert_property prev) prop)"
    if "attr (prop_configurable prev)"
    using that prev constant_data [of prev] by (intro runs_apply) (auto simp: convert_property_def)
  ultimately show ?thesis
    using assms(2) keeps_constant_checked [of prev "prop"] constant_data [of prev]
    by (auto simp: update_property_def)
qed

lemma runs_redefine:
  assumes "env_in env h"
    and prev: "\<And>a p. place = In_hash a \<Longrightarrow> entry h a (pq_text pq) = Some p \<Longrightarrow> prev = p"
    and shared: "pq_shared pq \<Longrightarrow> pq_prototype pq < length h"
  shows "runs h (redefine_property env h object pq place prev prop)"
proof (cases "\<not> attr (prop_configurable prev) \<and> pq_shared pq")
  case False
  with prev show ?thesis
    by (auto simp: redefine_property_def intro!: runs_update)
next
  case True
  then obtain r h' where r: "njs_prop_private_copy env pq prev h = Some (r, h')" "R h h'"
    "\<forall>pq'. r = Inr pq' \<longrightarrow> copy_ok h pq prev h' pq'"
    using private_copy_entry [of pq h prev] assms(1) shared by blast
  show ?thesis
  proof (cases r)
    case (Inl e)
    with r True show ?thesis by (auto simp: redefine_property_def)
  next
    case (Inr pq')
    with r obtain q where q: "pq' = pq\<lparr>pq_value := Some (In_hash (pq_prototype pq), q)\<rparr>"
      "same_attributes q prev" "entry h' (pq_prototype pq) (pq_text pq) = Some q" by (auto simp: copy_ok_def)
    show ?thesis
    proof (cases "prop_configurable prop = NJS_ATTRIBUTE_TRUE")
      case False
      with q(3) have "runs h' (update_property env h' object (pq_text pq) (In_hash (pq_prototype pq)) q prop)"
        by (intro runs_update) auto
      with True Inr q(1) r show ?thesis
        by (auto simp: redefine_property_def intro: runs_later)
    qed (use True in \<open>simp add: redefine_property_def\<close>)
  qed
qed

lemma runs_described: "runs h (described_property env h name v type)"
  by (cases type)
    (auto simp: described_property_def Let_def njs_descriptor_prop_def descriptor_function_def descriptor_attribute_def
      intro!: runs_bind runs_property)

lemma runs_define_described:
  assumes "env_in env h" "length h0 \<le> length h" "query_result h0 (found, pq)"
  shows "runs h (define_described env h0 h object found pq prop)"
proof (cases found)
  case False
  show ?thesis
  proof (cases "pq_value pq")
    case None
    with False show ?thesis by (auto simp: define_described_def intro!: runs_bind runs_insert)
  next
    case (Some a)
    then obtain a p where p: "pq_value pq = Some (In_hash a, p)"
      using assms(3) False by (auto simp: query_result_def passed_def split: prod.splits prop_place.splits)
    have "R h (put_place h (In_hash a) (pq_text pq) (complete_descriptor prop))"
      if "prop_type (prop_now h (In_hash a) (pq_text pq) p) = NJS_WHITEOUT"
      using that by (intro runs_put_place) (auto simp: prop_now_def)
    with False p show ?thesis by (simp add: define_described_def)
  qed
next
  case True
  show ?thesis
  proof (cases "pq_value pq")
    case (Some x)
    then obtain place prev where p: "pq_value pq = Some (place, prev)" by (cases x) auto
    let ?prev = "prop_now h place (pq_text pq) prev"
    have "runs h (redefine_property env h object pq place ?prev prop)"
    proof (rule runs_redefine [OF assms(1)])
      show "?prev = q" if "place = In_hash a" "entry h a (pq_text pq) = Some q" for a q
        using that by (simp add: prop_now_def)
      show "pq_prototype pq < length h" if "pq_shared pq"
        using that assms(2,3) p True
        by (auto simp: query_result_def found_at_def split: prop_place.splits)
    qed
    moreover have "R h (upd_object h a (\<lambda>obj. obj\<lparr>obj_start := xs obj\<rparr>))" for a xs
      by (rule R_upd) auto
    ultimately show ?thesis
      using True p by (auto simp: define_described_def Let_def split: njs_object_prop_type_t.splits prop_place.splits)
  qed (use True in \<open>simp add: define_described_def\<close>)
qed

lemma runs_define:
  assumes "sane env h" "value_in h object"
  shows "runs h (njs_object_prop_define env h object name v type)"
  unfolding njs_object_prop_define_def
proof (rule runs_bind)
  show "runs h (njs_property_query env (njs_property_query_init NJS_PROPERTY_QUERY_SET True) h object (String name))"
    using property_query_result [OF assms] by (auto simp: runs_def)
next
  fix x h0
  assume query: "njs_property_query env (njs_property_query_init NJS_PROPERTY_QUERY_SET True) h object (String name) =
      ok x h0" and "R h h0"
  then have env: "env_in env h0" using assms(1) env_in_R by (auto simp: sane_def)
  obtain found pq object' where x: "x = (found, pq, object')" by (cases x)
  from property_query_result [OF assms query] x have "query_result h0 (found, pq)" by simp
  then have "runs h' (define_described env h0 h' object' found pq prop)" if "R h0 h'" for h' "prop"
    using that env env_in_R R_length by (intro runs_define_described) auto
  then show "runs h0 ((\<lambda>(found, pq, object) h0.
      run_bind (described_property env h0 name v type) (\<lambda>prop h. define_described env h0 h object found pq prop)) x h0)"
    by (auto simp: x intro!: runs_bind runs_described)
qed

lemma runs_query: "sane env h \<Longrightarrow> value_in h v \<Longrightarrow> runs h (njs_property_query env (njs_property_query_init q own) h v key)"
  using property_query_result by (auto simp: runs_def)

lemma runs_get:
  assumes "sane env h" "value_in h v"
  shows "runs h (njs_value_property env h v key)"
  unfolding njs_value_property_def
  by (rule runs_bind [OF runs_query [OF assms]])
    (auto intro!: runs_bind runs_call runs_handler split: option.split bool.split njs_object_prop_type_t.split)

lemma runs_add:
  "(\<And>a. pq_own_whiteout pq = Some a \<Longrightarrow> whiteout_at h (pq_text pq) a) \<Longrightarrow> runs h (add_property h v pq setval)"
  by (auto simp: add_property_def whiteout_at_def split: option.split intro!: runs_bind runs_insert R_put)

lemma runs_cell: "R h (upd_object h a (\<lambda>obj. obj\<lparr>obj_start := xs obj\<rparr>))"
  by (rule R_upd) auto

lemma found_whiteout:
  assumes "found_at h pq" "pq_value pq = Some (place, prop)" "prop_writable prop \<noteq> NJS_ATTRIBUTE_FALSE"
    "pq_own_whiteout pq = Some a"
  shows "whiteout_at h (pq_text pq) a"
  using assms by (auto simp: found_at_def split: prop_place.splits)

lemma runs_store:
  assumes "found_at h pq" "pq_value pq = Some (place, prop)" "prop_writable prop \<noteq> NJS_ATTRIBUTE_FALSE"
  shows "runs h (store_property h v pq place prop setval)"
proof (cases "pq_own pq")
  case False
  then show ?thesis using found_whiteout [OF assms] by (simp add: store_property_def runs_add)
next
  case True
  moreover have "R h (put_prop h a (pq_text pq) q)" if "place = In_hash a" for a q
    using that assms by (intro R_put) (auto simp: found_at_def)
  ultimately show ?thesis
    by (auto simp: store_property_def runs_cell split: njs_object_prop_type_t.split prop_place.split)
qed

lemma handler_declined: "call_handler env h p v s = ok (False, x) h' \<Longrightarrow> h' = h"
  by (auto simp: call_handler_def dest: handler_declines split: njs_value.splits)

lemma runs_assign:
  assumes "query_result h (found, pq)"
  shows "runs h (assign_property env h v found pq setval)"
proof (cases "found \<and> pq_value pq \<noteq> None")
  case True
  then obtain place p where p: "pq_value pq = Some (place, p)" by auto
  have "runs h (run_bind (call_handler env h p v (Some setval))
      (\<lambda>(done, _) h. if done then ok v h else store_property h v pq place p setval))"
    if "runs h (store_property h v pq place p setval)"
    using that
    by (auto intro!: runs_bind runs_handler dest!: handler_declined)
  with True p assms show ?thesis
    using runs_store [of h pq place p v setval]
    by (auto simp: assign_property_def query_result_def intro!: runs_bind runs_call)
next
  case False
  with assms have "runs h (add_property h v pq setval)"
    by (intro runs_add) (auto simp: query_result_def passed_def found_at_def split: if_splits option.splits)
  with False show ?thesis by (auto simp: assign_property_def split: bool.split option.split)
qed

lemma runs_set:
  assumes "sane env h" "value_in h v"
  shows "runs h (njs_value_property_set env h v key setval)"
  using property_query_result [OF assms]
  by (auto simp: njs_value_property_set_def intro!: runs_bind runs_query [OF assms] runs_assign)

lemma runs_remove:
  assumes "query_result h (found, pq)"
  shows "runs h (remove_property h v found pq)"
proof (cases "found \<and> pq_value pq \<noteq> None")
  case True
  then obtain place p where p: "pq_value pq = Some (place, p)" by auto
  have "R h (put_prop h a (pq_text pq) q)"
    if "place = In_hash a" "prop_configurable p \<noteq> NJS_ATTRIBUTE_FALSE" for a q
    using that assms True p by (intro R_put) (auto simp: query_result_def found_at_def)
  with True p show ?thesis
    by (auto simp: remove_property_def runs_cell split: njs_object_prop_type_t.split prop_place.split)
next
  case False
  then show ?thesis by (auto simp: remove_property_def split: bool.split option.split)
qed

lemma runs_delete:
  assumes "sane env h" "value_in h v"
  shows "runs h (njs_value_property_delete env h v key)"
  using property_query_result [OF assms]
  by (auto simp: njs_value_property_delete_def intro!: runs_bind runs_query [OF assms] runs_remove)

lemma runs_alloc:
  assumes "obj_proto obj = Some p" "p < length h"
  shows "R h (h @ [obj])"
  using assms by (intro R_new) auto

lemma runs_descriptor_object:
  assumes "env_in env h"
  shows "runs h (descriptor_object env h prop)"
proof -
  have "R h (h @ [plain_object env])"
    using assms by (intro runs_alloc) (auto simp: plain_object_def env_in_def)
  then show ?thesis
    by (auto simp: descriptor_object_def njs_object_alloc_def insert_field_def
        intro!: runs_bind runs_insert runs_later [of h "h @ [plain_object env]"])
qed

lemma runs_prop_descriptor:
  assumes "sane env h" "value_in h v"
  shows "runs h (njs_object_prop_descriptor env h v key)"
proof -
  have "env_in env h'" "R h' h'' \<Longrightarrow> env_in env h''" if "R h h'" for h' h''
    using that assms(1) env_in_R R_trans by (auto simp: sane_def)
  then show ?thesis
    by (auto simp: njs_object_prop_descriptor_def
        intro!: runs_bind runs_query [OF assms] runs_descriptor_object runs_handler
        intro: env_in_R split: option.split bool.split njs_object_prop_type_t.split)
qed

lemma define_value_in:
  assumes "sane env h" "value_in h object" "njs_object_prop_define env h object name v type = ok v' h'"
  shows "value_in h' v'"
proof -
  from assms(3) obtain found pq object' h0 p h1 where
    query: "njs_property_query env (njs_property_query_init NJS_PROPERTY_QUERY_SET True) h object (String name) =
      ok (found, pq, object') h0" and desc: "described_property env h0 name v type = ok p h1"
    and def: "define_described env h0 h1 object' found pq p = ok v' h'"
    by (auto simp: njs_object_prop_define_def run_bind_ok)
  have r: "value_in h0 object'" "query_result h0 (found, pq)" "R h h0"
    using property_query_result [OF assms(1,2) query] by auto
  have "R h0 h1" using runs_described [of h0 name v type] desc by (simp add: runs_def)
  moreover have "env_in env h1"
    using assms(1) r(3) \<open>R h0 h1\<close> env_in_R by (auto simp: sane_def)
  then have "R h1 h'"
    using runs_define_described [of h1 h0 found pq object' p] def r(2) R_length [OF \<open>R h0 h1\<close>]
    by (simp add: runs_def)
  ultimately show ?thesis
    using define_described_ok [OF def] r(1) value_in_R by blast
qed

end

end
