(* ===== verification/Njs_Object_Calls.thy ===== *)
theory Njs_Object_Calls
  imports Njs_Object_Ops
begin

text \<open>
  The operations on objects as the steps of a program, and what holds after any number of
  them: the chains of prototypes end, so that no search for a property runs forever, and the
  properties that are constant stay.
\<close>

section \<open>Programs\<close>

datatype object_call =
    Get_property njs_value njs_value
  | Set_property njs_value njs_value njs_value
  | Delete_property njs_value njs_value
  | Define_accessor njs_value njs_string njs_value njs_object_prop_define_t
  | Set_proto njs_value njs_value
  | Object_new "njs_value list"
  | Object_create "njs_value list"
  | Object_define_property "njs_value list"
  | Object_define_properties "njs_value list"
  | Object_own_descriptor "njs_value list"
  | Object_has_own "njs_value list"
  | Object_freeze "njs_value list"
  | Object_seal "njs_value list"
  | Object_prevent_extensions "njs_value list"

fun call_values :: "object_call \<Rightarrow> njs_value list" where
  "call_values (Get_property v k) = [v, k]"
| "call_values (Set_property v k x) = [v, k, x]"
| "call_values (Delete_property v k) = [v, k]"
| "call_values (Define_accessor v n f t) = [v, f]"
| "call_values (Set_proto v x) = [v, x]"
| "call_values (Object_new args) = args"
| "call_values (Object_create args) = args"
| "call_values (Object_define_property args) = args"
| "call_values (Object_define_properties args) = args"
| "call_values (Object_own_descriptor args) = args"
| "call_values (Object_has_own args) = args"
| "call_values (Object_freeze args) = args"
| "call_values (Object_seal args) = args"
| "call_values (Object_prevent_extensions args) = args"

text \<open>The heap a call leaves, with a value or an exception; \<^const>\<open>None\<close> if it does not end.\<close>

fun object_step :: "env \<Rightarrow> heap \<Rightarrow> object_call \<Rightarrow> heap option" where
  "object_step env h (Get_property v k) = map_option snd (njs_value_property env h v k)"
| "object_step env h (Set_property v k x) = map_option snd (njs_value_property_set env h v k x)"
| "object_step env h (Delete_property v k) = map_option snd (njs_value_property_delete env h v k)"
| "object_step env h (Define_accessor v n f t) = map_option snd (njs_object_prop_define env h v n f t)"
| "object_step env h (Set_proto v x) = map_option snd (njs_object_prototype_proto h v (Some x))"
| "object_step env h (Object_new args) = map_option snd (njs_object_constructor env h args)"
| "object_step env h (Object_create args) = map_option snd (njs_object_create env h args)"
| "object_step env h (Object_define_property args) = map_option snd (njs_object_define_property env h args)"
| "object_step env h (Object_define_properties args) = map_option snd (njs_object_define_properties env h args)"
| "object_step env h (Object_own_descriptor args) = map_option snd (njs_object_get_own_property_descriptor env h args)"
| "object_step env h (Object_has_own args) = map_option snd (njs_object_prototype_has_own_property env h args)"
| "object_step env h (Object_freeze args) = map_option snd (njs_object_freeze h args)"
| "object_step env h (Object_seal args) = map_option snd (njs_object_seal h args)"
| "object_step env h (Object_prevent_extensions args) = map_option snd (njs_object_prevent_extensions h args)"

text \<open>A program works on objects that are in the heap.\<close>

inductive object_steps :: "env \<Rightarrow> heap \<Rightarrow> heap \<Rightarrow> bool" for env h where
  start: "object_steps env h h"
| call: "object_steps env h h' \<Longrightarrow> list_all (value_in h') (call_values c) \<Longrightarrow>
    object_step env h' c = Some h'' \<Longrightarrow> object_steps env h h''"

lemma value_in_arg: "list_all (value_in h) args \<Longrightarrow> value_in h (njs_arg args n)"
  by (auto simp: njs_arg_def list_all_length value_in_def)

context heap_calls
begin

lemma runs_define_each:
  "sane env h \<Longrightarrow> value_in h v \<Longrightarrow> runs h (define_each env h v props)"
proof (induction props arbitrary: h v)
  case (Cons p props)
  have "runs h' (define_each env h' v' props)"
    if "njs_object_prop_define env h v (prop_name p) (prop_value p) NJS_OBJECT_PROP_DESCRIPTOR = ok v' h'" "R h h'"
    for v' h'
    using Cons.IH define_value_in [OF Cons.prems that(1)] sane_R [OF Cons.prems(1) that(2)] by blast
  with Cons show ?case by (auto intro!: runs_bind runs_define)
qed simp

lemma runs_value_alloc:
  assumes "env_in env h"
  shows "R h (snd (njs_object_value_alloc env h v))" "R h (snd (njs_object_alloc env h))"
  using assms by (auto simp: njs_object_value_alloc_def njs_object_alloc_def plain_object_def env_in_def intro!: R_new)

lemma runs_freeze:
  "runs h (njs_object_freeze h args)" "runs h (njs_object_seal h args)" "runs h (njs_object_prevent_extensions h args)"
proof -
  have prevent: "R h (prevent_extensions h a)" for a
    unfolding prevent_extensions_def by (rule R_upd) auto
  have "R h (map_props change (prevent_extensions h a) a)" if "\<And>p. allowed p (change p)" for change a
    using prevent R_map that R_trans by blast
  with prevent show "runs h (njs_object_freeze h args)" "runs h (njs_object_seal h args)"
    "runs h (njs_object_prevent_extensions h args)"
    by (auto simp: njs_object_freeze_def njs_object_seal_def njs_object_prevent_extensions_def Let_def
        allowed_freeze allowed_seal)
qed

lemma runs_set_proto:
  assumes "heap_rooted h" "value_in h x"
  shows "runs h (njs_object_prototype_proto h v (Some x))"
proof (cases "njs_is_object v \<and> (njs_is_object x \<or> x = Null_value)")
  case True
  then show ?thesis
    by (cases rule: set_prototype_cases [OF assms, of "address v"])
      (auto simp: njs_object_prototype_proto_def intro!: R_proto)
qed (auto simp: njs_object_prototype_proto_def)

lemma runs_create:
  assumes "env_in env h" "value_in h (njs_arg args 1)"
  shows "runs h (njs_object_create env h args)"
proof -
  let ?v = "njs_arg args 1"
  have "upd_object (h @ [plain_object env]) (length h) (\<lambda>obj. obj\<lparr>obj_proto := value_address ?v\<rparr>) =
      h @ [plain_object env\<lparr>obj_proto := value_address ?v\<rparr>]"
    by (simp add: upd_object_def)
  moreover have "R h (h @ [plain_object env\<lparr>obj_proto := value_address ?v\<rparr>])"
    using assms by (intro R_new) (simp add: value_in_def)
  ultimately show ?thesis by (simp add: njs_object_create_def Let_def njs_object_alloc_def)
qed

lemma runs_object_define:
  assumes h: "sane env h" "list_all (value_in h) args"
  shows "runs h (njs_object_define_property env h args)" "runs h (njs_object_define_properties env h args)"
proof -
  note v = value_in_arg [OF h(2), of 1, simplified]
  have name: "runs h (case njs_arg args 2 of String s \<Rightarrow> ok s h | name \<Rightarrow> njs_value_to_string env h name)"
    by (simp add: runs_to_string split: njs_value.split)
  show "runs h (njs_object_define_property env h args)"
    by (auto simp: njs_object_define_property_def Let_def
        intro!: runs_bind [OF name] runs_define sane_R [OF h(1)] value_in_R [OF v])
  show "runs h (njs_object_define_properties env h args)"
    by (auto simp: njs_object_define_properties_def Let_def intro!: runs_define_each h(1) v)
qed

lemma runs_new:
  assumes "env_in env h"
  shows "runs h (njs_object_constructor env h args)"
  using runs_value_alloc(1) [OF assms, of "njs_arg args 1"] runs_value_alloc(2) [OF assms]
  by (auto simp: njs_object_constructor_def Let_def split: prod.split)

lemma step_R:
  assumes h: "sane env h" "list_all (value_in h) (call_values c)" and step: "object_step env h c = Some h'"
  shows "R h h'"
proof -
  have R: "R h h'" if "map_option snd m = Some h'" "runs h m" for m :: "'a run"
    using that by (auto simp: runs_def)
  have env: "env_in env h" "heap_rooted h" using h(1) by (auto simp: sane_def)
  have query: "runs h (njs_object_get_own_property_descriptor env h args)"
    "runs h (njs_object_prototype_has_own_property env h args)" if "list_all (value_in h) args" for args
    using value_in_arg [OF that] h(1)
    by (auto simp: njs_object_get_own_property_descriptor_def njs_object_prototype_has_own_property_def Let_def
        intro!: runs_prop_descriptor runs_bind runs_query)
  show ?thesis
    using step h(2) value_in_arg [of h _ 1]
    by (cases c)
      (auto intro!: R runs_get [OF h(1)] runs_set [OF h(1)] runs_delete [OF h(1)] runs_define [OF h(1)]
        runs_set_proto [OF env(2)] runs_new [OF env(1)] runs_create [OF env(1)] runs_object_define [OF h(1)]
        query runs_freeze)
qed

lemma steps_R:
  assumes "object_steps env h h'" "sane env h"
  shows "R h h' \<and> sane env h'"
  using assms
proof (induction rule: object_steps.induct)
  case (call h' c h'')
  then show ?case using step_R R_trans sane_R by blast
qed simp

end

end
