(* ===== verification/Njs_Object_Invariants.thy ===== *)
theory Njs_Object_Invariants
  imports Njs_Object_Calls
begin

text \<open>
  The two relations between heaps that every operation on objects respects: chains of
  prototypes that end keep ending, and constant properties stay constant, with their values.
\<close>

section \<open>The relations\<close>

definition roots_kept :: "heap \<Rightarrow> heap \<Rightarrow> bool" where
  "roots_kept h h' \<longleftrightarrow> length h \<le> length h' \<and> (heap_rooted h \<longrightarrow> heap_rooted h')"

definition constants_kept :: "heap \<Rightarrow> heap \<Rightarrow> bool" where
  "constants_kept h h' \<longleftrightarrow>
     roots_kept h h' \<and>
     (\<forall>a k p. a < length h \<longrightarrow> entry h a k = Some p \<longrightarrow> constant_prop p \<longrightarrow>
        (\<exists>p'. entry h' a k = Some p' \<and> allowed p p'))"

lemma constants_keptD:
  assumes "constants_kept h h'" "a < length h" "entry h a k = Some p" "constant_prop p"
  obtains p' where "entry h' a k = Some p'" "allowed p p'"
  using assms unfolding constants_kept_def by blast

lemma roots_kept_grows: "heap_grows h h' \<Longrightarrow> roots_kept h h'"
  using heap_rooted_grows by (auto simp: roots_kept_def heap_grows_def)

lemma roots_kept_put: "roots_kept h (put_prop h a k p)"
  unfolding put_prop_def by (intro roots_kept_grows heap_grows_upd) simp

lemma roots_kept_map: "roots_kept h (map_props f h a)"
  unfolding map_props_def by (intro roots_kept_grows heap_grows_upd) simp

lemma roots_kept_upd: "(\<And>obj. obj_proto (f obj) = obj_proto obj) \<Longrightarrow> roots_kept h (upd_object h a f)"
  by (intro roots_kept_grows heap_grows_upd)

lemma roots_kept_append: "(\<And>p. obj_proto obj = Some p \<Longrightarrow> p < length h) \<Longrightarrow> roots_kept h (h @ [obj])"
  by (intro roots_kept_grows heap_grows_append)

lemma roots_kept_proto:
  "(\<And>p. q = Some p \<Longrightarrow> p < length h \<and> \<not> on_chain h p a) \<Longrightarrow>
    roots_kept h (upd_object h a (\<lambda>obj. obj\<lparr>obj_proto := q\<rparr>))"
  using heap_rooted_set_proto by (auto simp: roots_kept_def)

interpretation roots: heap_steps roots_kept
proof
  show "roots_kept h h" for h by (simp add: roots_kept_def)
  show "roots_kept h h' \<Longrightarrow> roots_kept h' h'' \<Longrightarrow> roots_kept h h''" for h h' h''
    by (simp add: roots_kept_def)
  show "roots_kept h h' \<Longrightarrow> length h \<le> length h'" "heap_rooted h \<Longrightarrow> roots_kept h h' \<Longrightarrow> heap_rooted h'" for h h'
    by (simp_all add: roots_kept_def)
qed (auto intro: roots_kept_put roots_kept_map roots_kept_upd roots_kept_append roots_kept_proto)

lemma constants_keptI:
  assumes "roots_kept h h'"
    "\<And>a k p. a < length h \<Longrightarrow> entry h a k = Some p \<Longrightarrow> constant_prop p \<Longrightarrow> \<exists>p'. entry h' a k = Some p' \<and> allowed p p'"
  shows "constants_kept h h'"
  using assms by (simp add: constants_kept_def)

text \<open>A change that leaves the tables of properties alone.\<close>

lemma constants_kept_tables:
  "roots_kept h h' \<Longrightarrow> (\<And>a. a < length h \<Longrightarrow> obj_hash (h' ! a) = obj_hash (h ! a)) \<Longrightarrow> constants_kept h h'"
  by (intro constants_keptI) auto

lemma entry_map_props:
  "b < length h \<Longrightarrow>
    entry (map_props f h a) b k = (if a = b then map_option f (entry h b k) else entry h b k)"
  by (simp add: map_props_def nth_upd_object map_of_map)

interpretation constants: heap_steps constants_kept
proof
  show "constants_kept h h" for h
    by (intro constants_keptI) auto
  show "constants_kept h h' \<Longrightarrow> length h \<le> length h'" "heap_rooted h \<Longrightarrow> constants_kept h h' \<Longrightarrow> heap_rooted h'" for h h'
    by (auto simp: constants_kept_def roots_kept_def)
  show "constants_kept h h''" if kept: "constants_kept h h'" "constants_kept h' h''" for h h' h''
  proof (rule constants_keptI)
    show "roots_kept h h''" using kept roots.R_trans by (auto simp: constants_kept_def)
    fix a k p assume p: "a < length h" "entry h a k = Some p" "constant_prop p"
    then obtain p' where "entry h' a k = Some p'" "allowed p p'" using kept(1) by (blast elim: constants_keptD)
    moreover from this p(3) have "constant_prop p'" by (simp add: allowed_def)
    moreover have "a < length h'" using p(1) that(1) by (auto simp: constants_kept_def roots_kept_def)
    ultimately obtain p'' where "entry h'' a k = Some p''" "allowed p' p''" using kept(2) by (blast elim: constants_keptD)
    then show "\<exists>p'. entry h'' a k = Some p' \<and> allowed p p'" using \<open>allowed p p'\<close> allowed_trans by blast
  qed
  show "constants_kept h (put_prop h a k p')" if "\<And>p. entry h a k = Some p \<Longrightarrow> allowed p p'" for h a k p'
  proof (rule constants_keptI [OF roots_kept_put])
    fix b j p assume "b < length h" "entry h b j = Some p"
    then show "\<exists>q. entry (put_prop h a k p') b j = Some q \<and> allowed p q"
      using that put_prop_same [of a h k p'] put_prop_other [of b j a k h p']
      by (cases "(b, j) = (a, k)") auto
  qed
  show "constants_kept h (map_props f h a)" if "\<And>p. allowed p (f p)" for f h a
    using that by (intro constants_keptI [OF roots_kept_map]) (auto simp: entry_map_props)
  show "constants_kept h (h @ [obj])" if "\<And>p. obj_proto obj = Some p \<Longrightarrow> p < length h" for h obj
    using that by (intro constants_kept_tables roots_kept_append) (auto simp: nth_append)
qed (auto intro!: constants_kept_tables roots_kept_upd roots_kept_proto simp: nth_upd_object)

section \<open>Functions and handlers that respect them\<close>

definition calls_respect :: "(heap \<Rightarrow> heap \<Rightarrow> bool) \<Rightarrow> env \<Rightarrow> bool" where
  "calls_respect R env \<longleftrightarrow>
     (\<forall>h f this args r h'. env_call env h f this args = Some (r, h') \<longrightarrow> R h h') \<and>
     (\<forall>n h p v s r h'. env_handler env n h p v s = Some (r, h') \<longrightarrow>
        R h h' \<and> (\<forall>x. r = Inr (False, x) \<longrightarrow> h' = h))"

lemma respecting_calls: "calls_respect R env \<Longrightarrow> heap_steps R \<Longrightarrow> heap_calls R env"
  by (intro heap_calls.intro heap_calls_axioms.intro) (auto simp: calls_respect_def)

text \<open>
  Some functions and handlers of the program itself: the functions that take no other steps,
  and the handler of \<open>__proto__\<close>.
\<close>

definition native_env :: "env \<Rightarrow> env" where
  "native_env env =
     env\<lparr>env_call := (\<lambda>h f this args.
           case obj_native (h ! f) of
             Some 0 \<Rightarrow> njs_object_freeze h (this # args)
           | Some (Suc 0) \<Rightarrow> njs_object_seal h (this # args)
           | Some _ \<Rightarrow> njs_object_prevent_extensions h (this # args)
           | None \<Rightarrow> ok Undefined h),
         env_handler := (\<lambda>n h p v s.
           if (case s of Some x \<Rightarrow> value_in h x | None \<Rightarrow> True)
           then run_bind (njs_object_prototype_proto h v s) (\<lambda>retval h. ok (True, retval) h)
           else throw Bad_access h)\<rparr>"

lemma proto_handler_heap:
  assumes "njs_object_prototype_proto h v s = Some (r, h')"
  shows "h' = h \<or> (\<exists>q. h' = upd_object h (address v) (\<lambda>obj. obj\<lparr>obj_proto := q\<rparr>))"
  using assms
  by (auto simp: njs_object_prototype_proto_def njs_object_set_prototype_of_def Let_def
      split: if_splits option.splits bool.splits set_proto.splits prod.splits)

lemma proto_handler_kept:
  assumes "njs_object_prototype_proto h v s = Some (r, h')" "\<And>x. s = Some x \<Longrightarrow> value_in h x"
  shows "constants_kept h h'"
proof (rule constants_kept_tables)
  show "obj_hash (h' ! a) = obj_hash (h ! a)" if "a < length h" for a
    using proto_handler_heap [OF assms(1)] that by (auto simp: nth_upd_object)
  show "roots_kept h h'"
  proof (cases "heap_rooted h")
    case False
    then show ?thesis using proto_handler_heap [OF assms(1)] by (auto simp: roots_kept_def)
  next
    case True
    show ?thesis
    proof (cases s)
      case None
      then show ?thesis
        using assms(1) by (auto simp: njs_object_prototype_proto_def split: if_splits option.splits)
    next
      case (Some x)
      show ?thesis
        using assms Some
        by (cases rule: set_prototype_cases [OF True assms(2) [OF Some], of "address v"])
          (auto simp: njs_object_prototype_proto_def split: if_splits intro!: roots_kept_proto)
    qed
  qed
qed

lemma freeze_kept:
  assumes "njs_object_freeze h args = Some (r, h') \<or> njs_object_seal h args = Some (r, h') \<or>
    njs_object_prevent_extensions h args = Some (r, h')"
  shows "constants_kept h h'"
proof -
  have prevent: "constants_kept h (prevent_extensions h a)" for a
    unfolding prevent_extensions_def by (rule constants.R_upd) auto
  have "constants_kept h (map_props f (prevent_extensions h a) a)" if "\<And>p. allowed p (f p)" for f a
    using prevent constants.R_map that constants.R_trans by blast
  with prevent assms show ?thesis
    by (auto simp: njs_object_freeze_def njs_object_seal_def njs_object_prevent_extensions_def Let_def
        allowed_freeze allowed_seal split: if_splits)
qed

lemma native_calls_respect: "calls_respect constants_kept (native_env env)"
proof -
  have "constants_kept h h'" if "env_call (native_env env) h f this args = Some (r, h')" for h f this args r h'
    using that freeze_kept [of h "this # args" r h'] constants.R_refl
    by (auto simp: native_env_def split: option.splits nat.splits)
  moreover have "constants_kept h h' \<and> (\<forall>x. r = Inr (False, x) \<longrightarrow> h' = h)"
    if call: "env_handler (native_env env) n h p v s = Some (r, h')" for n h p v s r h'
  proof (cases "case s of Some x \<Rightarrow> value_in h x | None \<Rightarrow> True")
    case False
    with call show ?thesis by (auto simp: native_env_def)
  next
    case True
    then have run: "run_bind (njs_object_prototype_proto h v s) (\<lambda>retval h. ok (True, retval) h) = Some (r, h')"
      using call by (simp add: native_env_def)
    then obtain r1 where r1: "njs_object_prototype_proto h v s = Some (r1, h')" "\<forall>x. r \<noteq> Inr (False, x)"
      by (cases "njs_object_prototype_proto h v s" rule: option.exhaust) (auto split: sum.splits elim!: run_bind.elims)
    from proto_handler_kept [OF r1(1)] True r1(2) show ?thesis by (auto split: option.splits)
  qed
  ultimately show ?thesis by (simp add: calls_respect_def)
qed

interpretation native: heap_calls constants_kept "native_env env" for env
  by (rule respecting_calls [OF native_calls_respect constants.heap_steps_axioms])

section \<open>Programs\<close>

lemma program_roots:
  assumes "calls_respect roots_kept env" "sane env h" "object_steps env h h'"
  shows "heap_calls roots_kept env" "sane env h'"
proof -
  show calls: "heap_calls roots_kept env" by (rule respecting_calls [OF assms(1) roots.heap_steps_axioms])
  show "sane env h'" using heap_calls.steps_R [OF calls assms(3,2)] by simp
qed

text \<open>A heap of three objects in a chain; the one in the middle has a constant property.\<close>

definition sample_env :: env where
  "sample_env = native_env
     \<lparr>env_prototype = (\<lambda>t. 0), env_string_object = 0, env_function_instance_hash = [],
      env_arrow_instance_hash = [], env_string_instance_hash = [], env_array_instance_hash = [], env_fresh_cell = Undefined,
      env_call = (\<lambda>h f this args. ok Undefined h), env_handler = (\<lambda>n h p v s. ok (True, Undefined) h),
      env_number_to_string = (\<lambda>n. text_string []), env_strtod = (\<lambda>p. (NaN, p))\<rparr>"

definition constant_a :: njs_object_prop where
  "constant_a = (njs_object_prop_alloc (text_string ''a'') Null_value NJS_ATTRIBUTE_FALSE)"

definition sample_heap :: heap where
  "sample_heap =
     [(plain_object sample_env)\<lparr>obj_proto := None\<rparr>,
      (plain_object sample_env)\<lparr>obj_hash := [(ascii ''a'', constant_a)]\<rparr>,
      (plain_object sample_env)\<lparr>obj_proto := Some 1\<rparr>]"

lemma sample_env_simps [simp]:
  "env_prototype sample_env t = 0" "env_string_object sample_env = 0"
  by (simp_all add: sample_env_def native_env_def)

lemma sample_heap_simps:
  "length sample_heap = 3" "sample_heap ! 0 = (plain_object sample_env)\<lparr>obj_proto := None\<rparr>"
  "sample_heap ! Suc 0 = (plain_object sample_env)\<lparr>obj_hash := [(ascii ''a'', constant_a)]\<rparr>"
  "sample_heap ! 2 = (plain_object sample_env)\<lparr>obj_proto := Some 1\<rparr>"
  by (simp_all add: sample_heap_def)

lemma sample_sane: "sane sample_env sample_heap"
proof -
  have "rooted sample_heap 0"
    by (rule rooted.root) (simp_all add: sample_heap_simps)
  moreover from this have "rooted sample_heap 1"
    by - (rule rooted.step [of 1 _ 0], simp_all add: sample_heap_simps plain_object_def)
  moreover from this have "rooted sample_heap 2"
    by - (rule rooted.step [of 2 _ 1], simp_all add: sample_heap_simps)
  ultimately have "rooted sample_heap a" if "a < 3" for a
    using that by (cases a; cases "a - 1") (auto simp: less_Suc_eq numeral_2_eq_2 numeral_3_eq_3)
  then show ?thesis by (simp add: sane_def env_in_def heap_rooted_iff sample_heap_simps)
qed

lemma sample_respects: "calls_respect constants_kept sample_env" "calls_respect roots_kept sample_env"
proof -
  show "calls_respect constants_kept sample_env" unfolding sample_env_def by (rule native_calls_respect)
  then show "calls_respect roots_kept sample_env" unfolding calls_respect_def constants_kept_def by blast
qed

lemma sample_steps:
  "object_steps sample_env sample_heap
     (prevent_extensions sample_heap 1)"
  by (rule object_steps.call [OF object_steps.start, of _ "Object_prevent_extensions [Undefined, Object NJS_OBJECT 1]"])
    (simp_all add: njs_object_prevent_extensions_def njs_arg_def value_in_def sample_heap_simps)

text \<open>
  C3. No search for a property runs forever: after any number of operations, with exceptions
  or without, every chain of prototypes still ends, and every query for a property by a
  primitive key, the conversion of an object included, and every \<open>isPrototypeOf\<close> returns,
  if the functions and the handlers that the operations call keep the chains finite.
\<close>

theorem object_searches_end:
  assumes "calls_respect roots_kept env" "sane env h" "object_steps env h h'"
  shows "heap_rooted h' \<and>
    (\<forall>v key query own. value_in h' v \<longrightarrow> njs_is_primitive key \<longrightarrow>
      njs_property_query env (njs_property_query_init query own) h' v key \<noteq> None) \<and>
    (\<forall>a name. a < length h' \<longrightarrow> find_in_chain h' name a \<noteq> None) \<and>
    (\<forall>args. list_all (value_in h') args \<longrightarrow> njs_object_prototype_is_prototype_of h' args \<noteq> None)"
proof -
  note calls = program_roots [OF assms]
  then have rooted: "heap_rooted h'" by (simp add: sane_def)
  have "njs_property_query env (njs_property_query_init query own) h' v key \<noteq> None"
    if "value_in h' v" "njs_is_primitive key" for v key query own
    using heap_calls.property_query_primitive [OF calls that, of query own] by (auto simp: heap_calls.query_ok_def [OF calls(1)])
  moreover have "find_in_chain h' name a \<noteq> None" if "a < length h'" for a name
    using that rooted find_in_chain_rooted [of h' a name] by (auto simp: heap_rooted_iff)
  moreover have "njs_object_prototype_is_prototype_of h' args \<noteq> None" if "list_all (value_in h') args" for args
  proof (cases "obj_proto (h' ! address (njs_arg args 1))")
    case None
    then show ?thesis
      by (auto simp: njs_object_prototype_is_prototype_of_def Let_def among_prototypes.simps)
  next
    case (Some p)
    show ?thesis
    proof (cases "njs_arg args 1")
      case (Object t a)
      then have "a < length h'" using value_in_arg [OF that, of 1] by (simp add: value_in_def)
      with rooted Some Object have "rooted h' p"
        by (auto simp: heap_rooted_iff intro: rooted_proto)
      then show ?thesis
        using Some by (auto simp: njs_object_prototype_is_prototype_of_def Let_def among_prototypes_rooted)
    qed (auto simp: njs_object_prototype_is_prototype_of_def Let_def)
  qed
  ultimately show ?thesis using rooted by blast
qed

theorem object_searches_end_witness:
  "heap_rooted (prevent_extensions sample_heap 1) \<and>
    find_in_chain (prevent_extensions sample_heap 1) (ascii ''b'') 2 \<noteq> None"
  using object_searches_end [OF sample_respects(2) sample_sane sample_steps]
  by (simp add: prevent_extensions_def sample_heap_simps)



text \<open>
  C4. The setter of \<open>__proto__\<close> makes the object or null the prototype, unless the object is
  not extensible or is on the chain of the new prototype: then nothing changes, and the
  second is a \<open>TypeError\<close>. Setting the prototype an object has succeeds in any case.
\<close>

theorem proto_setter_correct:
  assumes "heap_rooted h" "value_in h v" "njs_is_object v" "value_in h x" "njs_is_object x \<or> x = Null_value"
  shows "njs_object_prototype_proto h v (Some x) =
    (if obj_proto (h ! address v) = value_address x \<or> \<not> obj_extensible (h ! address v) then ok Undefined h
     else if njs_is_object x \<and> on_chain h (address x) (address v)
       then throw (Type_error (ascii ''Cyclic __proto__ value'')) h
     else ok Undefined (upd_object h (address v) (\<lambda>obj. obj\<lparr>obj_proto := value_address x\<rparr>)))"
proof (cases rule: set_prototype_cases [OF assms(1,4), of "address v"])
  case (3 p)
  with assms show ?thesis by (cases x) (auto simp: njs_object_prototype_proto_def)
next
  case 4
  with assms show ?thesis by (cases x) (auto simp: njs_object_prototype_proto_def)
qed (use assms in \<open>auto simp: njs_object_prototype_proto_def\<close>)

theorem proto_setter_correct_witness:
  "njs_object_prototype_proto sample_heap (Object NJS_OBJECT 0) (Some (Object NJS_OBJECT 2)) =
    throw (Type_error (ascii ''Cyclic __proto__ value'')) sample_heap"
proof -
  have "on_chain sample_heap 2 0"
    by (intro on_chain.there [of _ 2 1] on_chain.there [of _ 1 0] on_chain.here)
      (simp_all add: sample_heap_simps plain_object_def)
  with proto_setter_correct [of sample_heap "Object NJS_OBJECT 0" "Object NJS_OBJECT 2"] sample_sane show ?thesis
    by (simp add: sane_def value_in_def sample_heap_simps plain_object_def)
qed

end
