(* ===== verification/Njs_Object_Es.thy ===== *)
theory Njs_Object_Es
  imports Njs_Object_Invariants
begin

text \<open>
  The definition of properties against the algorithm of ECMA-262, 10.1.6.3
  (\<open>ValidateAndApplyPropertyDescriptor\<close>), on objects that are no arrays and no wrapped
  strings.
\<close>

section \<open>The algorithm of the standard\<close>

text \<open>A descriptor, whose fields can be absent, and a property.\<close>

record es_desc =
  d_value :: "njs_value option"
  d_writable :: "bool option"
  d_get :: "njs_value option"
  d_set :: "njs_value option"
  d_enumerable :: "bool option"
  d_configurable :: "bool option"

datatype es_prop =
    Es_data njs_value bool (es_enumerable: bool) (es_configurable: bool)
  | Es_accessor njs_value njs_value (es_enumerable: bool) (es_configurable: bool)

definition es_is_data :: "es_desc \<Rightarrow> bool" where
  "es_is_data d \<longleftrightarrow> d_value d \<noteq> None \<or> d_writable d \<noteq> None"

definition es_is_accessor :: "es_desc \<Rightarrow> bool" where
  "es_is_accessor d \<longleftrightarrow> d_get d \<noteq> None \<or> d_set d \<noteq> None"

definition es_or :: "'a option \<Rightarrow> 'a \<Rightarrow> 'a" where
  "es_or field absent = (case field of Some x \<Rightarrow> x | None \<Rightarrow> absent)"

definition same_value :: "njs_value \<Rightarrow> njs_value \<Rightarrow> bool" where
  "same_value u v \<longleftrightarrow>
     u = Number_value NaN \<and> v = Number_value NaN \<or> njs_values_strict_equal u v"

text \<open>A property that is not there yet; the object is extensible.\<close>

definition es_create :: "es_desc \<Rightarrow> es_prop" where
  "es_create d =
     (let e = es_or (d_enumerable d) False; c = es_or (d_configurable d) False
      in if es_is_accessor d then Es_accessor (es_or (d_get d) Undefined) (es_or (d_set d) Undefined) e c
         else Es_data (es_or (d_value d) Undefined) (es_or (d_writable d) False) e c)"

text \<open>
  A property that is there; \<^const>\<open>None\<close> refuses the change. The attributes of a property
  that can not be configured stay, and its fields, unless it is a data property that can be
  written, keep their values.
\<close>

definition es_refused :: "es_desc \<Rightarrow> es_prop \<Rightarrow> bool" where
  "es_refused d current \<longleftrightarrow>
     \<not> es_configurable current \<and>
     (d_configurable d = Some True \<or> es_or (d_enumerable d) (es_enumerable current) \<noteq> es_enumerable current)"

definition es_differs :: "njs_value option \<Rightarrow> njs_value \<Rightarrow> bool" where
  "es_differs field v \<longleftrightarrow> (case field of Some y \<Rightarrow> \<not> same_value y v | None \<Rightarrow> False)"

definition es_change :: "es_desc \<Rightarrow> es_prop \<Rightarrow> es_prop option" where
  "es_change d current =
     (let e = es_or (d_enumerable d) (es_enumerable current);
          c = es_or (d_configurable d) (es_configurable current)
      in case current of
           Es_data v w _ configurable \<Rightarrow>
             if es_is_accessor d then
               if \<not> configurable then None
               else Some (Es_accessor (es_or (d_get d) Undefined) (es_or (d_set d) Undefined) e c)
             else if \<not> configurable \<and> \<not> w \<and> (d_writable d = Some True \<or> es_differs (d_value d) v) then None
             else Some (Es_data (es_or (d_value d) v) (es_or (d_writable d) w) e c)
         | Es_accessor g s _ configurable \<Rightarrow>
             if es_is_data d then
               if \<not> configurable then None
               else Some (Es_data (es_or (d_value d) Undefined) (es_or (d_writable d) False) e c)
             else if \<not> configurable \<and> (es_differs (d_get d) g \<or> es_differs (d_set d) s) then None
             else Some (Es_accessor (es_or (d_get d) g) (es_or (d_set d) s) e c))"

definition es_update :: "es_desc \<Rightarrow> es_prop \<Rightarrow> es_prop option" where
  "es_update d current = (if es_refused d current then None else es_change d current)"

definition es_define :: "es_desc \<Rightarrow> es_prop option \<Rightarrow> es_prop option" where
  "es_define d current =
     (case current of None \<Rightarrow> Some (es_create d) | Some p \<Rightarrow> es_update d p)"

section \<open>Properties and descriptors of njs\<close>

fun attribute_field :: "njs_object_attribute_t \<Rightarrow> bool option" where
  "attribute_field NJS_ATTRIBUTE_UNSET = None"
| "attribute_field NJS_ATTRIBUTE_TRUE = Some True"
| "attribute_field NJS_ATTRIBUTE_FALSE = Some False"

definition value_field :: "njs_value \<Rightarrow> njs_value option" where
  "value_field v = (if njs_is_valid v then Some v else None)"

definition desc_of :: "njs_object_prop \<Rightarrow> es_desc" where
  "desc_of p =
     \<lparr>d_value = value_field (prop_value p), d_writable = attribute_field (prop_writable p),
      d_get = value_field (prop_getter p), d_set = value_field (prop_setter p),
      d_enumerable = attribute_field (prop_enumerable p),
      d_configurable = attribute_field (prop_configurable p)\<rparr>"

lemma desc_of_simps:
  "d_value (desc_of p) = value_field (prop_value p)" "d_writable (desc_of p) = attribute_field (prop_writable p)"
  "d_get (desc_of p) = value_field (prop_getter p)" "d_set (desc_of p) = value_field (prop_setter p)"
  "d_enumerable (desc_of p) = attribute_field (prop_enumerable p)"
  "d_configurable (desc_of p) = attribute_field (prop_configurable p)"
  by (simp_all add: desc_of_def)

definition prop_of :: "njs_object_prop \<Rightarrow> es_prop" where
  "prop_of p =
     (if njs_is_data_descriptor p
      then Es_data (prop_value p) (attr (prop_writable p)) (attr (prop_enumerable p)) (attr (prop_configurable p))
      else Es_accessor (prop_getter p) (prop_setter p) (attr (prop_enumerable p)) (attr (prop_configurable p)))"

definition callable :: "njs_value \<Rightarrow> bool" where
  "callable v \<longleftrightarrow> njs_is_function_or_undefined v"

text \<open>A property in a table: of one of the two kinds, with its attributes set.\<close>

definition prop_ok :: "njs_object_prop \<Rightarrow> bool" where
  "prop_ok p \<longleftrightarrow>
     prop_type p = NJS_PROPERTY \<and>
     prop_enumerable p \<noteq> NJS_ATTRIBUTE_UNSET \<and> prop_configurable p \<noteq> NJS_ATTRIBUTE_UNSET \<and>
     (prop_writable p \<noteq> NJS_ATTRIBUTE_UNSET \<and> njs_is_valid (prop_value p) \<and>
        prop_getter p = Invalid \<and> prop_setter p = Invalid \<or>
      prop_writable p = NJS_ATTRIBUTE_UNSET \<and> prop_value p = Invalid \<and>
        callable (prop_getter p) \<and> callable (prop_setter p))"

text \<open>What \<open>njs_descriptor_prop\<close> makes of a descriptor.\<close>

definition desc_ok :: "njs_object_prop \<Rightarrow> bool" where
  "desc_ok p \<longleftrightarrow>
     prop_type p = NJS_PROPERTY \<and>
     (prop_value p = Invalid \<or> njs_is_valid (prop_value p)) \<and>
     (prop_getter p = Invalid \<or> callable (prop_getter p)) \<and>
     (prop_setter p = Invalid \<or> callable (prop_setter p)) \<and>
     \<not> (njs_is_data_descriptor p \<and> njs_is_accessor_descriptor p)"

lemma callable_simps [simp]:
  "callable Undefined" "\<not> callable Invalid" "callable v \<Longrightarrow> njs_is_valid v"
  "callable v \<Longrightarrow> njs_set_invalid v = Invalid"
  by (cases v; simp add: callable_def njs_is_function_or_undefined_def)+

lemma valid_set_invalid [simp]: "njs_is_valid v \<Longrightarrow> njs_set_invalid v = Invalid"
  by (cases v) auto

lemma callable_strict: "callable u \<Longrightarrow> njs_values_strict_equal u v = same_value u v"
  by (cases u) (auto simp: same_value_def callable_def njs_is_function_or_undefined_def)

lemma value_field_simps [simp]:
  "value_field Invalid = None" "njs_is_valid v \<Longrightarrow> value_field v = Some v"
  by (simp_all add: value_field_def)

lemma es_or_simps [simp]: "es_or None x = x" "es_or (Some y) x = y"
  by (simp_all add: es_or_def)

section \<open>Queries for own properties\<close>

text \<open>An object whose properties are all in its tables.\<close>

definition ordinary :: "heap \<Rightarrow> njs_value \<Rightarrow> bool" where
  "ordinary h v \<longleftrightarrow>
     (case v of
        Object t a \<Rightarrow> t \<noteq> NJS_FUNCTION \<and> a < length h \<and> obj_type (h ! a) \<noteq> NJS_ARRAY \<and>
          obj_type (h ! a) \<noteq> NJS_OBJECT_STRING
      | _ \<Rightarrow> False)"

lemma ordinaryE:
  assumes "ordinary h v"
  obtains t a where "v = Object t a" "t \<noteq> NJS_FUNCTION" "a < length h" "obj_type (h ! a) \<noteq> NJS_ARRAY"
    "obj_type (h ! a) \<noteq> NJS_OBJECT_STRING"
  using assms by (auto simp: ordinary_def split: njs_value.splits)

definition own_query :: "query_t \<Rightarrow> njs_string \<Rightarrow> nat \<Rightarrow> njs_property_query_t" where
  "own_query q name a = (njs_property_query_init q True)\<lparr>pq_key := name, pq_prototype := a\<rparr>"

lemma own_query_simps [simp]:
  "pq_value (own_query q name a) = None" "pq_key (own_query q name a) = name" "\<not> pq_shared (own_query q name a)"
  "pq_own (own_query q name a)" "pq_own_whiteout (own_query q name a) = None" "pq_query (own_query q name a) = q"
  by (simp_all add: own_query_def njs_property_query_init_def)

lemma ordinary_query:
  assumes "ordinary h v"
  shows "njs_property_query env (njs_property_query_init q own) h v (String name) =
      run_bind (query_loop env (String name) own (own_query q name 0) h (address v)) (\<lambda>(found, pq) h. ok (found, pq, v) h)"
    "query_step env key (own_query q name b) h (address v) =
      (let a = address v; pq = own_query q name a
       in case entry h a (str_start name) of
            Some p \<Rightarrow>
              if prop_type p \<noteq> NJS_WHITEOUT then Inl (ok (True, pq\<lparr>pq_value := Some (In_hash a, p)\<rparr>) h)
              else Inr (pq\<lparr>pq_value := Some (In_hash a, p), pq_own_whiteout := Some a\<rparr>)
          | None \<Rightarrow>
              (case map_of (obj_shared_hash (h ! a)) (str_start name) of
                 None \<Rightarrow> Inr pq
               | Some _ \<Rightarrow> query_step env key (own_query q name b) h a))"
proof -
  obtain t a where v: "v = Object t a" "t \<noteq> NJS_FUNCTION" and type: "obj_type (h ! a) \<noteq> NJS_ARRAY"
    "obj_type (h ! a) \<noteq> NJS_OBJECT_STRING" using assms by (rule ordinaryE)
  show "njs_property_query env (njs_property_query_init q own) h v (String name) =
      run_bind (query_loop env (String name) own (own_query q name 0) h (address v)) (\<lambda>(found, pq) h. ok (found, pq, v) h)"
    using v by (cases t)
      (simp_all add: njs_property_query_def njs_primitive_value_to_string_def njs_object_property_query_def
        njs_property_query_init_def own_query_def)
  have "indexed_query env pq h a key = None" for pq
    using type by (cases "obj_type (h ! a)") (simp_all add: indexed_query_def)
  then show "query_step env key (own_query q name b) h (address v) =
      (let a = address v; pq = own_query q name a
       in case entry h a (str_start name) of
            Some p \<Rightarrow>
              if prop_type p \<noteq> NJS_WHITEOUT then Inl (ok (True, pq\<lparr>pq_value := Some (In_hash a, p)\<rparr>) h)
              else Inr (pq\<lparr>pq_value := Some (In_hash a, p), pq_own_whiteout := Some a\<rparr>)
          | None \<Rightarrow>
              (case map_of (obj_shared_hash (h ! a)) (str_start name) of
                 None \<Rightarrow> Inr pq
               | Some _ \<Rightarrow> query_step env key (own_query q name b) h a))"
    using v by (auto simp: query_step_def Let_def own_query_def njs_property_query_init_def split: option.split)
qed

lemma own_found:
  assumes "ordinary h v" "entry h (address v) (str_start name) = Some p" "prop_type p \<noteq> NJS_WHITEOUT"
  shows "njs_property_query env (njs_property_query_init q own) h v (String name) =
    ok (True, (own_query q name (address v))\<lparr>pq_value := Some (In_hash (address v), p)\<rparr>, v) h"
  unfolding ordinary_query(1) [OF assms(1)]
  by (subst query_loop.simps) (simp add: ordinary_query(2) [OF assms(1)] assms(2,3) Let_def)

lemma own_query_result:
  assumes "ordinary h v" "map_of (obj_shared_hash (h ! address v)) (str_start name) = None"
  shows "njs_property_query env (njs_property_query_init q True) h v (String name) =
    (let a = address v
     in case entry h a (str_start name) of
          None \<Rightarrow> ok (False, own_query q name a, v) h
        | Some p \<Rightarrow>
            if prop_type p \<noteq> NJS_WHITEOUT
            then ok (True, (own_query q name a)\<lparr>pq_value := Some (In_hash a, p)\<rparr>, v) h
            else ok (False, (own_query q name a)\<lparr>pq_value := Some (In_hash a, p), pq_own_whiteout := Some a\<rparr>, v) h)"
  unfolding ordinary_query(1) [OF assms(1)]
  by (subst query_loop.simps) (simp add: ordinary_query(2) [OF assms(1)] assms(2) Let_def split: option.split)

section \<open>Redefinition\<close>

definition new_prop :: "njs_object_prop \<Rightarrow> njs_object_prop \<Rightarrow> njs_object_prop" where
  "new_prop prev prop =
     (let prev = (if njs_is_generic_descriptor prop \<or> njs_is_data_descriptor prev = njs_is_data_descriptor prop
                  then prev else convert_property prev);
          prev = set_functions prev prop;
          prev = (if njs_is_valid (prop_value prop) then prev\<lparr>prop_value := prop_value prop\<rparr> else prev)
      in set_attributes prev prop)"

lemma attribute_fields:
  "attribute_field w = Some b \<longleftrightarrow> w = of_bool_attr b" "attribute_field w = None \<longleftrightarrow> w = NJS_ATTRIBUTE_UNSET"
  by (cases w; simp)+

lemma attr_or:
  "w \<noteq> NJS_ATTRIBUTE_UNSET \<Longrightarrow>
    es_or (attribute_field u) (attr w) = attr (if u \<noteq> NJS_ATTRIBUTE_UNSET then u else w)"
  "es_or (attribute_field u) False = attr (if u \<noteq> NJS_ATTRIBUTE_UNSET then u else NJS_ATTRIBUTE_FALSE)"
  by (cases u; cases w; simp)+

lemma value_or: "es_or (value_field u) v = (if njs_is_valid u then u else v)"
  by (simp add: value_field_def)

lemma enumerable_conflict:
  "w \<noteq> NJS_ATTRIBUTE_UNSET \<Longrightarrow>
    es_or (attribute_field u) (attr w) \<noteq> attr w \<longleftrightarrow> u \<noteq> NJS_ATTRIBUTE_UNSET \<and> w \<noteq> u"
  by (cases u; cases w; simp)

lemma desc_kinds:
  "desc_ok p \<Longrightarrow> es_is_data (desc_of p) = njs_is_data_descriptor p"
  "desc_ok p \<Longrightarrow> es_is_accessor (desc_of p) = njs_is_accessor_descriptor p"
  by (auto simp: desc_ok_def desc_of_def es_is_data_def es_is_accessor_def njs_is_data_descriptor_def
      njs_is_accessor_descriptor_def attribute_fields value_field_def callable_def [symmetric])

lemma apply_simple:
  "prop_type prev \<noteq> NJS_PROPERTY_HANDLER \<Longrightarrow>
    apply_descriptor env h v key place prev prop =
      ok v (put_place h place key (set_attributes
        (let prev = set_functions prev prop
         in if njs_is_valid (prop_value prop) then prev\<lparr>prop_value := prop_value prop\<rparr> else prev) prop))"
  by (simp add: apply_descriptor_def Let_def)

lemma new_prop_ok:
  assumes "prop_ok prev" "desc_ok prop"
  shows "prop_ok (new_prop prev prop)"
  using assms
  by (auto simp: prop_ok_def desc_ok_def new_prop_def Let_def set_attributes_def set_functions_def convert_property_def
      njs_is_generic_descriptor_def njs_is_data_descriptor_def njs_is_accessor_descriptor_def callable_def [symmetric])

text \<open>The property the update makes, by the kinds of the property and of the descriptor.\<close>

lemma prop_of_new_data:
  assumes "prop_ok prev" "desc_ok prop" "njs_is_data_descriptor prev" "\<not> njs_is_accessor_descriptor prop"
  shows "prop_of (new_prop prev prop) =
    Es_data (es_or (value_field (prop_value prop)) (prop_value prev))
      (es_or (attribute_field (prop_writable prop)) (attr (prop_writable prev)))
      (es_or (attribute_field (prop_enumerable prop)) (attr (prop_enumerable prev)))
      (es_or (attribute_field (prop_configurable prop)) (attr (prop_configurable prev)))"
  using assms
  by (cases "prop_writable prop"; cases "prop_enumerable prop"; cases "prop_configurable prop")
    (auto simp: prop_of_def new_prop_def Let_def value_or set_attributes_def set_functions_def prop_ok_def
      njs_is_generic_descriptor_def njs_is_data_descriptor_def)

lemma prop_of_new_accessor:
  assumes "prop_ok prev" "desc_ok prop" "\<not> njs_is_data_descriptor prev" "\<not> njs_is_data_descriptor prop"
  shows "prop_of (new_prop prev prop) =
    Es_accessor (es_or (value_field (prop_getter prop)) (prop_getter prev))
      (es_or (value_field (prop_setter prop)) (prop_setter prev))
      (es_or (attribute_field (prop_enumerable prop)) (attr (prop_enumerable prev)))
      (es_or (attribute_field (prop_configurable prop)) (attr (prop_configurable prev)))"
  using assms
  by (cases "prop_enumerable prop"; cases "prop_configurable prop")
    (auto simp: prop_of_def new_prop_def Let_def value_or set_attributes_def set_functions_def prop_ok_def
      njs_is_generic_descriptor_def njs_is_data_descriptor_def)

lemma prop_of_new_to_accessor:
  assumes "prop_ok prev" "desc_ok prop" "njs_is_data_descriptor prev" "njs_is_accessor_descriptor prop"
  shows "prop_of (new_prop prev prop) =
    Es_accessor (es_or (value_field (prop_getter prop)) Undefined)
      (es_or (value_field (prop_setter prop)) Undefined)
      (es_or (attribute_field (prop_enumerable prop)) (attr (prop_enumerable prev)))
      (es_or (attribute_field (prop_configurable prop)) (attr (prop_configurable prev)))"
proof -
  have "\<not> njs_is_data_descriptor prop" using assms by (simp add: desc_ok_def)
  with assms show ?thesis
    by (cases "prop_enumerable prop"; cases "prop_configurable prop")
      (auto simp: prop_of_def new_prop_def Let_def value_or set_attributes_def set_functions_def prop_ok_def
        convert_property_def njs_is_generic_descriptor_def njs_is_data_descriptor_def)
qed

lemma prop_of_new_to_data:
  assumes "prop_ok prev" "desc_ok prop" "\<not> njs_is_data_descriptor prev" "njs_is_data_descriptor prop"
  shows "prop_of (new_prop prev prop) =
    Es_data (es_or (value_field (prop_value prop)) Undefined)
      (es_or (attribute_field (prop_writable prop)) False)
      (es_or (attribute_field (prop_enumerable prop)) (attr (prop_enumerable prev)))
      (es_or (attribute_field (prop_configurable prop)) (attr (prop_configurable prev)))"
  using assms
  by (cases "prop_writable prop"; cases "prop_enumerable prop"; cases "prop_configurable prop")
    (auto simp: prop_of_def new_prop_def Let_def value_or set_attributes_def set_functions_def prop_ok_def
      convert_property_def njs_is_generic_descriptor_def njs_is_data_descriptor_def)

lemma data_conflict_es:
  assumes "prop_type prev \<noteq> NJS_PROPERTY_HANDLER" "prop_value prop \<noteq> Number_value NaN"
  shows "(\<not> attr (prop_configurable prev) \<and> \<not> attr (prop_writable prev) \<and>
      (d_writable (desc_of prop) = Some True \<or> es_differs (d_value (desc_of prop)) (prop_value prev))) =
    data_conflict prev prop"
  using assms
  by (auto simp: data_conflict_def es_differs_def desc_of_simps attribute_fields value_field_def same_value_def)

lemma accessor_conflict_es:
  assumes "desc_ok prop"
  shows "(\<not> attr (prop_configurable prev) \<and>
      (es_differs (d_get (desc_of prop)) (prop_getter prev) \<or> es_differs (d_set (desc_of prop)) (prop_setter prev))) =
    accessor_conflict prev prop"
  using assms callable_strict
  by (auto simp: accessor_conflict_def es_differs_def desc_of_simps value_field_def desc_ok_def)

text \<open>The checks and the update behind the first two checks.\<close>

lemma update_property_es:
  assumes prev: "prop_ok prev" and desc: "desc_ok prop" "prop_value prop \<noteq> Number_value NaN"
  shows "case es_change (desc_of prop) (prop_of prev) of
      None \<Rightarrow> update_property env h v key (In_hash a) prev prop = throw (redefine_error key) h
    | Some q \<Rightarrow> prop_of (new_prop prev prop) = q \<and>
        update_property env h v key (In_hash a) prev prop = ok v (put_prop h a key (new_prop prev prop))"
proof -
  have type: "prop_type prev \<noteq> NJS_PROPERTY_HANDLER" using prev by (simp add: prop_ok_def)
  have applied: "apply_descriptor env h v key (In_hash a) (if njs_is_generic_descriptor prop \<or>
        njs_is_data_descriptor prev = njs_is_data_descriptor prop then prev else convert_property prev) prop =
      ok v (put_prop h a key (new_prop prev prop))"
    using type by (subst apply_simple) (auto simp: new_prop_def Let_def put_place_def convert_property_def)
  have result: ?thesis
    if "es_change (desc_of prop) (prop_of prev) = (if c then None else Some (prop_of (new_prop prev prop)))"
      "update_property env h v key (In_hash a) prev prop =
        (if c then throw (redefine_error key) h else ok v (put_prop h a key (new_prop prev prop)))" for c
    using that by simp
  note simps = es_change_def Let_def desc_kinds [OF desc(1)] update_property_def njs_is_generic_descriptor_def
  show ?thesis
  proof (cases "njs_is_data_descriptor prev")
    case data: True
    then have p: "prop_of prev = Es_data (prop_value prev) (attr (prop_writable prev)) (attr (prop_enumerable prev))
        (attr (prop_configurable prev))" by (simp add: prop_of_def)
    show ?thesis
    proof (cases "njs_is_accessor_descriptor prop")
      case True
      then have "\<not> njs_is_data_descriptor prop" using desc(1) by (simp add: desc_ok_def)
      with True data applied show ?thesis
        by (intro result [of "\<not> attr (prop_configurable prev)"])
          (simp_all add: simps p prop_of_new_to_accessor [OF prev desc(1)] desc_of_simps)
    next
      case False
      have generic: "\<not> data_conflict prev prop" if "\<not> njs_is_data_descriptor prop"
        using that by (auto simp: data_conflict_def njs_is_data_descriptor_def)
      show ?thesis
      proof (intro result [of "data_conflict prev prop"])
        show "es_change (desc_of prop) (prop_of prev) =
            (if data_conflict prev prop then None else Some (prop_of (new_prop prev prop)))"
          unfolding es_change_def p es_prop.case data_conflict_es [OF type desc(2)] Let_def
          using False data by (simp add: desc_kinds [OF desc(1)] prop_of_new_data [OF prev desc(1)] desc_of_simps)
      qed (use generic False data applied in \<open>auto simp: update_property_def njs_is_generic_descriptor_def\<close>)
    qed
  next
    case accessor: False
    then have p: "prop_of prev = Es_accessor (prop_getter prev) (prop_setter prev) (attr (prop_enumerable prev))
        (attr (prop_configurable prev))" by (simp add: prop_of_def)
    show ?thesis
    proof (cases "njs_is_data_descriptor prop")
      case True
      with accessor applied show ?thesis
        by (intro result [of "\<not> attr (prop_configurable prev)"])
          (simp_all add: simps p prop_of_new_to_data [OF prev desc(1)] desc_of_simps)
    next
      case False
      have generic: "\<not> accessor_conflict prev prop" if "\<not> njs_is_accessor_descriptor prop"
        using that desc(1)
        by (auto simp: accessor_conflict_def njs_is_accessor_descriptor_def desc_ok_def callable_def)
      show ?thesis
      proof (intro result [of "accessor_conflict prev prop"])
        show "es_change (desc_of prop) (prop_of prev) =
            (if accessor_conflict prev prop then None else Some (prop_of (new_prop prev prop)))"
          unfolding es_change_def p es_prop.case accessor_conflict_es [OF desc(1)] Let_def
          using False accessor
          by (simp add: desc_kinds [OF desc(1)] prop_of_new_accessor [OF prev desc(1)] desc_of_simps)
      qed (use generic False accessor applied in \<open>auto simp: update_property_def njs_is_generic_descriptor_def\<close>)
    qed
  qed
qed

lemma complete_descriptor_es:
  assumes "desc_ok prop"
  shows "prop_ok (complete_descriptor prop)" "prop_of (complete_descriptor prop) = es_create (desc_of prop)"
proof -
  have kinds: "njs_is_accessor_descriptor prop \<Longrightarrow> prop_writable prop = NJS_ATTRIBUTE_UNSET \<and> prop_value prop = Invalid"
    using assms by (auto simp: desc_ok_def njs_is_data_descriptor_def)
  have fields: "\<not> njs_is_accessor_descriptor prop \<Longrightarrow> prop_getter prop = Invalid \<and> prop_setter prop = Invalid"
    using assms by (auto simp: desc_ok_def njs_is_accessor_descriptor_def callable_def)
  have valid: "\<not> njs_is_valid (prop_getter prop) \<Longrightarrow> prop_getter prop = Invalid"
    "\<not> njs_is_valid (prop_setter prop) \<Longrightarrow> prop_setter prop = Invalid"
    using assms by (auto simp: desc_ok_def)
  show "prop_ok (complete_descriptor prop)"
    using assms kinds fields
    by (auto simp: prop_ok_def complete_descriptor_def Let_def desc_ok_def)
  show "prop_of (complete_descriptor prop) = es_create (desc_of prop)"
    using assms kinds fields
    by (cases "prop_writable prop"; cases "prop_enumerable prop"; cases "prop_configurable prop")
      (auto simp: prop_of_def complete_descriptor_def Let_def es_create_def desc_kinds desc_of_simps value_or
        njs_is_data_descriptor_def)
qed

definition own_prop :: "heap \<Rightarrow> nat \<Rightarrow> bytes \<Rightarrow> es_prop option" where
  "own_prop h a k =
     (case entry h a k of
        None \<Rightarrow> None
      | Some p \<Rightarrow> if prop_type p = NJS_WHITEOUT then None else Some (prop_of p))"



end
