(* ===== verification/Njs_Object_Behaviour.thy ===== *)
theory Njs_Object_Behaviour
  imports Njs_Object_Es
begin

text \<open>
  What the operations do to a single property: reading, writing, deleting, freezing, and the
  descriptors of properties.
\<close>

section \<open>Reading and writing\<close>

lemma ordinary_object: "ordinary h v \<Longrightarrow> \<not> njs_is_primitive v \<and> address v < length h"
  by (auto elim: ordinaryE)

lemma ordinary_put: "ordinary (put_prop h a k p) v = ordinary h v"
proof (cases v)
  case (Object t b)
  then show ?thesis
    by (cases "b < length h") (simp_all add: ordinary_def put_prop_def nth_upd_object)
qed (simp_all add: ordinary_def)

text \<open>An object with a property that can be written and configured, for the examples.\<close>

definition open_a :: njs_object_prop where
  "open_a = njs_object_prop_alloc (text_string ''a'') Null_value NJS_ATTRIBUTE_TRUE"

definition open_heap :: heap where
  "open_heap =
     [(plain_object sample_env)\<lparr>obj_proto := None\<rparr>,
      (plain_object sample_env)\<lparr>obj_hash := [(ascii ''a'', open_a)], obj_proto := None\<rparr>]"

lemma open_heap_simps:
  "length open_heap = 2" "open_heap ! 0 = (plain_object sample_env)\<lparr>obj_proto := None\<rparr>"
  "open_heap ! Suc 0 = (plain_object sample_env)\<lparr>obj_hash := [(ascii ''a'', open_a)], obj_proto := None\<rparr>"
  by (simp_all add: open_heap_def)

lemma open_sample:
  "ordinary open_heap (Object NJS_OBJECT (Suc 0))" "entry open_heap (Suc 0) (ascii ''a'') = Some open_a" "prop_ok open_a"
  "prop_writable open_a = NJS_ATTRIBUTE_TRUE" "prop_configurable open_a = NJS_ATTRIBUTE_TRUE"
  "prop_value open_a = Null_value" "njs_is_data_descriptor open_a" "str_start (text_string s) = ascii s"
  "obj_proto (open_heap ! Suc 0) = None" "obj_extensible (open_heap ! Suc 0)"
  by (simp_all add: ordinary_def open_heap_simps plain_object_def prop_ok_def open_a_def njs_object_prop_alloc_def
      njs_is_data_descriptor_def text_string_def)

text \<open>
  C6. Assigning to a data property an ordinary object has stores the value, which reading
  returns, if the property can be written, and is a \<open>TypeError\<close> that changes nothing if not.
\<close>

theorem assign_then_read:
  assumes "ordinary h v" "entry h (address v) (str_start name) = Some p" "prop_ok p" "njs_is_data_descriptor p"
    and "njs_is_valid x"
  shows "if attr (prop_writable p) then
      \<exists>h'. njs_value_property_set env h v (String name) x = ok v h' \<and>
        h' = put_prop h (address v) (str_start name) (p\<lparr>prop_value := x\<rparr>) \<and>
        njs_value_property env h' v (String name) = ok (True, x, v) h'
    else
      njs_value_property_set env h v (String name) x =
        throw (Type_error (ascii ''Cannot assign to read-only property \"'' @ str_start name @
          ascii ''\" of '' @ njs_type_string v)) h \<and>
      njs_value_property env h v (String name) = ok (True, prop_value p, v) h"
proof -
  have type: "prop_type p = NJS_PROPERTY" using assms(3) by (simp add: prop_ok_def)
  note object = ordinary_object [OF assms(1)]
  have read: "njs_value_property env h' v (String name) = ok (True, prop_value q, v) h'"
    if "ordinary h' v" "entry h' (address v) (str_start name) = Some q" "prop_type q = NJS_PROPERTY"
      "njs_is_data_descriptor q" for h' q
    using own_found [OF that(1,2)] that(3,4) by (simp add: njs_value_property_def)
  show ?thesis
  proof (cases "attr (prop_writable p)")
    case True
    have "njs_value_property_set env h v (String name) x =
        ok v (put_prop h (address v) (str_start name) (p\<lparr>prop_value := x\<rparr>))"
      using True object type assms(4) own_found [OF assms(1,2)]
      by (simp add: njs_value_property_set_def assign_property_def store_property_def)
    moreover have "njs_value_property env (put_prop h (address v) (str_start name) (p\<lparr>prop_value := x\<rparr>)) v (String name) =
        ok (True, x, v) (put_prop h (address v) (str_start name) (p\<lparr>prop_value := x\<rparr>))"
      using read [of "put_prop h (address v) (str_start name) (p\<lparr>prop_value := x\<rparr>)" "p\<lparr>prop_value := x\<rparr>"]
        assms(1,5) object type by (simp add: ordinary_put put_prop_same njs_is_data_descriptor_def)
    ultimately show ?thesis using True by simp
  next
    case False
    then show ?thesis
      using object type assms(4) own_found [OF assms(1,2)] read [OF assms(1,2) type assms(4)]
      by (simp add: njs_value_property_set_def assign_property_def)
  qed
qed

theorem assign_then_read_witness:
  "\<exists>h'. njs_value_property_set sample_env open_heap (Object NJS_OBJECT 1) (String (text_string ''a'')) (Boolean True) =
     ok (Object NJS_OBJECT 1) h' \<and>
     njs_value_property sample_env h' (Object NJS_OBJECT 1) (String (text_string ''a'')) =
       ok (True, Boolean True, Object NJS_OBJECT 1) h'"
  using assign_then_read [of open_heap "Object NJS_OBJECT 1" "text_string ''a''" open_a "Boolean True" sample_env]
  by (simp add: open_sample del: ascii_simps)

definition deleted :: "njs_object_prop \<Rightarrow> njs_object_prop" where
  "deleted p = p\<lparr>prop_type := NJS_WHITEOUT, prop_value := Invalid\<rparr>"

definition revived :: "njs_object_prop \<Rightarrow> njs_value \<Rightarrow> njs_object_prop" where
  "revived p x =
     p\<lparr>prop_value := x, prop_writable := NJS_ATTRIBUTE_TRUE, prop_enumerable := NJS_ATTRIBUTE_TRUE,
       prop_configurable := NJS_ATTRIBUTE_TRUE\<rparr>"

lemma own_query_own: "own_query q name a\<lparr>pq_value := x, pq_own_whiteout := w, pq_own := True\<rparr> =
    own_query q name a\<lparr>pq_value := x, pq_own_whiteout := w\<rparr>"
  by (simp add: own_query_def njs_property_query_init_def)

lemma own_deleted:
  assumes "ordinary h v" "entry h (address v) (str_start name) = Some p" "prop_type p = NJS_WHITEOUT"
    and "own \<or> obj_proto (h ! address v) = None"
  shows "njs_property_query env (njs_property_query_init q own) h v (String name) =
    ok (False, (own_query q name (address v))\<lparr>pq_value := Some (In_hash (address v), p),
      pq_own_whiteout := Some (address v), pq_own := own\<rparr>, v) h"
  unfolding ordinary_query(1) [OF assms(1)]
  by (subst query_loop.simps)
    (use assms(2-4) in \<open>auto simp: ordinary_query(2) [OF assms(1)] Let_def own_query_own\<close>)



section \<open>Frozen objects\<close>

lemma freeze_prop_simps [simp]:
  "prop_configurable (freeze_prop p) = NJS_ATTRIBUTE_FALSE" "prop_type (freeze_prop p) = prop_type p"
  "prop_value (freeze_prop p) = prop_value p"
  "njs_is_accessor_descriptor (freeze_prop p) = njs_is_accessor_descriptor p"
  by (simp_all add: freeze_prop_def njs_is_accessor_descriptor_def)

lemma freeze_prop_writable:
  assumes "\<not> (njs_is_data_descriptor p \<and> njs_is_accessor_descriptor p)"
  shows "\<not> (njs_is_data_descriptor (freeze_prop p) \<and> attr (prop_writable (freeze_prop p)))"
  using assms by (auto simp: freeze_prop_def njs_is_data_descriptor_def)

lemma frozen_object:
  assumes "a < length h"
  shows "map_props f (prevent_extensions h a) a ! a =
    (h ! a)\<lparr>obj_hash := map (\<lambda>(k, p). (k, f p)) (obj_hash (h ! a)), obj_extensible := False\<rparr>"
  using assms by (simp add: map_props_def prevent_extensions_def upd_object_def)



section \<open>Descriptors\<close>

text \<open>The table of a descriptor object.\<close>

definition descriptor_fields :: "njs_object_prop \<Rightarrow> (string \<times> njs_value) list" where
  "descriptor_fields p =
     (if njs_is_data_descriptor p then
        [(''value'', prop_value p), (''writable'', Boolean (prop_writable p = NJS_ATTRIBUTE_TRUE))]
      else [(''get'', prop_getter p), (''set'', prop_setter p)]) @
     [(''enumerable'', Boolean (prop_enumerable p = NJS_ATTRIBUTE_TRUE)),
      (''configurable'', Boolean (prop_configurable p = NJS_ATTRIBUTE_TRUE))]"

definition with_fields :: "env \<Rightarrow> (string \<times> njs_value) list \<Rightarrow> njs_object" where
  "with_fields env fs =
     (plain_object env)\<lparr>obj_hash :=
       map (\<lambda>(name, v). (ascii name, njs_object_prop_alloc (text_string name) v NJS_ATTRIBUTE_TRUE)) fs\<rparr>"

lemma ascii_eq [simp]: "ascii s = ascii t \<longleftrightarrow> s = t"
proof -
  have "inj (\<lambda>c. of_nat (of_char c) :: u8)"
    by (rule injI) (simp add: word_of_nat_eq_iff take_bit_nat_eq_self)
  then show ?thesis by (simp add: ascii_def inj_map_eq_map)
qed

lemma insert_field_append:
  assumes "name \<notin> fst ` set fs"
  shows "insert_field name v (length h) (h @ [with_fields env fs]) =
    ok () (h @ [with_fields env (fs @ [(name, v)])])"
proof -
  have "map_of (map (\<lambda>(name, v). (ascii name, f name v)) fs) (ascii name) = None" for f :: "string \<Rightarrow> njs_value \<Rightarrow> njs_object_prop"
    using assms by (induction fs) auto
  moreover have "AList.update (ascii name) q (map (\<lambda>(name, v). (ascii name, f name v)) fs) =
      map (\<lambda>(name, v). (ascii name, f name v)) fs @ [(ascii name, q)]" for q and f :: "string \<Rightarrow> njs_value \<Rightarrow> njs_object_prop"
    using assms by (induction fs) auto
  ultimately show ?thesis
    by (simp add: insert_field_def insert_prop_def put_prop_def upd_object_def with_fields_def)
qed

lemma descriptor_object_fields:
  "descriptor_object env h p = ok (Object NJS_OBJECT (length h)) (h @ [with_fields env (descriptor_fields p)])"
proof -
  have "njs_object_alloc env h = (length h, h @ [with_fields env []])"
    by (simp add: njs_object_alloc_def with_fields_def plain_object_def)
  then show ?thesis
    by (simp add: descriptor_object_def insert_field_append descriptor_fields_def)
qed

lemma with_fields_property:
  assumes "a < length h" "obj_proto (h ! a) = None" "a = env_prototype env NJS_OBJECT"
    "map_of (obj_hash (h ! a)) (ascii name) = None" "map_of (obj_shared_hash (h ! a)) (ascii name) = None"
  shows "njs_object_property env (h @ [with_fields env fs]) (Object NJS_OBJECT (length h)) (ascii name) =
    ok (case map_of fs name of None \<Rightarrow> (False, Undefined) | Some v \<Rightarrow> (True, v)) (h @ [with_fields env fs])"
proof -
  have hash: "map_of (obj_hash (with_fields env fs)) (ascii name) =
      map_option (\<lambda>v. njs_object_prop_alloc (text_string name) v NJS_ATTRIBUTE_TRUE) (map_of fs name)"
    by (induction fs) (auto simp: with_fields_def)
  have object: "obj_shared_hash (with_fields env fs) = []" "obj_proto (with_fields env fs) = Some a"
    using assms(3) by (simp_all add: with_fields_def plain_object_def)
  have above: "find_in_chain (h @ [with_fields env fs]) (ascii name) a = Some None"
    using assms by (subst find_in_chain.simps) (simp add: nth_append)
  show ?thesis
    using above
    by (subst njs_object_property_def, subst find_in_chain.simps)
      (simp add: hash object njs_is_data_descriptor_def njs_object_prop_alloc_def split: option.split)
qed

text \<open>Reading the descriptor back gives the property.\<close>

definition plain_prototype :: "env \<Rightarrow> heap \<Rightarrow> bool" where
  "plain_prototype env h \<longleftrightarrow>
     (let obj = h ! env_prototype env NJS_OBJECT
      in env_prototype env NJS_OBJECT < length h \<and> obj_proto obj = None \<and>
         list_all (\<lambda>name. map_of (obj_hash obj) (ascii name) = None \<and> map_of (obj_shared_hash obj) (ascii name) = None)
           [''value'', ''writable'', ''get'', ''set''])"

lemma attribute_boolean:
  "w \<noteq> NJS_ATTRIBUTE_UNSET \<Longrightarrow> of_bool_attr (w = NJS_ATTRIBUTE_TRUE) = w"
  by (cases w) auto

lemma with_fields_own:
  assumes "map_of fs name = Some v"
  shows "njs_object_property env (h @ [with_fields env fs]) (Object NJS_OBJECT (length h)) (ascii name) =
    ok (True, v) (h @ [with_fields env fs])"
proof -
  have "map_of (obj_hash (with_fields env fs)) (ascii name) =
      Some (njs_object_prop_alloc (text_string name) v NJS_ATTRIBUTE_TRUE)"
    using assms by (induction fs) (auto simp: with_fields_def split: if_splits)
  then show ?thesis
    by (subst njs_object_property_def, subst find_in_chain.simps)
      (simp add: njs_is_data_descriptor_def njs_object_prop_alloc_def)
qed

lemma descriptor_read:
  assumes "prop_ok p" "plain_prototype env h" "h' = h @ [with_fields env (descriptor_fields p)]"
  shows "described_property env h' name (Object NJS_OBJECT (length h)) NJS_OBJECT_PROP_DESCRIPTOR =
    ok (p\<lparr>prop_name := name\<rparr>) h'"
proof -
  have read: "njs_object_property env h' (Object NJS_OBJECT (length h)) (ascii n) =
      ok (case map_of (descriptor_fields p) n of None \<Rightarrow> (False, Undefined) | Some v \<Rightarrow> (True, v)) h'"
    if "n \<in> set [''value'', ''writable'', ''get'', ''set'', ''enumerable'', ''configurable'']" for n
  proof (cases "map_of (descriptor_fields p) n")
    case None
    then have "n \<in> set [''value'', ''writable'', ''get'', ''set'']"
      using that by (auto simp: descriptor_fields_def split: if_splits)
    with assms(2) None show ?thesis
      using with_fields_property [of "env_prototype env NJS_OBJECT" h env n "descriptor_fields p"]
      by (auto simp: assms(3) plain_prototype_def Let_def simp del: ascii_simps)
  next
    case (Some x)
    then show ?thesis using with_fields_own [OF Some, of env h] by (simp add: assms(3))
  qed
  note simps = described_property_def njs_descriptor_prop_def descriptor_function_def descriptor_attribute_def
    njs_object_prop_alloc_def Let_def read descriptor_fields_def attribute_boolean
  show ?thesis
  proof (cases "njs_is_data_descriptor p")
    case True
    then have "prop_type p = NJS_PROPERTY" "prop_getter p = Invalid" "prop_setter p = Invalid"
      "prop_writable p \<noteq> NJS_ATTRIBUTE_UNSET" "prop_enumerable p \<noteq> NJS_ATTRIBUTE_UNSET"
      "prop_configurable p \<noteq> NJS_ATTRIBUTE_UNSET"
      using assms(1) by (auto simp: prop_ok_def njs_is_data_descriptor_def)
    with True show ?thesis
      by (simp add: simps del: ascii_simps)
  next
    case False
    then have "callable (prop_getter p)" "callable (prop_setter p)" "prop_writable p = NJS_ATTRIBUTE_UNSET"
      "prop_value p = Invalid" "prop_type p = NJS_PROPERTY" "prop_enumerable p \<noteq> NJS_ATTRIBUTE_UNSET"
      "prop_configurable p \<noteq> NJS_ATTRIBUTE_UNSET"
      using assms(1) by (auto simp: prop_ok_def njs_is_data_descriptor_def)
    moreover from this have "prop_getter p \<noteq> Invalid" "prop_getter p \<noteq> Undefined \<longrightarrow> njs_is_function (prop_getter p)"
      "prop_setter p \<noteq> Undefined \<longrightarrow> njs_is_function (prop_setter p)"
      by (auto simp: callable_def njs_is_function_or_undefined_def)
    ultimately show ?thesis
      using False by (auto simp: simps simp del: ascii_simps)
  qed
qed

text \<open>
  Defining a property again as it is changes nothing. \<open>new_prop p p\<close> is what the update
  makes of the property.
\<close>

lemma new_prop_same:
  assumes "prop_ok p"
  shows "new_prop p (p\<lparr>prop_name := name\<rparr>) = p"
  using assms
  by (cases p) (auto simp: new_prop_def Let_def set_functions_def set_attributes_def prop_ok_def
      njs_is_data_descriptor_def)

lemma put_prop_triv:
  assumes "entry h a k = Some p"
  shows "put_prop h a k p = h"
  using assms by (simp add: put_prop_def upd_object_def update_triv)

lemma strict_equal_refl: "njs_is_valid v \<Longrightarrow> v \<noteq> Number_value NaN \<Longrightarrow> njs_values_strict_equal v v"
  by (cases v) (auto simp: njs_string_eq_def)

lemma callable_equal: "callable v \<Longrightarrow> njs_values_strict_equal v v"
  by (rule strict_equal_refl) (auto simp: callable_def njs_is_function_or_undefined_def)

lemma redefine_same:
  assumes "prop_ok p" "prop_value p \<noteq> Number_value NaN" "entry h a k = Some p" "pq_text pq = k" "\<not> pq_shared pq"
  shows "redefine_property env h v pq (In_hash a) p (p\<lparr>prop_name := name\<rparr>) = ok v h"
proof -
  let ?q = "p\<lparr>prop_name := name\<rparr>"
  have type: "prop_type p \<noteq> NJS_PROPERTY_HANDLER" using assms(1) by (simp add: prop_ok_def)
  have kinds: "njs_is_data_descriptor ?q = njs_is_data_descriptor p"
    by (simp add: njs_is_data_descriptor_def)
  have applied: "apply_descriptor env h v k (In_hash a) p ?q = ok v h"
    using type new_prop_same [OF assms(1), of name] put_prop_triv [OF assms(3)]
    by (subst apply_simple) (simp_all add: new_prop_def Let_def put_place_def kinds)
  have "\<not> data_conflict p ?q" if "njs_is_data_descriptor p"
    using assms(1,2) that by (auto simp: data_conflict_def prop_ok_def njs_is_data_descriptor_def strict_equal_refl
        intro: strict_equal_refl)
  moreover have "\<not> accessor_conflict p ?q" if "\<not> njs_is_data_descriptor p"
    using assms(1) that callable_equal
    by (auto simp: accessor_conflict_def prop_ok_def njs_is_data_descriptor_def)
  ultimately show ?thesis
    using applied assms(4,5) by (auto simp: redefine_property_def update_property_def kinds)
qed

text \<open>
  C5. \<open>getOwnPropertyDescriptor\<close> and \<open>defineProperty\<close> are inverse: the descriptor object of a
  property, read as a descriptor, is the property with all its fields, and defining the
  property by it succeeds and leaves the object and everything else as it is.
\<close>

theorem descriptor_roundtrip:
  assumes "ordinary h v" "entry h (address v) (str_start name) = Some p" "prop_ok p" "plain_prototype env h"
    and "obj_extensible (h ! address v)" "prop_value p \<noteq> Number_value NaN"
    and h': "h' = h @ [with_fields env (descriptor_fields p)]" and d: "d = Object NJS_OBJECT (length h)"
  shows "njs_object_get_own_property_descriptor env h [Undefined, v, String name] = ok d h' \<and>
    described_property env h' name d NJS_OBJECT_PROP_DESCRIPTOR = ok (p\<lparr>prop_name := name\<rparr>) h' \<and>
    njs_object_define_property env h' [Undefined, v, String name, d] = ok v h'"
proof -
  have type: "prop_type p = NJS_PROPERTY" using assms(3) by (simp add: prop_ok_def)
  obtain t a where v: "v = Object t a" "a < length h" using assms(1) by (rule ordinaryE)
  have ordinary: "ordinary h' v" using assms(1) v by (simp add: ordinary_def h' nth_append)
  have entry: "entry h' (address v) (str_start name) = Some p" using assms(2) v by (simp add: h' nth_append)
  have get: "njs_object_get_own_property_descriptor env h [Undefined, v, String name] = ok d h'"
    using own_found [OF assms(1,2)] type v
    by (simp add: njs_object_get_own_property_descriptor_def njs_arg_def njs_object_prop_descriptor_def
        descriptor_object_fields d h')
  have read: "described_property env h' name d NJS_OBJECT_PROP_DESCRIPTOR = ok (p\<lparr>prop_name := name\<rparr>) h'"
    unfolding d by (rule descriptor_read [OF assms(3,4) h'])
  have "njs_object_prop_define env h' v name d NJS_OBJECT_PROP_DESCRIPTOR = ok v h'"
    using own_found [OF ordinary entry] type read redefine_same [OF assms(3,6) entry]
    by (simp add: njs_object_prop_define_def define_described_def prop_now_def entry Let_def)
  then have "njs_object_define_property env h' [Undefined, v, String name, d] = ok v h'"
    using assms(5) v by (simp add: njs_object_define_property_def njs_arg_def d h' nth_append)
  with get read show ?thesis by simp
qed

theorem descriptor_roundtrip_witness:
  "\<exists>d h'. njs_object_get_own_property_descriptor sample_env open_heap
       [Undefined, Object NJS_OBJECT 1, String (text_string ''a'')] = ok d h' \<and>
     njs_object_define_property sample_env h' [Undefined, Object NJS_OBJECT 1, String (text_string ''a''), d] =
       ok (Object NJS_OBJECT 1) h'"
  using descriptor_roundtrip [of open_heap "Object NJS_OBJECT 1" "text_string ''a''" open_a sample_env]
  by (simp add: open_sample plain_prototype_def open_heap_simps plain_object_def del: ascii_simps)

end
