(* ===== verification/Njs_Json.thy ===== *)
theory Njs_Json
  imports Njs_Object_Builtin
begin

text \<open>
  Reading JSON texts, \<open>src/src/njs_json.c\<close> from \<open>njs_json_parse\<close> to \<open>njs_json_skip_space\<close>, with
  the parts of \<open>njs_array.c\<close> and \<open>njs_strtod.c\<close> it uses. A cursor is the list of the bytes from it
  to the end of the text.
\<close>

section \<open>Arrays\<close>

definition njs_array_alloc :: "env \<Rightarrow> heap \<Rightarrow> nat \<Rightarrow> nat \<Rightarrow> nat run" where
  "njs_array_alloc env h len spare =
     (let sz = len + spare
      in if len > 0xffffffff then throw (Range_error (ascii ''Invalid array length'')) h
         else if sz > NJS_ARRAY_MAX_LENGTH then throw Memory_error h
         else ok (length h) (h @ [(plain_object env)
           \<lparr>obj_shared_hash := env_array_instance_hash env, obj_proto := Some (env_prototype env NJS_ARRAY),
            obj_type := NJS_ARRAY, obj_size := sz, obj_start := replicate len (env_fresh_cell env)\<rparr>]))"

definition njs_array_add :: "heap \<Rightarrow> nat \<Rightarrow> njs_value \<Rightarrow> unit run" where
  "njs_array_add h a v =
     (case njs_array_expand (h ! a) 0 1 of
        Inl e \<Rightarrow> throw e h
      | Inr array \<Rightarrow> ok () (h[a := array\<lparr>obj_start := obj_start array @ [v]\<rparr>]))"

section \<open>The extent of a number\<close>

text \<open>
  Where \<open>njs_strtod\<close> stops; \<^const>\<open>None\<close> if there is no digit, and then the cursor stays. The
  value of the digits is a parameter, the result of \<^const>\<open>env_strtod\<close>.
\<close>

definition digit :: "u8 \<Rightarrow> bool" where
  "digit c \<longleftrightarrow> c - 0x30 \<le> 9"

definition strtod_exponent :: "bytes \<Rightarrow> bytes" where
  "strtod_exponent p =
     (case p of
        [] \<Rightarrow> p
      | c # e \<Rightarrow>
          if e \<noteq> [] \<and> (c = 0x65 \<or> c = 0x45) then
            let e = (if tl e \<noteq> [] \<and> (hd e = 0x2D \<or> hd e = 0x2B) then tl e else e)
            in if digit (hd e) then dropWhile digit e else p
          else p)"

definition njs_strtod_end :: "bytes \<Rightarrow> bytes option" where
  "njs_strtod_end start =
     (let whole = takeWhile digit start; p = dropWhile digit start;
          point = p \<noteq> [] \<and> hd p = 0x2E;
          frac = (if point then takeWhile digit (tl p) else []);
          p = (if point then dropWhile digit (tl p) else p)
      in if whole = [] \<and> frac = [] then None else Some (strtod_exponent p))"

section \<open>Errors and white space\<close>

text \<open>An error at a position, given in bytes and shown in characters.\<close>

definition njs_json_parse_exception :: "bytes \<Rightarrow> string \<Rightarrow> nat \<Rightarrow> njs_error" where
  "njs_json_parse_exception text msg pos =
     (let len = njs_utf8_length (take pos text); len = (if len < 0 then 0 else len)
      in Syntax_error (ascii msg @ ascii '' at position '' @ integer_dec (nat len) []))"

abbreviation json_error :: "bytes \<Rightarrow> string \<Rightarrow> bytes \<Rightarrow> njs_error" where
  "json_error text msg p \<equiv> njs_json_parse_exception text msg (length text - length p)"

definition json_space :: "u8 \<Rightarrow> bool" where
  "json_space c \<longleftrightarrow> c = 0x20 \<or> c = 0x09 \<or> c = 0x0D \<or> c = 0x0A"

fun njs_json_skip_space :: "bytes \<Rightarrow> bytes" where
  "njs_json_skip_space [] = []"
| "njs_json_skip_space (c # p) = (if json_space c then njs_json_skip_space p else c # p)"

section \<open>Strings\<close>

datatype json_sw = sw_usual | sw_escape | sw_encoded1 | sw_encoded2 | sw_encoded3 | sw_encoded4

fun sw_next :: "json_sw \<Rightarrow> json_sw" where
  "sw_next sw_encoded1 = sw_encoded2"
| "sw_next sw_encoded2 = sw_encoded3"
| "sw_next sw_encoded3 = sw_encoded4"
| "sw_next state = sw_usual"

definition json_hex :: "u8 \<Rightarrow> bool" where
  "json_hex c \<longleftrightarrow> 0x30 \<le> c \<and> c \<le> 0x39 \<or> 0x41 \<le> c \<and> c \<le> 0x46 \<or> 0x61 \<le> c \<and> c \<le> 0x66"

definition json_escapes :: bytes where
  "json_escapes = ascii ''\"'' @ [0x5C] @ ascii ''/nrtbf''"

text \<open>The first loop of \<open>njs_json_parse_string\<close>: the surplus and the cursor at the ending quote mark.\<close>

fun json_scan :: "bytes \<Rightarrow> json_sw \<Rightarrow> nat \<Rightarrow> bytes \<Rightarrow> njs_error + nat \<times> bytes" where
  "json_scan text state surplus [] = Inl (json_error text ''Unexpected end of input'' [])"
| "json_scan text sw_usual surplus (ch # p) =
     (if ch = 0x22 then Inr (surplus, ch # p)
      else if ch = 0x5C then json_scan text sw_escape surplus p
      else if ch \<ge> 0x20 then json_scan text sw_usual surplus p
      else Inl (json_error text ''Forbidden source char'' (ch # p)))"
| "json_scan text sw_escape surplus (ch # p) =
     (if ch \<in> set json_escapes then json_scan text sw_usual (surplus + 1) p
      else if ch = 0x75 then json_scan text sw_encoded1 (surplus + 3) p
      else Inl (json_error text ''Unknown escape char'' (ch # p)))"
| "json_scan text state surplus (ch # p) =
     (if json_hex ch then json_scan text (sw_next state) surplus p
      else Inl (json_error text ''Invalid Unicode escape sequence'' (ch # p)))"

definition json_hex_value :: "u8 \<Rightarrow> u8" where
  "json_hex_value c =
     (let c = (c OR 0x20) - 0x30
      in if c > 9 then c + (0x30 - 0x61 + 10) else c)"

definition njs_json_unicode :: "bytes \<Rightarrow> u32" where
  "njs_json_unicode p = foldl (\<lambda>utf c. push_bit 4 utf OR ucast (json_hex_value c)) 0 (take 4 p)"

definition njs_string_surrogate_pair :: "u32 \<Rightarrow> u32 \<Rightarrow> u32" where
  "njs_string_surrogate_pair high low = 0x10000 + push_bit 10 (high - 0xd800) + (low - 0xdc00)"

text \<open>
  One turn of the second loop: the bytes written and the cursor. \<open>q\<close> ends before the ending
  quote mark; \<^const>\<open>None\<close> reads beyond it.
\<close>

abbreviation utf8_bytes :: "u32 \<Rightarrow> bytes" where
  "utf8_bytes u \<equiv> the (njs_utf8_encode u)"

definition json_unescape :: "u8 \<Rightarrow> u8 option" where
  "json_unescape ch =
     (if ch = 0x22 \<or> ch = 0x5C \<or> ch = 0x2F then Some ch
      else if ch = 0x6E then Some 0x0A
      else if ch = 0x72 then Some 0x0D
      else if ch = 0x74 then Some 0x09
      else if ch = 0x62 then Some 0x08
      else if ch = 0x66 then Some 0x0C
      else None)"

definition json_decode_unicode :: "bytes \<Rightarrow> (bytes \<times> bytes) option" where
  "json_decode_unicode p =
     (if length p < 4 then None
      else
        let utf = njs_json_unicode p; p = drop 4 p
        in if 0xd800 \<le> utf \<and> utf \<le> 0xdfff then
             if utf > 0xdbff \<or> take 2 p \<noteq> [0x5C, 0x75] then Some (utf8_bytes NJS_UTF8_REPLACEMENT, p)
             else
               let p = drop 2 p
               in if length p < 4 then None
                  else
                    let utf_low = njs_json_unicode p; p = drop 4 p
                    in if 0xdc00 \<le> utf_low \<and> utf_low \<le> 0xdfff then
                         Some (utf8_bytes (njs_string_surrogate_pair utf utf_low), p)
                       else if 0xd800 \<le> utf_low \<and> utf_low \<le> 0xdbff then
                         Some (utf8_bytes NJS_UTF8_REPLACEMENT @ utf8_bytes NJS_UTF8_REPLACEMENT, p)
                       else Some (utf8_bytes NJS_UTF8_REPLACEMENT @ utf8_bytes utf_low, p)
           else Some (utf8_bytes utf, p))"

fun json_decode_step :: "bytes \<Rightarrow> (bytes \<times> bytes) option" where
  "json_decode_step [] = None"
| "json_decode_step (ch # p) =
     (if ch \<noteq> 0x5C then Some ([ch], p)
      else
        case p of
          [] \<Rightarrow> None
        | ch # p \<Rightarrow>
            (case json_unescape ch of
               Some c \<Rightarrow> Some ([c], p)
             | None \<Rightarrow> json_decode_unicode p))"

lemma json_decode_step_length:
  "json_decode_step q = Some (out, q') \<Longrightarrow> length q' < length q"
  by (cases q rule: json_decode_step.cases)
    (auto simp: json_decode_unicode_def Let_def split: if_splits list.splits option.splits)

text \<open>The loop, which writes to \<open>room\<close> bytes of memory; a write behind them is \<^const>\<open>None\<close>.\<close>

function json_decode_loop :: "nat \<Rightarrow> bytes \<Rightarrow> bytes \<Rightarrow> bytes option" where
  "json_decode_loop room s q =
     (case json_decode_step q of
        None \<Rightarrow> None
      | Some (out, q') \<Rightarrow>
          if length (s @ out) > room then None
          else if q' = [] then Some (s @ out)
          else json_decode_loop room (s @ out) q')"
  by pat_completeness auto
termination
  by (relation "measure (\<lambda>(room, s, q). length q)") (auto dest!: json_decode_step_length)

declare json_decode_loop.simps [simp del]

definition njs_json_parse_string :: "bytes \<Rightarrow> bytes \<Rightarrow> njs_error + njs_string \<times> bytes" where
  "njs_json_parse_string text p =
     (let start = tl p
      in case json_scan text sw_usual 0 start of
           Inl e \<Rightarrow> Inl e
         | Inr (surplus, ending) \<Rightarrow>
             let segment = take (length start - length ending) start
             in case (if surplus \<noteq> 0 then json_decode_loop (length segment - surplus) [] segment
                      else Some segment) of
                  None \<Rightarrow> Inl Bad_access
                | Some start \<Rightarrow>
                    let len = njs_utf8_length start; len = (if len < 0 then 0 else len)
                    in case njs_string_new start (nat len) of
                         Inl e \<Rightarrow> Inl e
                       | Inr v \<Rightarrow> Inr (v, tl ending))"

section \<open>Numbers\<close>

text \<open>The numbers of the model have no negative zero.\<close>

fun number_neg :: "number \<Rightarrow> number" where
  "number_neg NaN = NaN"
| "number_neg Infinity = Neg_infinity"
| "number_neg Neg_infinity = Infinity"
| "number_neg (Finite q) = Finite (- q)"

definition njs_json_parse_number :: "env \<Rightarrow> bytes \<Rightarrow> bytes \<Rightarrow> njs_error + njs_value \<times> bytes" where
  "njs_json_parse_number env text p =
     (let minus = p \<noteq> [] \<and> hd p = 0x2D
      in if minus \<and> tl p = [] then Inl (json_error text ''Unexpected number'' p)
         else
           let start = (if minus then tl p else p); num = fst (env_strtod env start)
           in case njs_strtod_end start of
                Some p \<Rightarrow> Inr (Number_value (if minus then number_neg num else num), p)
              | None \<Rightarrow> Inl (json_error text ''Unexpected number'' start))"

section \<open>Values\<close>

text \<open>
  The loops over the members of an object and the elements of an array. \<open>value_at\<close> reads a
  value, \<open>p\<close> is the cursor at the opening bracket or at a comma; the result is the cursor
  behind the closing bracket.
\<close>

lemma run_bind_eq:
  "run_bind m f = Option.bind m (\<lambda>(r, h). case r of Inl e \<Rightarrow> throw e h | Inr x \<Rightarrow> f x h)"
  by (cases "(m, f)" rule: run_bind.cases) auto

lemma run_bind_mono [partial_function_mono]:
  assumes "mono_option m" "\<And>x h. mono_option (\<lambda>rec. f rec x h)"
  shows "mono_option (\<lambda>rec. run_bind (m rec) (f rec))"
  unfolding run_bind_eq
proof (intro bind_mono assms(1))
  fix y :: "(njs_error + 'c) \<times> heap"
  show "mono_option (\<lambda>rec. case y of (r, h) \<Rightarrow> case r of Inl e \<Rightarrow> throw e h | Inr x \<Rightarrow> f rec x h)"
    by (cases y; cases "fst y") (auto intro: assms(2) monotoneI option.leq_refl)
qed

partial_function (option) json_members_loop ::
  "bytes \<Rightarrow> (bytes \<Rightarrow> heap \<Rightarrow> (njs_value \<times> bytes) run) \<Rightarrow> nat \<Rightarrow> bool \<Rightarrow> bytes \<Rightarrow> heap \<Rightarrow> bytes run" where
  [code]: "json_members_loop text value_at object some p h =
     (let p = njs_json_skip_space (tl p)
      in if p = [] then throw (json_error text ''Unexpected end of input'' p) h
         else if hd p \<noteq> 0x22 then
           if hd p = 0x7D then
             if some then
               throw (njs_json_parse_exception text ''Trailing comma'' (length text - length p - 1)) h
             else ok (tl p) h
           else throw (json_error text ''Unexpected token'' p) h
         else
           run_bind (Some (njs_json_parse_string text p, h)) (\<lambda>(name, p) h.
             let p = njs_json_skip_space p
             in if p = [] \<or> hd p \<noteq> 0x3A then throw (json_error text ''Unexpected token'' p) h
                else
                  let p = njs_json_skip_space (tl p)
                  in if p = [] then throw (json_error text ''Unexpected end of input'' p) h
                     else
                       run_bind (value_at p h) (\<lambda>(v, p) h.
                         let h = put_prop h object (str_start name)
                                   (njs_object_prop_alloc name v NJS_ATTRIBUTE_TRUE);
                             p = njs_json_skip_space p
                         in if p = [] then throw (json_error text ''Unexpected end of input'' p) h
                            else if hd p = 0x2C then json_members_loop text value_at object True p h
                            else if hd p = 0x7D then ok (tl p) h
                            else throw (json_error text ''Unexpected token'' p) h)))"

partial_function (option) json_elements_loop ::
  "bytes \<Rightarrow> (bytes \<Rightarrow> heap \<Rightarrow> (njs_value \<times> bytes) run) \<Rightarrow> nat \<Rightarrow> bool \<Rightarrow> bytes \<Rightarrow> heap \<Rightarrow> bytes run" where
  [code]: "json_elements_loop text value_at array none p h =
     (let p = njs_json_skip_space (tl p)
      in if p = [] then throw (json_error text ''Unexpected end of input'' p) h
         else if hd p = 0x5D then
           if \<not> none then
             throw (njs_json_parse_exception text ''Trailing comma'' (length text - length p - 1)) h
           else ok (tl p) h
         else
           run_bind (value_at p h) (\<lambda>(v, p) h.
             run_bind (njs_array_add h array v) (\<lambda>_ h.
               let p = njs_json_skip_space p
               in if p = [] then throw (json_error text ''Unexpected end of input'' p) h
                  else if hd p = 0x2C then json_elements_loop text value_at array False p h
                  else if hd p = 0x5D then ok (tl p) h
                  else throw (json_error text ''Unexpected token'' p) h)))"

text \<open>\<open>left\<close> is \<open>ctx->depth - 1\<close>, the levels of objects and arrays still allowed.\<close>

fun njs_json_parse_value :: "env \<Rightarrow> bytes \<Rightarrow> nat \<Rightarrow> bytes \<Rightarrow> heap \<Rightarrow> (njs_value \<times> bytes) run"
and njs_json_parse_object :: "env \<Rightarrow> bytes \<Rightarrow> nat \<Rightarrow> bytes \<Rightarrow> heap \<Rightarrow> (njs_value \<times> bytes) run"
and njs_json_parse_array :: "env \<Rightarrow> bytes \<Rightarrow> nat \<Rightarrow> bytes \<Rightarrow> heap \<Rightarrow> (njs_value \<times> bytes) run" where
  "njs_json_parse_value env text left p h =
     (case p of
        [] \<Rightarrow> throw Bad_access h
      | c # _ \<Rightarrow>
          if c = 0x7B then njs_json_parse_object env text left p h
          else if c = 0x5B then njs_json_parse_array env text left p h
          else if c = 0x22 then
            run_bind (Some (njs_json_parse_string text p, h)) (\<lambda>(s, p) h. ok (String s, p) h)
          else if c = 0x74 \<and> take 4 p = ascii ''true'' then ok (Boolean True, drop 4 p) h
          else if c = 0x66 \<and> take 5 p = ascii ''false'' then ok (Boolean False, drop 5 p) h
          else if c = 0x6E \<and> take 4 p = ascii ''null'' then ok (Null_value, drop 4 p) h
          else if c \<le> 0x39 then Some (njs_json_parse_number env text p, h)
          else throw (json_error text ''Unexpected token'' p) h)"
| "njs_json_parse_object env text 0 p h = throw (json_error text ''Nested too deep'' p) h"
| "njs_json_parse_object env text (Suc left) p h =
     (case njs_object_alloc env h of
        (object, h) \<Rightarrow>
          run_bind (json_members_loop text (\<lambda>p h. njs_json_parse_value env text left p h) object False p h)
            (\<lambda>p h. ok (Object NJS_OBJECT object, p) h))"
| "njs_json_parse_array env text 0 p h = throw (json_error text ''Nested too deep'' p) h"
| "njs_json_parse_array env text (Suc left) p h =
     run_bind (njs_array_alloc env h 0 0) (\<lambda>array h.
       run_bind (json_elements_loop text (\<lambda>p h. njs_json_parse_value env text left p h) array True p h)
         (\<lambda>p h. ok (Object NJS_ARRAY array, p) h))"

declare njs_json_parse_value.simps [simp del]

definition NJS_JSON_MAX_DEPTH :: nat where
  "NJS_JSON_MAX_DEPTH = 32"

text \<open>
  \<open>JSON.parse\<close>. The walk over the value with a function given by the program
  (\<open>njs_json_parse_iterator\<close>) is an argument.
\<close>

definition njs_json_parse ::
  "env \<Rightarrow> (njs_value \<Rightarrow> njs_value \<Rightarrow> heap \<Rightarrow> njs_value run) \<Rightarrow> heap \<Rightarrow> njs_value list \<Rightarrow> njs_value run" where
  "njs_json_parse env revive h args =
     run_bind (case njs_arg args 1 of String s \<Rightarrow> ok s h | v \<Rightarrow> njs_value_to_string env h v) (\<lambda>s h.
       let text = str_start s; p = njs_json_skip_space text
       in if p = [] then throw (json_error text ''Unexpected end of input'' p) h
          else
            run_bind (njs_json_parse_value env text (NJS_JSON_MAX_DEPTH - 1) p h) (\<lambda>(v, p) h.
              let p = njs_json_skip_space p
              in if p \<noteq> [] then throw (json_error text ''Unexpected token'' p) h
                 else if njs_is_function (njs_arg args 2) \<and> njs_is_object v
                 then revive (njs_arg args 2) v h
                 else ok v h))"

end
