(* ===== verification/Njs_Json_Text.thy ===== *)
theory Njs_Json_Text
  imports Njs_Json "HOL-Library.Sublist"
begin

text \<open>
  Strings and numbers in JSON texts as njs reads them. They are those of RFC 8259, except that
  numbers are the decimal literals of JavaScript behind an optional minus: leading zeros, and a
  point without digits before it or after it, are accepted.
\<close>

section \<open>Strings\<close>

text \<open>The characters of a string in a text: as they are, escaped, or as a code unit of four digits.\<close>

datatype json_char = Plain u8 | Escaped u8 | Unit bytes

fun char_text :: "json_char \<Rightarrow> bytes" where
  "char_text (Plain c) = [c]"
| "char_text (Escaped c) = [0x5C, c]"
| "char_text (Unit ds) = 0x5C # 0x75 # ds"

fun char_ok :: "json_char \<Rightarrow> bool" where
  "char_ok (Plain c) \<longleftrightarrow> 0x20 \<le> c \<and> c \<noteq> 0x22 \<and> c \<noteq> 0x5C"
| "char_ok (Escaped c) \<longleftrightarrow> c \<in> set json_escapes"
| "char_ok (Unit ds) \<longleftrightarrow> length ds = 4 \<and> list_all json_hex ds"

abbreviation chars_text :: "json_char list \<Rightarrow> bytes" where
  "chars_text cs \<equiv> concat (map char_text cs)"

text \<open>
  The bytes they stand for. A pair of surrogates is one code point; the first of two high
  surrogates takes the second with it, whatever follows.
\<close>

definition high_surrogate :: "u32 \<Rightarrow> bool" where
  "high_surrogate u \<longleftrightarrow> 0xd800 \<le> u \<and> u \<le> 0xdbff"

definition low_surrogate :: "u32 \<Rightarrow> bool" where
  "low_surrogate u \<longleftrightarrow> 0xdc00 \<le> u \<and> u \<le> 0xdfff"

abbreviation replacement_bytes :: bytes where
  "replacement_bytes \<equiv> utf8_bytes NJS_UTF8_REPLACEMENT"

fun chars_bytes :: "json_char list \<Rightarrow> bytes" where
  "chars_bytes [] = []"
| "chars_bytes (Plain c # cs) = c # chars_bytes cs"
| "chars_bytes (Escaped c # cs) = the (json_unescape c) # chars_bytes cs"
| "chars_bytes (Unit ds # Unit es # cs) =
     (let u = njs_json_unicode ds; v = njs_json_unicode es
      in if high_surrogate u then
           (if low_surrogate v then utf8_bytes (njs_string_surrogate_pair u v)
            else if high_surrogate v then replacement_bytes @ replacement_bytes
            else replacement_bytes @ utf8_bytes v) @ chars_bytes cs
         else (if low_surrogate u then replacement_bytes else utf8_bytes u) @ chars_bytes (Unit es # cs))"
| "chars_bytes (Unit ds # cs) =
     (let u = njs_json_unicode ds
      in (if high_surrogate u \<or> low_surrogate u then replacement_bytes else utf8_bytes u) @ chars_bytes cs)"

fun surplus_of :: "json_char \<Rightarrow> nat" where
  "surplus_of (Plain c) = 0"
| "surplus_of (Escaped c) = 1"
| "surplus_of (Unit ds) = 3"

lemma scan_char:
  assumes "char_ok c"
  shows "json_scan text sw_usual n (char_text c @ p) = json_scan text sw_usual (n + surplus_of c) p"
proof (cases c)
  case (Unit ds)
  with assms obtain a b c d where "ds = [a, b, c, d]" "json_hex a" "json_hex b" "json_hex c" "json_hex d"
    by (auto simp: length_Suc_conv eval_nat_numeral)
  with Unit show ?thesis by (simp add: json_escapes_def)
qed (use assms in \<open>auto simp: json_escapes_def\<close>)

lemma scan_chars:
  assumes "list_all char_ok cs"
  shows "json_scan text sw_usual n (chars_text cs @ 0x22 # p) = Inr (n + sum_list (map surplus_of cs), 0x22 # p)"
  using assms by (induction cs arbitrary: n) (simp_all add: scan_char)

lemma scan_hex:
  assumes "json_scan text state n p = Inr r" "state \<notin> {sw_usual, sw_escape}"
  obtains c p' where "p = c # p'" "json_hex c" "json_scan text (sw_next state) n p' = Inr r"
  using assms by (cases "(text, state, n, p)" rule: json_scan.cases) (auto split: if_splits)

lemma scan_encoded:
  assumes "json_scan text sw_encoded1 n p = Inr r"
  obtains ds p' where "p = ds @ p'" "length ds = 4" "list_all json_hex ds" "json_scan text sw_usual n p' = Inr r"
proof -
  obtain a p1 where 1: "p = a # p1" "json_hex a" "json_scan text sw_encoded2 n p1 = Inr r"
    using assms by (rule scan_hex) auto
  obtain b p2 where 2: "p1 = b # p2" "json_hex b" "json_scan text sw_encoded3 n p2 = Inr r"
    using 1(3) by (rule scan_hex) auto
  obtain c p3 where 3: "p2 = c # p3" "json_hex c" "json_scan text sw_encoded4 n p3 = Inr r"
    using 2(3) by (rule scan_hex) auto
  obtain d p4 where 4: "p3 = d # p4" "json_hex d" "json_scan text sw_usual n p4 = Inr r"
    using 3(3) by (rule scan_hex) auto
  show thesis by (rule that [of "[a, b, c, d]" p4]) (use 1 2 3 4 in simp_all)
qed

lemma scan_first:
  assumes "json_scan text sw_usual n p = Inr r"
  shows "(\<exists>p'. p = 0x22 # p' \<and> r = (n, p)) \<or>
    (\<exists>c m p'. char_ok c \<and> p = char_text c @ p' \<and> json_scan text sw_usual m p' = Inr r)"
proof (cases p)
  case (Cons ch q)
  consider "ch = 0x22" | "ch = 0x5C" | "0x20 \<le> ch" "ch \<noteq> 0x22" "ch \<noteq> 0x5C"
    using assms Cons by (auto split: if_splits)
  then show ?thesis
  proof cases
    case 1
    then show ?thesis using assms Cons by simp
  next
    case 2
    then have escape: "json_scan text sw_escape n q = Inr r" using assms Cons by simp
    then obtain e q' where q: "q = e # q'" by (cases q) auto
    show ?thesis
    proof (cases "e \<in> set json_escapes")
      case True
      then have "char_ok (Escaped e)" "json_scan text sw_usual (n + 1) q' = Inr r"
        using escape q by simp_all
      moreover have "p = char_text (Escaped e) @ q'" using Cons 2 q by simp
      ultimately show ?thesis by blast
    next
      case False
      then have e: "e = 0x75" "json_scan text sw_encoded1 (n + 3) q' = Inr r"
        using escape q by (auto split: if_splits)
      obtain ds p' where "q' = ds @ p'" "length ds = 4" "list_all json_hex ds"
        "json_scan text sw_usual (n + 3) p' = Inr r" using e(2) by (rule scan_encoded)
      then have "char_ok (Unit ds)" "json_scan text sw_usual (n + 3) p' = Inr r" "p = char_text (Unit ds) @ p'"
        using Cons 2 q e by simp_all
      then show ?thesis by blast
    qed
  next
    case 3
    then have "char_ok (Plain ch)" "json_scan text sw_usual n q = Inr r" "p = char_text (Plain ch) @ q"
      using assms Cons by simp_all
    then show ?thesis by blast
  qed
qed (use assms in simp)

lemma scan_Inr:
  assumes "json_scan text sw_usual n p = Inr (m, q)"
  shows "\<exists>cs p'. list_all char_ok cs \<and> p = chars_text cs @ 0x22 # p' \<and> q = 0x22 # p'"
  using assms
proof (induction "length p" arbitrary: p n rule: less_induct)
  case less
  from scan_first [OF less.prems] show ?case
  proof (elim disjE exE conjE)
    fix p' assume "p = 0x22 # p'" "(m, q) = (n, p)"
    then have "list_all char_ok [] \<and> p = chars_text [] @ 0x22 # p' \<and> q = 0x22 # p'" by auto
    then show ?thesis by blast
  next
    fix c k p' assume c: "char_ok c" "p = char_text c @ p'" "json_scan text sw_usual k p' = Inr (m, q)"
    then have "length p' < length p" by (cases c) auto
    from less.hyps [OF this c(3)] obtain cs r where
      "list_all char_ok cs" "p' = chars_text cs @ 0x22 # r" "q = 0x22 # r" by blast
    with c show ?thesis by (intro exI [of _ "c # cs"]) auto
  qed
qed

lemma scan_total:
  "\<exists>msg. json_scan text state n p = Inl (Syntax_error msg) \<or> (\<exists>r. json_scan text state n p = Inr r)"
  by (induction "text" state n p rule: json_scan.induct) (auto simp: njs_json_parse_exception_def Let_def)

text \<open>The code units, and what \<open>json_decode_step\<close> makes of the characters.\<close>

lemma hex_digits:
  assumes "json_hex c"
  shows "c \<in> set [0x30, 0x31, 0x32, 0x33, 0x34, 0x35, 0x36, 0x37, 0x38, 0x39,
    0x41, 0x42, 0x43, 0x44, 0x45, 0x46, 0x61, 0x62, 0x63, 0x64, 0x65, 0x66]"
proof -
  have "unat c \<in> {48..<58} \<union> {65..<71} \<union> {97..<103}"
    using assms by (auto simp: json_hex_def word_le_nat_alt)
  then have range: "unat c \<in> set ([48..<58] @ [65..<71] @ [97..<103])"
    by (simp only: set_append set_upt Un_assoc)
  have "of_nat (unat c) \<in> set (map of_nat ([48..<58] @ [65..<71] @ [97..<103]) :: u8 list)"
    unfolding set_map using range by (rule imageI)
  then show ?thesis by (simp add: upt_rec del: set_upt)
qed

lemma hex_value: "json_hex c \<Longrightarrow> unat (json_hex_value c) < 16"
  by (drule hex_digits) (auto simp: json_hex_value_def)

lemma unicode_bound:
  assumes "length ds = 4" "list_all json_hex ds"
  shows "unat (njs_json_unicode (ds @ p)) < 2 ^ 16" "njs_json_unicode (ds @ p) = njs_json_unicode ds"
proof -
  obtain a b c d where ds: "ds = [a, b, c, d]"
    using assms(1) by (auto simp: length_Suc_conv eval_nat_numeral)
  have shift: "unat (push_bit 4 u OR ucast (json_hex_value e)) < 2 ^ (k + 4)"
    if "unat u < 2 ^ k" "k \<le> 12" "json_hex e" for u :: u32 and k e
  proof -
    have "unat u * 2 ^ 4 + 16 \<le> 2 ^ k * 2 ^ 4"
      using that(1) by (simp add: Suc_leI flip: mult_Suc)
    moreover have "(2 :: nat) ^ k \<le> 2 ^ 12" using that(2) by (intro power_increasing) auto
    ultimately have u: "unat u * 2 ^ 4 + 16 \<le> 2 ^ (k + 4)" "unat u * 2 ^ 4 < 2 ^ 32"
      by (auto simp: power_add)
    then have "unat (push_bit 4 u) = unat u * 2 ^ 4" by (simp add: unat_shl)
    then have "unat (push_bit 4 u OR ucast (json_hex_value e) :: u32) = unat u * 2 ^ 4 + unat (json_hex_value e)"
      using hex_value [OF that(3)] by (subst unat_or_shift [of _ "unat u" 4]) (auto simp: unat_ucast_up)
    with u(1) hex_value [OF that(3)] show ?thesis by linarith
  qed
  show "unat (njs_json_unicode (ds @ p)) < 2 ^ 16"
    using assms(2) shift [of "push_bit 4 (push_bit 4 (push_bit 4 0 OR ucast (json_hex_value a)) OR ucast (json_hex_value b)) OR ucast (json_hex_value c)" 12 d]
      shift [of "push_bit 4 (push_bit 4 0 OR ucast (json_hex_value a)) OR ucast (json_hex_value b)" 8 c]
      shift [of "push_bit 4 0 OR ucast (json_hex_value a)" 4 b] shift [of 0 0 a]
    by (simp add: njs_json_unicode_def ds)
  show "njs_json_unicode (ds @ p) = njs_json_unicode ds"
    by (simp add: njs_json_unicode_def ds)
qed

lemma utf8_bytes_length:
  "unat u < 2 ^ 16 \<Longrightarrow> length (utf8_bytes u) \<le> 3" "length replacement_bytes = 3"
  by (simp_all add: njs_utf8_encode_def NJS_UTF8_REPLACEMENT_def word_less_nat_alt)

lemma pair_length:
  assumes "high_surrogate u" "low_surrogate v"
  shows "length (utf8_bytes (njs_string_surrogate_pair u v)) = 4"
proof -
  have u: "unat u \<in> {0xd800..0xdbff}" and v: "unat v \<in> {0xdc00..0xdfff}"
    using assms by (auto simp: high_surrogate_def low_surrogate_def word_le_nat_alt)
  have high: "unat (u - 0xd800) = unat u - 0xd800" and low: "unat (v - 0xdc00) = unat v - 0xdc00"
    using u v by (simp_all add: unat_sub word_le_nat_alt)
  have shift: "unat (push_bit 10 (u - 0xd800)) = (unat u - 0xd800) * 1024"
    using u by (subst unat_shl) (auto simp: high)
  have "unat (njs_string_surrogate_pair u v) = 0x10000 + (unat u - 0xd800) * 1024 + (unat v - 0xdc00)"
    unfolding njs_string_surrogate_pair_def
    using u v by (subst unat_add_lem [THEN iffD1]; (subst unat_add_lem [THEN iffD1])?) (auto simp: shift low)
  then have "0x10000 \<le> unat (njs_string_surrogate_pair u v)" "unat (njs_string_surrogate_pair u v) < 0x110000"
    using u v by auto
  then show ?thesis by (simp add: njs_utf8_encode_def word_less_nat_alt)
qed

lemma unescape: "char_ok (Escaped c) \<Longrightarrow> json_unescape c \<noteq> None"
  by (auto simp: json_escapes_def json_unescape_def)

lemma unit_next:
  assumes "list_all char_ok cs"
  shows "take 2 (chars_text cs) = [0x5C, 0x75] \<longleftrightarrow> (\<exists>es ds. cs = Unit es # ds)"
proof (cases cs)
  case (Cons c ds)
  then show ?thesis
    using assms by (cases c) (auto simp: json_escapes_def)
qed simp

lemma surrogate_range:
  "0xd800 \<le> u \<and> u \<le> 0xdfff \<longleftrightarrow> high_surrogate u \<or> low_surrogate u"
  "high_surrogate u \<Longrightarrow> \<not> u > 0xdbff" "low_surrogate u \<Longrightarrow> u > 0xdbff"
  "high_surrogate u \<Longrightarrow> \<not> low_surrogate u"
  by (auto simp: high_surrogate_def low_surrogate_def word_le_nat_alt word_less_nat_alt)

lemma unit_alone:
  assumes "\<nexists>es ds. cs = Unit es # ds"
  shows "chars_bytes (Unit ds # cs) =
    (if high_surrogate (njs_json_unicode ds) \<or> low_surrogate (njs_json_unicode ds) then replacement_bytes
     else utf8_bytes (njs_json_unicode ds)) @ chars_bytes cs"
proof (cases cs)
  case (Cons c es)
  with assms show ?thesis by (cases c) (auto simp: Let_def)
qed (simp add: Let_def)

lemma decode_unit:
  assumes "char_ok (Unit ds)" "list_all char_ok cs"
  shows "\<exists>out es. json_decode_unicode (ds @ chars_text cs) = Some (out, chars_text es) \<and> suffix es cs \<and>
    chars_bytes (Unit ds # cs) = out @ chars_bytes es"
proof -
  have four: "length ds = 4" "drop 4 (ds @ chars_text cs) = chars_text cs"
    "njs_json_unicode (ds @ chars_text cs) = njs_json_unicode ds"
    using assms(1) unicode_bound(2) [of ds] by simp_all
  show ?thesis
  proof (cases "high_surrogate (njs_json_unicode ds) \<and> (\<exists>es cs'. cs = Unit es # cs')")
    case True
    then obtain es cs' where cs: "cs = Unit es # cs'" and high: "high_surrogate (njs_json_unicode ds)" by blast
    then have es: "length es = 4" "njs_json_unicode (es @ chars_text cs') = njs_json_unicode es"
      using assms(2) unicode_bound(2) [of es] by simp_all
    have range: "0xd800 \<le> njs_json_unicode ds \<and> njs_json_unicode ds \<le> 0xdfff"
      using high by (simp add: surrogate_range)
    show ?thesis
      using range surrogate_range(2) [OF high] four es cs high
      by (auto simp: json_decode_unicode_def Let_def high_surrogate_def [of "njs_json_unicode es"]
          low_surrogate_def [of "njs_json_unicode es"] intro!: exI [of _ cs'] suffix_ConsI)
  next
    case False
    then have "\<not> high_surrogate (njs_json_unicode ds) \<or> take 2 (chars_text cs) \<noteq> [0x5C, 0x75]"
      using unit_next [OF assms(2)] by blast
    then have "json_decode_unicode (ds @ chars_text cs) =
        Some (if high_surrogate (njs_json_unicode ds) \<or> low_surrogate (njs_json_unicode ds) then replacement_bytes
          else utf8_bytes (njs_json_unicode ds), chars_text cs)"
      using four surrogate_range [of "njs_json_unicode ds"]
      by (auto simp: json_decode_unicode_def Let_def)
    moreover have "chars_bytes (Unit ds # cs) =
        (if high_surrogate (njs_json_unicode ds) \<or> low_surrogate (njs_json_unicode ds) then replacement_bytes
         else utf8_bytes (njs_json_unicode ds)) @ chars_bytes cs"
    proof (cases "\<exists>es ds. cs = Unit es # ds")
      case True
      with False show ?thesis by (auto simp: Let_def)
    next
      case False
      then show ?thesis by (rule unit_alone)
    qed
    ultimately show ?thesis by auto
  qed
qed

lemma chars_step:
  assumes "list_all char_ok (c # cs)"
  obtains out ds where "json_decode_step (chars_text (c # cs)) = Some (out, chars_text ds)" "suffix ds cs"
    "chars_bytes (c # cs) = out @ chars_bytes ds"
proof (cases c)
  case (Plain b)
  then show thesis using assms by (intro that [of "[b]" cs]) auto
next
  case (Escaped b)
  then show thesis using assms unescape [of b] by (intro that [of "[the (json_unescape b)]" cs]) auto
next
  case (Unit ds)
  then have "json_unescape 0x75 = None" by (simp add: json_unescape_def)
  with Unit show thesis using assms decode_unit [of ds cs] by (auto intro: that)
qed

lemma char_text_nonempty [simp]: "char_text c \<noteq> []"
  by (cases c) auto

lemma decode_chars:
  assumes "list_all char_ok cs" "cs \<noteq> []" "length s + length (chars_bytes cs) \<le> room"
  shows "json_decode_loop room s (chars_text cs) = Some (s @ chars_bytes cs)"
  using assms
proof (induction "length cs" arbitrary: cs s rule: less_induct)
  case less
  obtain c cs' where cs: "cs = c # cs'" using less.prems(2) by (cases cs) auto
  obtain out ds where step: "json_decode_step (chars_text cs) = Some (out, chars_text ds)" and ds: "suffix ds cs'"
    and out: "chars_bytes cs = out @ chars_bytes ds"
    using less.prems(1) unfolding cs by (rule chars_step)
  have "length ds < length cs" using ds cs by (auto dest: suffix_length_le)
  moreover have "list_all char_ok ds" using ds less.prems(1) cs by (auto simp: list_all_iff suffix_def)
  ultimately show ?case
    using less.hyps [of ds "s @ out"] less.prems(3) step out
    by (subst json_decode_loop.simps) (cases "ds = []"; simp)
qed

lemma unit_length:
  "length ds = 4 \<Longrightarrow> list_all json_hex ds \<Longrightarrow> length (utf8_bytes (njs_json_unicode ds)) \<le> 3"
  using unicode_bound(1) [of ds "[]"] by (simp add: utf8_bytes_length(1))

lemma chars_bytes_length:
  assumes "list_all char_ok cs"
  shows "length (chars_bytes cs) + sum_list (map surplus_of cs) \<le> length (chars_text cs)"
  using assms
proof (induction cs rule: chars_bytes.induct)
  case (4 ds es cs)
  have "length (utf8_bytes (njs_json_unicode ds)) \<le> 3" "length (utf8_bytes (njs_json_unicode es)) \<le> 3"
    using 4(3) by (auto intro: unit_length)
  note lengths = this utf8_bytes_length(2) pair_length
  show ?case
  proof (cases "high_surrogate (njs_json_unicode ds)")
    case True
    then show ?thesis using 4(1) [OF refl refl True] 4(3) lengths by (auto simp: Let_def)
  next
    case False
    then show ?thesis using 4(2) [OF refl refl False] 4(3) lengths by (auto simp: Let_def)
  qed
qed (auto simp: Let_def utf8_bytes_length(2) dest: unit_length)

text \<open>The value of a string: the bytes with their length in characters, or as a byte string.\<close>

definition json_string :: "bytes \<Rightarrow> njs_string" where
  "json_string bs = projr (njs_string_new bs (nat (njs_utf8_length bs)))"

lemma json_string_new:
  assumes "length bs \<le> NJS_STRING_MAX_LENGTH"
  shows "njs_string_new bs (nat (njs_utf8_length bs)) = Inr (json_string bs)" "str_start (json_string bs) = bs"
  using assms by (auto simp: json_string_def njs_string_new_def njs_string_alloc_def)

lemma plain_chars: "sum_list (map surplus_of cs) = 0 \<Longrightarrow> chars_bytes cs = chars_text cs"
proof (induction cs)
  case (Cons c cs)
  then show ?case by (cases c) auto
qed simp

lemma length_not_negative [simp]: "nat (if n < 0 then 0 else n) = nat n" for n :: int
  by simp

lemma parse_string_chars:
  assumes "list_all char_ok cs" "length (chars_text cs) \<le> NJS_STRING_MAX_LENGTH"
  shows "njs_json_parse_string text (0x22 # chars_text cs @ 0x22 # p) = Inr (json_string (chars_bytes cs), p)"
proof -
  let ?n = "sum_list (map surplus_of cs)"
  have length: "length (chars_bytes cs) + ?n \<le> length (chars_text cs)" by (rule chars_bytes_length [OF assms(1)])
  have "(if ?n \<noteq> 0 then json_decode_loop (length (chars_text cs) - ?n) [] (chars_text cs) else Some (chars_text cs)) =
      Some (chars_bytes cs)"
  proof (cases "?n = 0")
    case True
    then show ?thesis by (simp only: plain_chars) simp
  next
    case False
    then have "cs \<noteq> []" by auto
    with False show ?thesis using decode_chars [OF assms(1), of "[]"] length by simp
  qed
  moreover have "length (chars_bytes cs) \<le> NJS_STRING_MAX_LENGTH" using length assms(2) by linarith
  moreover define n where "n = ?n"
  ultimately show ?thesis
    unfolding njs_json_parse_string_def list.sel Let_def scan_chars [OF assms(1)] sum.case prod.case n_def [symmetric]
    by (cases "n = 0") (simp_all add: json_string_new)
qed

lemma parse_string_total:
  assumes "length q \<le> NJS_STRING_MAX_LENGTH"
  shows "(\<exists>msg. njs_json_parse_string text (0x22 # q) = Inl (Syntax_error msg)) \<or>
    (\<exists>cs p. list_all char_ok cs \<and> q = chars_text cs @ 0x22 # p \<and>
      njs_json_parse_string text (0x22 # q) = Inr (json_string (chars_bytes cs), p))"
  using scan_total [of "text" sw_usual 0 q]
proof (elim exE disjE)
  fix r assume "json_scan text sw_usual 0 q = Inr r"
  then obtain cs p where "list_all char_ok cs" "q = chars_text cs @ 0x22 # p"
    using scan_Inr [of "text" 0 q "fst r" "snd r"] by auto
  then show ?thesis using parse_string_chars [of cs "text" p] assms by auto
qed (simp add: njs_json_parse_string_def)

section \<open>Numbers\<close>

definition exponent_token :: "bytes \<Rightarrow> bool" where
  "exponent_token t \<longleftrightarrow>
     t = [] \<or> (\<exists>c s ds. t = c # s @ ds \<and> c \<in> {0x65, 0x45} \<and> s \<in> {[], [0x2D], [0x2B]} \<and> ds \<noteq> [] \<and> list_all digit ds)"

definition number_token :: "bytes \<Rightarrow> bool" where
  "number_token t \<longleftrightarrow>
     (\<exists>whole frac e. t = whole @ frac @ e \<and> list_all digit whole \<and>
       (frac = [] \<or> (\<exists>ds. frac = 0x2E # ds \<and> list_all digit ds)) \<and> (whole \<noteq> [] \<or> tl frac \<noteq> []) \<and> exponent_token e)"

text \<open>What can follow a value.\<close>

definition ends_number :: "bytes \<Rightarrow> bool" where
  "ends_number p \<longleftrightarrow> (p = [] \<or> \<not> digit (hd p) \<and> hd p \<notin> {0x2E, 0x65, 0x45})"

lemma takeWhile_digits:
  "list_all digit ds \<Longrightarrow> p = [] \<or> \<not> digit (hd p) \<Longrightarrow> takeWhile digit (ds @ p) = ds"
  "list_all digit ds \<Longrightarrow> p = [] \<or> \<not> digit (hd p) \<Longrightarrow> dropWhile digit (ds @ p) = p"
  by (induction ds) (auto simp: takeWhile_eq_Nil_iff dropWhile_eq_self_iff)

lemma not_digits: "\<not> digit 0x2E" "\<not> digit 0x65" "\<not> digit 0x45" "\<not> digit 0x2D" "\<not> digit 0x2B"
  by (simp_all add: digit_def)

lemma exponent_read:
  assumes "exponent_token e" "ends_number p"
  shows "strtod_exponent (e @ p) = p"
  using assms(1) unfolding exponent_token_def
proof (elim disjE exE conjE)
  assume "e = []"
  then show ?thesis using assms(2) by (auto simp: strtod_exponent_def ends_number_def split: list.splits)
next
  fix c s ds assume e: "e = c # s @ ds" "c \<in> {0x65, 0x45}" "s \<in> {[], [0x2D], [0x2B]}" "ds \<noteq> []" "list_all digit ds"
  then have "digit (hd ds)" "hd ds \<noteq> 0x2D" "hd ds \<noteq> 0x2B" using not_digits by (cases ds; auto)+
  with e show ?thesis
    using assms(2) takeWhile_digits(2) [of ds p] by (auto simp: strtod_exponent_def ends_number_def Let_def)
qed

lemma digits_split: "takeWhile digit p @ dropWhile digit p = p" "list_all digit (takeWhile digit p)"
  by (simp_all add: list_all_iff takeWhile_dropWhile_id) (metis set_takeWhileD)

lemma exponent_written: "\<exists>e. exponent_token e \<and> p = e @ strtod_exponent p"
proof -
  have none: ?thesis if "strtod_exponent p = p"
    using that by (intro exI [of _ "[]"]) (simp add: exponent_token_def)
  show ?thesis
  proof (cases p)
    case (Cons c q)
    define e where "e = (if tl q \<noteq> [] \<and> (hd q = 0x2D \<or> hd q = 0x2B) then tl q else q)"
    have exponent: "strtod_exponent p =
        (if q \<noteq> [] \<and> (c = 0x65 \<or> c = 0x45) \<and> digit (hd e) then dropWhile digit e else p)"
      by (simp add: strtod_exponent_def Cons e_def Let_def)
    show ?thesis
    proof (cases "q \<noteq> [] \<and> (c = 0x65 \<or> c = 0x45) \<and> digit (hd e)")
      case True
      then have "e \<noteq> []" by (auto simp: e_def)
      with True have digits: "takeWhile digit e \<noteq> []" by (cases e) auto
      obtain s where s: "q = s @ e" "s \<in> {[], [0x2D], [0x2B]}"
        by (rule that [of "if e = q then [] else [hd q]"]) (cases q; auto simp: e_def)+
      have "exponent_token (c # s @ takeWhile digit e)"
        unfolding exponent_token_def using True s(2) digits digits_split(2) by blast
      moreover have "p = (c # s @ takeWhile digit e) @ strtod_exponent p"
        using True exponent by (simp add: Cons s(1) digits_split(1))
      ultimately show ?thesis by blast
    next
      case False
      then show ?thesis using none exponent by auto
    qed
  qed (use none in \<open>simp add: strtod_exponent_def\<close>)
qed

lemma number_read:
  assumes "number_token t" "ends_number p"
  shows "njs_strtod_end (t @ p) = Some p"
proof -
  obtain whole frac e where t: "t = whole @ frac @ e" "list_all digit whole" "whole \<noteq> [] \<or> tl frac \<noteq> []" "exponent_token e"
    and frac: "frac = [] \<or> (\<exists>ds. frac = 0x2E # ds \<and> list_all digit ds)"
    using assms(1) by (auto simp: number_token_def)
  have e: "e @ p = [] \<or> \<not> digit (hd (e @ p))" "e @ p = [] \<or> hd (e @ p) \<noteq> 0x2E"
    using t(4) assms(2) not_digits by (auto simp: exponent_token_def ends_number_def)
  have last: "strtod_exponent (e @ p) = p" by (rule exponent_read [OF t(4) assms(2)])
  from frac show ?thesis
  proof (elim disjE exE conjE)
    assume "frac = []"
    then show ?thesis
      using t e last takeWhile_digits [OF t(2) e(1)] by (auto simp: njs_strtod_end_def Let_def)
  next
    fix ds assume "frac = 0x2E # ds" "list_all digit ds"
    then show ?thesis
      using t not_digits(1) last takeWhile_digits [OF t(2), of "0x2E # ds @ e @ p"]
        takeWhile_digits [of ds "e @ p", OF _ e(1)]
      by (simp add: njs_strtod_end_def Let_def)
  qed
qed

lemma number_written:
  assumes "njs_strtod_end p = Some p'"
  shows "\<exists>t. number_token t \<and> p = t @ p'"
proof -
  define whole where "whole = takeWhile digit p"
  define q where "q = dropWhile digit p"
  define point where "point = (q \<noteq> [] \<and> hd q = 0x2E)"
  define ds where "ds = (if point then takeWhile digit (tl q) else [])"
  define r where "r = (if point then dropWhile digit (tl q) else q)"
  let ?frac = "if point then 0x2E # ds else []"
  have p': "strtod_exponent r = p'" and some: "whole \<noteq> [] \<or> ds \<noteq> []"
    using assms by (auto simp: njs_strtod_end_def Let_def whole_def q_def point_def ds_def r_def split: if_splits)
  obtain e where e: "exponent_token e" "r = e @ p'" using exponent_written [of r] unfolding p' by blast
  have p: "p = whole @ q" by (simp add: whole_def q_def)
  have q: "q = ?frac @ r" by (cases q) (auto simp: point_def ds_def r_def)
  have digits: "list_all digit whole" "list_all digit ds" by (simp_all add: whole_def ds_def digits_split(2))
  have "number_token (whole @ ?frac @ e)"
    unfolding number_token_def
  proof (intro exI conjI)
    show "whole \<noteq> [] \<or> tl ?frac \<noteq> []" using some by (auto simp: ds_def)
  qed (use e(1) digits in auto)
  moreover have "p = (whole @ ?frac @ e) @ p'" unfolding p q e(2) by simp
  ultimately show ?thesis by blast
qed

end
