(* ===== verification/Njs_Json_Grammar.thy ===== *)
theory Njs_Json_Grammar
  imports Njs_Json_Text
begin

text \<open>
  The grammar of JSON texts over that of strings and numbers, the values they stand for, and the
  representation of the values by objects in memory.
\<close>

section \<open>The grammar\<close>

datatype json =
    J_null | J_bool bool | J_num number | J_str bytes | J_arr "json list" | J_obj "(bytes \<times> json) list"

abbreviation spaces :: "bytes \<Rightarrow> bool" where
  "spaces w \<equiv> list_all json_space w"

inductive separated :: "('a \<Rightarrow> bytes \<Rightarrow> bool) \<Rightarrow> 'a list \<Rightarrow> bytes \<Rightarrow> bool" for P where
  one: "P x t \<Longrightarrow> separated P [x] t"
| more: "P x t \<Longrightarrow> separated P xs r \<Longrightarrow> separated P (x # xs) (t @ 0x2C # r)"

lemma separated_mono [mono]:
  assumes "\<And>x t. P x t \<longrightarrow> Q x t"
  shows "separated P xs t \<longrightarrow> separated Q xs t"
proof
  assume "separated P xs t"
  then show "separated Q xs t" by induction (auto intro: separated.intros assms [rule_format])
qed

definition element_text :: "(json \<Rightarrow> bytes \<Rightarrow> bool) \<Rightarrow> json \<Rightarrow> bytes \<Rightarrow> bool" where
  "element_text V j t \<longleftrightarrow> (\<exists>w u w'. t = w @ u @ w' \<and> spaces w \<and> spaces w' \<and> V j u)"

definition member_text :: "(json \<Rightarrow> bytes \<Rightarrow> bool) \<Rightarrow> bytes \<times> json \<Rightarrow> bytes \<Rightarrow> bool" where
  "member_text V m t \<longleftrightarrow>
     (\<exists>w cs w' u. t = w @ 0x22 # chars_text cs @ 0x22 # w' @ 0x3A # u \<and> spaces w \<and> spaces w' \<and>
       list_all char_ok cs \<and> fst m = chars_bytes cs \<and> element_text V (snd m) u)"

lemma element_text_mono [mono]: "(\<And>j t. V j t \<longrightarrow> W j t) \<Longrightarrow> element_text V j t \<longrightarrow> element_text W j t"
  unfolding element_text_def by blast

lemma member_text_mono [mono]:
  "(\<And>j t. V j t \<longrightarrow> W j t) \<Longrightarrow> member_text V m t \<longrightarrow> member_text W m t"
  unfolding member_text_def using element_text_mono [of V W] by blast

definition json_number :: "env \<Rightarrow> number \<Rightarrow> bytes \<Rightarrow> bool" where
  "json_number env x t \<longleftrightarrow>
     (\<exists>u. number_token u \<and> (t = u \<and> x = fst (env_strtod env u) \<or>
       t = 0x2D # u \<and> x = number_neg (fst (env_strtod env u))))"

text \<open>\<open>json_value env n j t\<close>: the text \<open>t\<close> is the value \<open>j\<close>, with at most \<open>n\<close> levels of brackets.\<close>

inductive json_value :: "env \<Rightarrow> nat \<Rightarrow> json \<Rightarrow> bytes \<Rightarrow> bool" for env where
  null: "json_value env n J_null (ascii ''null'')"
| true: "json_value env n (J_bool True) (ascii ''true'')"
| false: "json_value env n (J_bool False) (ascii ''false'')"
| num: "json_number env x t \<Longrightarrow> json_value env n (J_num x) t"
| str: "list_all char_ok cs \<Longrightarrow> json_value env n (J_str (chars_bytes cs)) (0x22 # chars_text cs @ [0x22])"
| no_elements: "spaces w \<Longrightarrow> json_value env (Suc n) (J_arr []) (0x5B # w @ [0x5D])"
| elements: "separated (element_text (json_value env n)) js t \<Longrightarrow>
    json_value env (Suc n) (J_arr js) (0x5B # t @ [0x5D])"
| no_members: "spaces w \<Longrightarrow> json_value env (Suc n) (J_obj []) (0x7B # w @ [0x7D])"
| members: "separated (member_text (json_value env n)) ms t \<Longrightarrow>
    json_value env (Suc n) (J_obj ms) (0x7B # t @ [0x7D])"

section \<open>Values in memory\<close>

definition add_member :: "njs_props \<Rightarrow> njs_string \<times> njs_value \<Rightarrow> njs_props" where
  "add_member table m = AList.update (str_start (fst m)) (njs_object_prop_alloc (fst m) (snd m) NJS_ATTRIBUTE_TRUE) table"

definition members_table :: "(njs_string \<times> njs_value) list \<Rightarrow> njs_props" where
  "members_table ms = foldl add_member [] ms"

definition array_object :: "env \<Rightarrow> njs_object" where
  "array_object env = (plain_object env)
     \<lparr>obj_shared_hash := env_array_instance_hash env, obj_proto := Some (env_prototype env NJS_ARRAY),
      obj_type := NJS_ARRAY\<rparr>"

text \<open>
  The value \<open>v\<close> stands for \<open>j\<close>, by objects at the addresses from \<open>b\<close> on. The elements of an array
  are those of the text; the table of an object is what inserting its members one after the
  other gives, so that of two members with the same name the last counts.
\<close>

inductive represents :: "env \<Rightarrow> heap \<Rightarrow> nat \<Rightarrow> njs_value \<Rightarrow> json \<Rightarrow> bool" for env h b where
  null: "represents env h b Null_value J_null"
| bool: "represents env h b (Boolean x) (J_bool x)"
| num: "represents env h b (Number_value x) (J_num x)"
| str: "represents env h b (String (json_string bs)) (J_str bs)"
| arr: "b \<le> a \<Longrightarrow> a < length h \<Longrightarrow>
    h ! a = (array_object env)\<lparr>obj_start := vs, obj_size := sz, obj_free := fr\<rparr> \<Longrightarrow>
    list_all2 (represents env h b) vs js \<Longrightarrow> represents env h b (Object NJS_ARRAY a) (J_arr js)"
| obj: "b \<le> a \<Longrightarrow> a < length h \<Longrightarrow> h ! a = (plain_object env)\<lparr>obj_hash := members_table ms\<rparr> \<Longrightarrow>
    list_all2 (\<lambda>m kj. fst m = json_string (fst kj) \<and> represents env h b (snd m) (snd kj)) ms js \<Longrightarrow>
    represents env h b (Object NJS_OBJECT a) (J_obj js)"

lemma represents_frame:
  assumes "represents env h b v j" "\<And>i. b' \<le> i \<Longrightarrow> i < length h \<Longrightarrow> i < length h' \<and> h' ! i = h ! i" "b' \<le> b"
  shows "represents env h' b' v j"
  using assms(1)
proof induction
  case (arr a fr sz vs js)
  then have "a < length h'" "h' ! a = h ! a" using assms(2) [of a] assms(3) by auto
  moreover have "list_all2 (represents env h' b') vs js"
    using arr(4) by (rule list_all2_mono) auto
  ultimately show ?case using arr(1-3) assms(3) by (auto intro: represents.arr)
next
  case (obj a ms js)
  then have "a < length h'" "h' ! a = h ! a" using assms(2) [of a] assms(3) by auto
  moreover have "list_all2 (\<lambda>m kj. fst m = json_string (fst kj) \<and> represents env h' b' (snd m) (snd kj)) ms js"
    using obj(4) by (rule list_all2_mono) auto
  ultimately show ?case using obj(1-3) assms(3) by (auto intro: represents.obj)
qed (auto intro: represents.intros)

section \<open>White space\<close>

lemma not_spaces [simp]:
  "\<not> json_space 0x22" "\<not> json_space 0x2C" "\<not> json_space 0x3A" "\<not> json_space 0x5B" "\<not> json_space 0x5D"
  "\<not> json_space 0x7B" "\<not> json_space 0x7D"
  by (simp_all add: json_space_def)

lemma skip_spaces:
  "spaces w \<Longrightarrow> njs_json_skip_space (w @ p) = njs_json_skip_space p"
  "p = [] \<or> \<not> json_space (hd p) \<Longrightarrow> njs_json_skip_space p = p"
  by (induction w) (simp_all, cases p, auto)

lemma skipped:
  obtains w where "spaces w" "p = w @ njs_json_skip_space p"
    "njs_json_skip_space p = [] \<or> \<not> json_space (hd (njs_json_skip_space p))"
proof -
  have "\<exists>w. spaces w \<and> p = w @ njs_json_skip_space p \<and>
      (njs_json_skip_space p = [] \<or> \<not> json_space (hd (njs_json_skip_space p)))"
  proof (induction p)
    case (Cons c p)
    then show ?case
    proof (cases "json_space c")
      case True
      with Cons obtain w where "spaces w \<and> p = w @ njs_json_skip_space p \<and>
          (njs_json_skip_space p = [] \<or> \<not> json_space (hd (njs_json_skip_space p)))" by blast
      with True show ?thesis by (intro exI [of _ "c # w"]) auto
    qed simp
  qed simp
  then show thesis using that by blast
qed

lemma digit_range: "digit c \<longleftrightarrow> 0x30 \<le> c \<and> c \<le> 0x39"
proof -
  have "unat (c - 0x30) = (if 0x30 \<le> unat c then unat c - 0x30 else unat c + 256 - 0x30)"
    by (simp add: unat_sub_if')
  then show ?thesis by (auto simp: digit_def word_le_nat_alt split: if_splits)
qed

lemma number_first:
  assumes "number_token t"
  shows "\<exists>c u. t = c # u \<and> (c = 0x2E \<or> digit c)"
proof -
  obtain whole frac e where t: "t = whole @ frac @ e" "list_all digit whole" "whole \<noteq> [] \<or> tl frac \<noteq> []"
    and frac: "frac = [] \<or> (\<exists>ds. frac = 0x2E # ds \<and> list_all digit ds)"
    using assms by (auto simp: number_token_def)
  then show ?thesis by (cases whole) auto
qed

lemma value_first:
  assumes "json_value env n j t"
  shows "\<exists>c u. t = c # u \<and> \<not> json_space c \<and> c \<noteq> 0x5D"
  using assms
proof cases
  case (num x)
  then obtain u where u: "number_token u" "t = u \<or> t = 0x2D # u" by (auto simp: json_number_def)
  obtain c r where "u = c # r" "c = 0x2E \<or> digit c" using number_first [OF u(1)] by blast
  with u(2) show ?thesis by (auto simp: json_space_def digit_range)
qed (auto simp: json_space_def)

text \<open>What comes behind a value in a text: white space, and then a comma, a bracket or the end.\<close>

lemma ends_number_spaces:
  assumes "spaces w" "p = [] \<or> hd p \<in> {0x2C, 0x5D, 0x7D}"
  shows "ends_number (w @ p)"
  using assms by (cases w) (auto simp: ends_number_def json_space_def digit_range)

end
