(* ===== verification/Njs_Json_Read.thy ===== *)
theory Njs_Json_Read
  imports Njs_Json_Grammar Njs_Object_Invariants
begin

text \<open>
  \<open>JSON.parse\<close> reads exactly the texts of the grammar with less than 32 levels of brackets: for each
  of them it returns the value, and for any other text it throws a \<open>SyntaxError\<close>.
\<close>

section \<open>Contracts of the reader of values\<close>

text \<open>
  The texts are at most 128 MB long, so that no array exceeds its largest size and no string its
  largest length. The value of a number depends on its digits alone, not on what follows.
\<close>

definition json_limit :: nat where "json_limit = 2 ^ 27"

definition strtod_local :: "env \<Rightarrow> bool" where
  "strtod_local env \<longleftrightarrow>
     (\<forall>t p. njs_strtod_end (t @ p) = Some p \<longrightarrow> fst (env_strtod env (t @ p)) = fst (env_strtod env t))"

definition complete_reader ::
  "env \<Rightarrow> (bytes \<Rightarrow> heap \<Rightarrow> (njs_value \<times> bytes) run) \<Rightarrow> (json \<Rightarrow> bytes \<Rightarrow> bool) \<Rightarrow> bool" where
  "complete_reader env value_at V \<longleftrightarrow>
     (\<forall>j t p h. V j t \<longrightarrow> length t \<le> json_limit \<longrightarrow> ends_number p \<longrightarrow>
       (\<exists>c u. t = c # u \<and> \<not> json_space c \<and> c \<noteq> 0x5D) \<and>
       (\<exists>v fs. value_at (t @ p) h = ok (v, p) (h @ fs) \<and> represents env (h @ fs) (length h) v j))"

lemma complete_readerE:
  assumes "complete_reader env value_at V" "V j t" "length t \<le> json_limit"
  obtains c u where "t = c # u" "\<not> json_space c" "c \<noteq> 0x5D"
    "\<And>p h. ends_number p \<Longrightarrow> \<exists>v fs. value_at (t @ p) h = ok (v, p) (h @ fs) \<and> represents env (h @ fs) (length h) v j"
proof -
  have "ends_number []" by (simp add: ends_number_def)
  then have "\<exists>c u. t = c # u \<and> \<not> json_space c \<and> c \<noteq> 0x5D"
    using assms unfolding complete_reader_def by blast
  then obtain c u where "t = c # u" "\<not> json_space c" "c \<noteq> 0x5D" by blast
  then show thesis
  proof (rule that)
    fix p h assume "ends_number p"
    then show "\<exists>v fs. value_at (t @ p) h = ok (v, p) (h @ fs) \<and> represents env (h @ fs) (length h) v j"
      using assms unfolding complete_reader_def by blast
  qed
qed

lemma complete_readerI:
  assumes "\<And>j t. V j t \<Longrightarrow> \<exists>c u. t = c # u \<and> \<not> json_space c \<and> c \<noteq> 0x5D"
    and "\<And>j t p h. V j t \<Longrightarrow> length t \<le> json_limit \<Longrightarrow> ends_number p \<Longrightarrow>
      \<exists>v fs. value_at (t @ p) h = ok (v, p) (h @ fs) \<and> represents env (h @ fs) (length h) v j"
  shows "complete_reader env value_at V"
  using assms unfolding complete_reader_def by simp

lemma array_room:
  assumes "length (obj_start array) < json_limit"
  shows "\<exists>sz fr. njs_array_expand array 0 1 = Inr (array\<lparr>obj_size := sz, obj_free := fr\<rparr>)"
proof -
  define n where "n = length (obj_start array) + 1"
  define sz where "sz = (if n < 16 then n * 2 else n + n div 2)"
  have "n \<le> 2 ^ 27" using assms by (simp add: n_def json_limit_def)
  then have "sz \<le> NJS_ARRAY_MAX_LENGTH" by (auto simp: sz_def NJS_ARRAY_MAX_LENGTH_def)
  moreover have "njs_array_expand array 0 1 =
      (if 1 \<le> obj_size array - length (obj_start array) - obj_free array then Inr array
       else if sz > NJS_ARRAY_MAX_LENGTH then Inl Memory_error
       else Inr (array\<lparr>obj_size := sz, obj_free := 0\<rparr>))"
    by (simp add: njs_array_expand_def Let_def n_def sz_def)
  ultimately have "njs_array_expand array 0 1 = Inr (array\<lparr>obj_size := obj_size array, obj_free := obj_free array\<rparr>) \<or>
      njs_array_expand array 0 1 = Inr (array\<lparr>obj_size := sz, obj_free := 0\<rparr>)" by auto
  then show ?thesis by blast
qed

lemma array_add:
  assumes "length (obj_start obj) < json_limit" "a = length h0"
  shows "\<exists>sz fr. njs_array_add (h0 @ obj # fs) a v =
    ok () (h0 @ obj\<lparr>obj_start := obj_start obj @ [v], obj_size := sz, obj_free := fr\<rparr> # fs)"
proof -
  obtain sz fr where "njs_array_expand obj 0 1 = Inr (obj\<lparr>obj_size := sz, obj_free := fr\<rparr>)"
    using array_room [OF assms(1)] by blast
  then show ?thesis
    using assms(2) by (intro exI [of _ sz] exI [of _ fr]) (simp add: njs_array_add_def)
qed

section \<open>Every text of the grammar is read\<close>

lemma elements_complete:
  assumes "separated (element_text V) js t" "complete_reader env value_at V" "length t \<le> json_limit"
    and "length (obj_start obj) + length js \<le> json_limit" "a = length h0"
  shows "\<exists>vs sz fr gs h'. h' = h0 @ obj\<lparr>obj_start := obj_start obj @ vs, obj_size := sz, obj_free := fr\<rparr> # fs @ gs \<and>
    json_elements_loop text value_at a none (c # t @ 0x5D # p) (h0 @ obj # fs) = ok p h' \<and>
    list_all2 (represents env h' (Suc a)) vs js"
  using assms(1,3-4)
proof (induction arbitrary: obj fs none c)
  case (one j t)
  then obtain w u w' where t: "t = w @ u @ w'" "spaces w" "spaces w'" "V j u" by (auto simp: element_text_def)
  have "length u \<le> json_limit" using one(2) t(1) by simp
  with assms(2) t(4) obtain c0 u0 where u: "u = c0 # u0" "\<not> json_space c0" "c0 \<noteq> 0x5D" and
    read: "\<And>p h. ends_number p \<Longrightarrow> \<exists>v fs. value_at (u @ p) h = ok (v, p) (h @ fs) \<and> represents env (h @ fs) (length h) v j"
    by (rule complete_readerE) blast
  have "ends_number (w' @ 0x5D # p)" using t(3) by (rule ends_number_spaces) simp
  from read [OF this, of "h0 @ obj # fs"] obtain v gs where v:
    "value_at (u @ w' @ 0x5D # p) (h0 @ obj # fs) = ok (v, w' @ 0x5D # p) (h0 @ obj # fs @ gs)"
    "represents env (h0 @ obj # fs @ gs) (length (h0 @ obj # fs)) v j" by auto
  obtain sz fr where add: "njs_array_add (h0 @ obj # fs @ gs) a v =
      ok () (h0 @ obj\<lparr>obj_start := obj_start obj @ [v], obj_size := sz, obj_free := fr\<rparr> # fs @ gs)" (is "_ = ok () ?h")
    using array_add [of obj a h0 "fs @ gs" v] one(3) assms(5) by auto
  have "json_elements_loop text value_at a none (c # t @ 0x5D # p) (h0 @ obj # fs) = ok p ?h"
    using v(1) add u t(2,3)
    by (subst json_elements_loop.simps) (simp add: t(1) skip_spaces)
  moreover have "represents env ?h (Suc a) v j"
    using v(2) by (rule represents_frame) (use assms(5) in \<open>auto simp: nth_append nth_Cons'\<close>)
  ultimately show ?case
    by (intro exI [of _ "[v]"] exI [of _ sz] exI [of _ fr] exI [of _ gs] exI [of _ ?h]) auto
next
  case (more j t js r)
  then obtain w u w' where t: "t = w @ u @ w'" "spaces w" "spaces w'" "V j u" by (auto simp: element_text_def)
  have "length u \<le> json_limit" using more(4) t(1) by simp
  with assms(2) t(4) obtain c0 u0 where u: "u = c0 # u0" "\<not> json_space c0" "c0 \<noteq> 0x5D" and
    read: "\<And>p h. ends_number p \<Longrightarrow> \<exists>v fs. value_at (u @ p) h = ok (v, p) (h @ fs) \<and> represents env (h @ fs) (length h) v j"
    by (rule complete_readerE) blast
  have "ends_number (w' @ 0x2C # r @ 0x5D # p)" using t(3) by (rule ends_number_spaces) simp
  from read [OF this, of "h0 @ obj # fs"] obtain v gs where v:
    "value_at (u @ w' @ 0x2C # r @ 0x5D # p) (h0 @ obj # fs) = ok (v, w' @ 0x2C # r @ 0x5D # p) (h0 @ obj # fs @ gs)"
    "represents env (h0 @ obj # fs @ gs) (length (h0 @ obj # fs)) v j" by auto
  obtain sz fr where add: "njs_array_add (h0 @ obj # fs @ gs) a v =
      ok () (h0 @ obj\<lparr>obj_start := obj_start obj @ [v], obj_size := sz, obj_free := fr\<rparr> # fs @ gs)"
    using array_add [of obj a h0 "fs @ gs" v] more(5) assms(5) by auto
  let ?obj = "obj\<lparr>obj_start := obj_start obj @ [v], obj_size := sz, obj_free := fr\<rparr>"
  obtain vs sz' fr' gs' h' where h': "h' = h0 @ ?obj\<lparr>obj_start := obj_start ?obj @ vs, obj_size := sz', obj_free := fr'\<rparr> # (fs @ gs) @ gs'"
    and loop: "json_elements_loop text value_at a False (0x2C # r @ 0x5D # p) (h0 @ ?obj # fs @ gs) = ok p h'"
    and vs: "list_all2 (represents env h' (Suc a)) vs js"
    using more.IH [of ?obj "fs @ gs" False "0x2C"] more.prems by auto
  have "json_elements_loop text value_at a none (c # (t @ 0x2C # r) @ 0x5D # p) (h0 @ obj # fs) = ok p h'"
    using v(1) add u t(2,3) loop
    by (subst json_elements_loop.simps) (simp add: t(1) skip_spaces)
  moreover have "represents env h' (Suc a) v j"
    using v(2) by (rule represents_frame) (use assms(5) h' in \<open>auto simp: nth_append nth_Cons'\<close>)
  ultimately show ?case
    using vs h' by (intro exI [of _ "v # vs"] exI [of _ sz'] exI [of _ fr'] exI [of _ "gs @ gs'"] exI [of _ h']) auto
qed

lemma put_member:
  assumes "a = length h0"
  shows "put_prop (h0 @ obj # fs) a (str_start name) (njs_object_prop_alloc name v NJS_ATTRIBUTE_TRUE) =
    h0 @ obj\<lparr>obj_hash := add_member (obj_hash obj) (name, v)\<rparr> # fs"
  using assms by (simp add: put_prop_def upd_object_def add_member_def)

text \<open>One turn of the loop over the members.\<close>

lemma member_complete:
  assumes "member_text V (k, j) t" "complete_reader env value_at V" "length t \<le> json_limit" "a = length h0"
    and "p = [] \<or> hd p \<in> {0x2C, 0x5D, 0x7D}" "p \<noteq> []"
  shows "\<exists>v gs. represents env (h0 @ obj # fs @ gs) (Suc a) v j \<and>
    json_members_loop text value_at a some (c # t @ p) (h0 @ obj # fs) =
      (let h = h0 @ obj\<lparr>obj_hash := add_member (obj_hash obj) (json_string k, v)\<rparr> # fs @ gs
       in if hd p = 0x2C then json_members_loop text value_at a True p h
          else if hd p = 0x7D then ok (tl p) h
          else throw (json_error text ''Unexpected token'' p) h)"
proof -
  obtain w cs w' w2 u w3 where t: "t = w @ 0x22 # chars_text cs @ 0x22 # w' @ 0x3A # w2 @ u @ w3" "k = chars_bytes cs"
    and spaces: "spaces w" "spaces w'" "spaces w2" "spaces w3" and cs: "list_all char_ok cs" and V: "V j u"
    using assms(1) by (auto simp: member_text_def element_text_def)
  have limit: "length u \<le> json_limit" "length (chars_text cs) \<le> json_limit" using assms(3) t(1) by simp_all
  from limit(2) have "length (chars_text cs) \<le> NJS_STRING_MAX_LENGTH"
    by (simp add: json_limit_def NJS_STRING_MAX_LENGTH_def)
  then have name: "njs_json_parse_string text (0x22 # chars_text cs @ 0x22 # q) = Inr (json_string k, q)" for q
    unfolding t(2) by (intro parse_string_chars [OF cs])
  from assms(2) V limit(1) obtain c0 u0 where u: "u = c0 # u0" "\<not> json_space c0" and
    read: "\<And>p h. ends_number p \<Longrightarrow> \<exists>v fs. value_at (u @ p) h = ok (v, p) (h @ fs) \<and> represents env (h @ fs) (length h) v j"
    by (rule complete_readerE) blast
  have "ends_number (w3 @ p)" using spaces(4) assms(5) by (rule ends_number_spaces)
  from read [OF this, of "h0 @ obj # fs"] obtain v gs where v:
    "value_at (u @ w3 @ p) (h0 @ obj # fs) = ok (v, w3 @ p) (h0 @ obj # fs @ gs)"
    "represents env (h0 @ obj # fs @ gs) (length (h0 @ obj # fs)) v j" by auto
  have p: "\<not> json_space (hd p)" using assms(5,6) by auto
  have "represents env (h0 @ obj # fs @ gs) (Suc a) v j"
    using v(2) by (rule represents_frame) (use assms(4) in auto)
  moreover have "json_members_loop text value_at a some (c # t @ p) (h0 @ obj # fs) =
      (let h = h0 @ obj\<lparr>obj_hash := add_member (obj_hash obj) (json_string k, v)\<rparr> # fs @ gs
       in if hd p = 0x2C then json_members_loop text value_at a True p h
          else if hd p = 0x7D then ok (tl p) h
          else throw (json_error text ''Unexpected token'' p) h)"
    using v(1) u spaces name p assms(6)
    by (subst json_members_loop.simps) (simp add: t(1) skip_spaces put_member [OF assms(4)])
  ultimately show ?thesis by blast
qed

lemma members_complete:
  assumes "separated (member_text V) js t" "complete_reader env value_at V" "length t \<le> json_limit" "a = length h0"
  shows "\<exists>ms gs h'. h' = h0 @ obj\<lparr>obj_hash := foldl add_member (obj_hash obj) ms\<rparr> # fs @ gs \<and>
    json_members_loop text value_at a some (c # t @ 0x7D # p) (h0 @ obj # fs) = ok p h' \<and>
    list_all2 (\<lambda>m kj. fst m = json_string (fst kj) \<and> represents env h' (Suc a) (snd m) (snd kj)) ms js"
  using assms(1,3)
proof (induction arbitrary: obj fs some c)
  case (one m t)
  obtain k j where m: "m = (k, j)" by (cases m)
  obtain v gs where v: "represents env (h0 @ obj # fs @ gs) (Suc a) v j"
    "json_members_loop text value_at a some (c # t @ 0x7D # p) (h0 @ obj # fs) =
      ok p (h0 @ obj\<lparr>obj_hash := add_member (obj_hash obj) (json_string k, v)\<rparr> # fs @ gs)" (is "_ = ok p ?h")
    using member_complete [OF one(1) [unfolded m] assms(2) one(2) assms(4), of "0x7D # p" obj fs "text" some c] by auto
  have "represents env ?h (Suc a) v j"
    using v(1) by (rule represents_frame) (use assms(4) in \<open>auto simp: nth_append nth_Cons'\<close>)
  with v(2) show ?case
    by (intro exI [of _ "[(json_string k, v)]"] exI [of _ gs] exI [of _ ?h]) (auto simp: m)
next
  case (more m t js r)
  obtain k j where m: "m = (k, j)" by (cases m)
  have "length t \<le> json_limit" using more(4) by simp
  from member_complete [OF more(1) [unfolded m] assms(2) this assms(4), of "0x2C # r @ 0x7D # p" obj fs "text" some c]
  obtain v gs where v: "represents env (h0 @ obj # fs @ gs) (Suc a) v j"
    "json_members_loop text value_at a some (c # t @ 0x2C # r @ 0x7D # p) (h0 @ obj # fs) =
      json_members_loop text value_at a True (0x2C # r @ 0x7D # p)
        (h0 @ obj\<lparr>obj_hash := add_member (obj_hash obj) (json_string k, v)\<rparr> # fs @ gs)" by auto
  let ?obj = "obj\<lparr>obj_hash := add_member (obj_hash obj) (json_string k, v)\<rparr>"
  obtain ms gs' h' where h': "h' = h0 @ ?obj\<lparr>obj_hash := foldl add_member (obj_hash ?obj) ms\<rparr> # (fs @ gs) @ gs'"
    and loop: "json_members_loop text value_at a True (0x2C # r @ 0x7D # p) (h0 @ ?obj # fs @ gs) = ok p h'"
    and ms: "list_all2 (\<lambda>m kj. fst m = json_string (fst kj) \<and> represents env h' (Suc a) (snd m) (snd kj)) ms js"
    using more.IH [of ?obj "fs @ gs" True "0x2C"] more.prems by auto
  have "represents env h' (Suc a) v j"
    using v(1) by (rule represents_frame) (use assms(4) h' in \<open>auto simp: nth_append nth_Cons'\<close>)
  with ms h' loop v(2) show ?case
    by (intro exI [of _ "(json_string k, v) # ms"] exI [of _ "gs @ gs'"] exI [of _ h']) (auto simp: m)
qed

section \<open>Nothing else is read\<close>

definition sound_result :: "('a \<Rightarrow> heap \<Rightarrow> bool) \<Rightarrow> 'a run \<Rightarrow> bool" where
  "sound_result P r \<longleftrightarrow>
     (case r of
        None \<Rightarrow> False
      | Some (Inl e, h) \<Rightarrow> \<exists>m. e = Syntax_error m
      | Some (Inr x, h) \<Rightarrow> P x h)"

lemma sound_result_simps [simp]:
  "sound_result P (ok x h) = P x h" "sound_result P (throw (Syntax_error m) h)"
  "sound_result P (throw (njs_json_parse_exception text msg pos) h)"
  by (simp_all add: sound_result_def njs_json_parse_exception_def Let_def)

lemma sound_bind:
  assumes "sound_result P r" "\<And>x h. P x h \<Longrightarrow> sound_result Q (f x h)"
  shows "sound_result Q (run_bind r f)"
  using assms by (cases "(r, f)" rule: run_bind.cases) (auto simp: sound_result_def)

lemma sound_mono:
  assumes "sound_result P r" "\<And>x h. P x h \<Longrightarrow> Q x h"
  shows "sound_result Q r"
  using assms by (auto simp: sound_result_def split: option.splits sum.splits)

definition sound_reader ::
  "(bytes \<Rightarrow> heap \<Rightarrow> (njs_value \<times> bytes) run) \<Rightarrow> (json \<Rightarrow> bytes \<Rightarrow> bool) \<Rightarrow> bool" where
  "sound_reader value_at V \<longleftrightarrow>
     (\<forall>p h. p \<noteq> [] \<longrightarrow> length p \<le> json_limit \<longrightarrow>
       sound_result (\<lambda>(v, p') h'. (\<exists>fs. h' = h @ fs) \<and> (\<exists>j t. p = t @ p' \<and> t \<noteq> [] \<and> V j t)) (value_at p h))"

lemma elements_sound:
  assumes "sound_reader value_at V" "a = length h0" "length (obj_start obj) + length q \<le> json_limit"
  shows "sound_result (\<lambda>p' h'. (\<exists>gs. h' = h0 @ gs) \<and>
      ((none \<and> (\<exists>w. q = w @ 0x5D # p' \<and> spaces w)) \<or> (\<exists>js t. q = t @ 0x5D # p' \<and> separated (element_text V) js t)))
    (json_elements_loop text value_at a none (c # q) (h0 @ obj # fs))"
  using assms(3)
proof (induction "length q" arbitrary: q obj fs none c rule: less_induct)
  case less
  define p where "p = njs_json_skip_space q"
  obtain w where w: "spaces w" "q = w @ p" using skipped [of q] unfolding p_def by blast
  consider "p = []" | "p \<noteq> []" "hd p = 0x5D" | "p \<noteq> []" "hd p \<noteq> 0x5D" by blast
  then show ?case
  proof cases
    case 1
    then show ?thesis by (subst json_elements_loop.simps) (simp add: p_def [symmetric])
  next
    case 2
    then have "\<exists>w. q = w @ 0x5D # tl p \<and> spaces w" using w by (cases p) auto
    with 2 show ?thesis
      by (subst json_elements_loop.simps) (simp add: p_def [symmetric])
  next
    case 3
    let ?h = "h0 @ obj # fs"
    have "length p \<le> json_limit" using less.prems w(2) by simp
    with 3 assms(1) have "sound_result (\<lambda>(v, p') h'. (\<exists>gs. h' = ?h @ gs) \<and> (\<exists>j t. p = t @ p' \<and> t \<noteq> [] \<and> V j t))
        (value_at p ?h)" unfolding sound_reader_def by blast
    then have "sound_result (\<lambda>p' h'. (\<exists>gs. h' = h0 @ gs) \<and>
        ((none \<and> (\<exists>w. q = w @ 0x5D # p' \<and> spaces w)) \<or> (\<exists>js t. q = t @ 0x5D # p' \<and> separated (element_text V) js t)))
      (run_bind (value_at p ?h) (\<lambda>(v, p) h. run_bind (njs_array_add h a v) (\<lambda>_ h.
         let p = njs_json_skip_space p
         in if p = [] then throw (json_error text ''Unexpected end of input'' p) h
            else if hd p = 0x2C then json_elements_loop text value_at a False p h
            else if hd p = 0x5D then ok (tl p) h
            else throw (json_error text ''Unexpected token'' p) h)))"
    proof (rule sound_bind, clarsimp, goal_cases)
      case (1 v p1 gs j u)
      obtain sz fr where add: "njs_array_add (h0 @ obj # fs @ gs) a v =
          ok () (h0 @ obj\<lparr>obj_start := obj_start obj @ [v], obj_size := sz, obj_free := fr\<rparr> # fs @ gs)"
        using array_add [of obj a h0 "fs @ gs" v] less.prems assms(2) w(2) 1 by (cases u) auto
      let ?obj = "obj\<lparr>obj_start := obj_start obj @ [v], obj_size := sz, obj_free := fr\<rparr>"
      define p2 where "p2 = njs_json_skip_space p1"
      obtain w' where w': "spaces w'" "p1 = w' @ p2" using skipped [of p1] unfolding p2_def by blast
      have element: "element_text V j (w @ u @ w')" using w(1) w'(1) 1(4) by (auto simp: element_text_def)
      consider "p2 = []" | r where "p2 = 0x2C # r" | r where "p2 = 0x5D # r" |
        "p2 \<noteq> []" "hd p2 \<noteq> 0x2C" "hd p2 \<noteq> 0x5D" by (cases p2) auto
      then show ?case
      proof cases
        case (2 r)
        have q: "q = (w @ u @ w') @ 0x2C # r" using w(2) 1(2) w'(2) 2 by simp
        then have "length r < length q" "length (obj_start ?obj) + length r \<le> json_limit"
          using less.prems by simp_all
        from less.hyps [OF this, of False "0x2C" "fs @ gs"]
        have "sound_result (\<lambda>p' h'. (\<exists>gs. h' = h0 @ gs) \<and>
            ((none \<and> (\<exists>w. q = w @ 0x5D # p' \<and> spaces w)) \<or> (\<exists>js t. q = t @ 0x5D # p' \<and> separated (element_text V) js t)))
          (json_elements_loop text value_at a False (0x2C # r) (h0 @ ?obj # fs @ gs))"
        proof (rule sound_mono, elim conjE disjE, simp, elim exE conjE, goal_cases)
          case (1 p' h' gs' js t)
          then have "q = ((w @ u @ w') @ 0x2C # t) @ 0x5D # p'" "separated (element_text V) js t" using q by simp_all
          with separated.more [of "element_text V", OF element] 1 show ?case by blast
        qed
        then show ?thesis using 2 by (simp add: add p2_def [symmetric])
      next
        case (3 r)
        have q: "q = (w @ u @ w') @ 0x5D # r" using w(2) 1(2) w'(2) 3 by simp
        then show ?thesis
          using 3 separated.one [of "element_text V", OF element] by (auto simp: add p2_def [symmetric])
      qed (simp_all add: add p2_def [symmetric])
    qed
    with 3 show ?thesis
      by (subst json_elements_loop.simps) (simp add: p_def [symmetric] Let_def)
  qed
qed

lemma members_sound:
  assumes "sound_reader value_at V" "a = length h0" "length q \<le> json_limit"
  shows "sound_result (\<lambda>p' h'. (\<exists>gs. h' = h0 @ gs) \<and>
      ((\<not> some \<and> (\<exists>w. q = w @ 0x7D # p' \<and> spaces w)) \<or> (\<exists>ms t. q = t @ 0x7D # p' \<and> separated (member_text V) ms t)))
    (json_members_loop text value_at a some (c # q) (h0 @ obj # fs))"
  using assms(3)
proof (induction "length q" arbitrary: q obj fs some c rule: less_induct)
  case less
  let ?ok = "\<lambda>p' h'. (\<exists>gs. h' = h0 @ gs) \<and>
    ((\<not> some \<and> (\<exists>w. q = w @ 0x7D # p' \<and> spaces w)) \<or> (\<exists>ms t. q = t @ 0x7D # p' \<and> separated (member_text V) ms t))"
  let ?h = "h0 @ obj # fs"
  define p where "p = njs_json_skip_space q"
  obtain w where w: "spaces w" "q = w @ p" using skipped [of q] unfolding p_def by blast
  consider "p = []" | "p \<noteq> []" "hd p \<noteq> 0x22" | p0 where "p = 0x22 # p0" by (cases p) auto
  then show ?case
  proof cases
    case 1
    then show ?thesis by (subst json_members_loop.simps) (simp add: p_def [symmetric])
  next
    case 2
    then have "hd p = 0x7D \<Longrightarrow> \<exists>w. q = w @ 0x7D # tl p \<and> spaces w" using w by (cases p) auto
    with 2 show ?thesis
      by (subst json_members_loop.simps) (simp add: p_def [symmetric])
  next
    case (3 p0)
    have "length p0 \<le> NJS_STRING_MAX_LENGTH"
      using less.prems w(2) 3 by (simp add: json_limit_def NJS_STRING_MAX_LENGTH_def)
    from parse_string_total [OF this, of "text"] show ?thesis
    proof (elim disjE exE conjE)
      fix m assume "njs_json_parse_string text (0x22 # p0) = Inl (Syntax_error m)"
      with 3 show ?thesis by (subst json_members_loop.simps) (simp add: p_def [symmetric])
    next
      fix cs p1
      assume cs: "list_all char_ok cs" "p0 = chars_text cs @ 0x22 # p1"
        and name: "njs_json_parse_string text (0x22 # p0) = Inr (json_string (chars_bytes cs), p1)"
      define p2 where "p2 = njs_json_skip_space p1"
      obtain w1 where w1: "spaces w1" "p1 = w1 @ p2" using skipped [of p1] unfolding p2_def by blast
      show ?thesis
      proof (cases "p2 = [] \<or> hd p2 \<noteq> 0x3A")
        case True
        with 3 name show ?thesis by (subst json_members_loop.simps) (auto simp: p_def [symmetric] p2_def [symmetric])
      next
        case False
        then obtain p3 where p3: "p2 = 0x3A # p3" by (cases p2) auto
        define p4 where "p4 = njs_json_skip_space p3"
        obtain w2 where w2: "spaces w2" "p3 = w2 @ p4" using skipped [of p3] unfolding p4_def by blast
        have loop: "json_members_loop text value_at a some (c # q) ?h =
          (if p4 = [] then throw (json_error text ''Unexpected end of input'' p4) ?h
           else run_bind (value_at p4 ?h) (\<lambda>(v, p) h.
             let h = put_prop h a (str_start (json_string (chars_bytes cs)))
                       (njs_object_prop_alloc (json_string (chars_bytes cs)) v NJS_ATTRIBUTE_TRUE);
                 p = njs_json_skip_space p
             in if p = [] then throw (json_error text ''Unexpected end of input'' p) h
                else if hd p = 0x2C then json_members_loop text value_at a True p h
                else if hd p = 0x7D then ok (tl p) h
                else throw (json_error text ''Unexpected token'' p) h))"
          using 3 name False p3
          by (subst json_members_loop.simps) (simp add: p_def [symmetric] p2_def [symmetric] p4_def [symmetric] Let_def)
        show ?thesis
        proof (cases "p4 = []")
          case True
          with loop show ?thesis by simp
        next
          case False
          have q: "q = w @ 0x22 # chars_text cs @ 0x22 # w1 @ 0x3A # w2 @ p4"
            using w(2) 3 cs(2) w1(2) p3 w2(2) by simp
          then have "length p4 \<le> json_limit" using less.prems by simp
          with False assms(1) have first: "sound_result (\<lambda>(v, p') h'. (\<exists>gs. h' = ?h @ gs) \<and>
              (\<exists>j t. p4 = t @ p' \<and> t \<noteq> [] \<and> V j t)) (value_at p4 ?h)" unfolding sound_reader_def by blast
          show ?thesis
            unfolding loop if_not_P [OF False]
          proof (rule sound_bind [OF first], clarsimp, goal_cases)
            case (1 v p5 gs j u)
            let ?obj = "obj\<lparr>obj_hash := add_member (obj_hash obj) (json_string (chars_bytes cs), v)\<rparr>"
            define p6 where "p6 = njs_json_skip_space p5"
            obtain w3 where w3: "spaces w3" "p5 = w3 @ p6" using skipped [of p5] unfolding p6_def by blast
            let ?t = "w @ 0x22 # chars_text cs @ 0x22 # w1 @ 0x3A # w2 @ u @ w3"
            have "element_text V j (w2 @ u @ w3)" using w2(1) w3(1) 1 unfolding element_text_def by blast
            then have member: "member_text V (chars_bytes cs, j) ?t"
              using w(1) cs(1) w1(1) unfolding member_text_def fst_conv snd_conv by blast
            consider "p6 = []" | r where "p6 = 0x2C # r" | r where "p6 = 0x7D # r" |
              "p6 \<noteq> []" "hd p6 \<noteq> 0x2C" "hd p6 \<noteq> 0x7D" by (cases p6) auto
            then show ?case
            proof cases
              case (2 r)
              have qr: "q = ?t @ 0x2C # r" using q 1 w3(2) 2 by simp
              then have "length r < length q" "length r \<le> json_limit" using less.prems by simp_all
              from less.hyps [OF this, of True "0x2C" ?obj "fs @ gs"]
              have "sound_result ?ok (json_members_loop text value_at a True (0x2C # r) (h0 @ ?obj # fs @ gs))"
              proof (rule sound_mono, elim conjE disjE, simp, elim exE conjE, goal_cases)
                case (1 p' h' gs' ms t)
                then have "q = (?t @ 0x2C # t) @ 0x7D # p'" "separated (member_text V) ms t" using qr by simp_all
                with separated.more [of "member_text V", OF member] 1 show ?case by blast
              qed
              then show ?thesis using 2 by (simp add: put_member [OF assms(2)] p6_def [symmetric])
            next
              case (3 r)
              have "q = ?t @ 0x7D # r" using q 1 w3(2) 3 by simp
              then have "\<exists>ms t. q = t @ 0x7D # r \<and> separated (member_text V) ms t"
                using separated.one [of "member_text V", OF member] by blast
              then show ?thesis using 3 by (simp add: put_member [OF assms(2)] p6_def [symmetric])
            qed (simp_all add: p6_def [symmetric])
          qed
        qed
      qed
    qed
  qed
qed

section \<open>The reader of values\<close>

lemma separated_length:
  assumes "separated P xs t" "\<And>x t. P x t \<Longrightarrow> t \<noteq> []"
  shows "length xs \<le> length t"
  using assms(1)
proof induction
  case (one x t)
  then show ?case using assms(2) [of x t] by (cases t) auto
next
  case (more x t xs r)
  then show ?case using assms(2) [of x t] by (cases t) auto
qed

lemma element_not_empty: "element_text (json_value env n) j t \<Longrightarrow> t \<noteq> []"
  by (auto simp: element_text_def dest: value_first)

lemma array_start: "njs_array_alloc env h 0 0 = ok (length h) (h @ [(array_object env)\<lparr>obj_start := [], obj_size := 0, obj_free := 0\<rparr>])"
  by (simp add: njs_array_alloc_def array_object_def plain_object_def)

lemma number_complete:
  assumes "json_number env x t" "ends_number p" "strtod_local env"
  shows "njs_json_parse_value env text n (t @ p) h = ok (Number_value x, p) h"
proof -
  obtain u where u: "number_token u" and t: "t = u \<and> x = fst (env_strtod env u) \<or> t = 0x2D # u \<and> x = number_neg (fst (env_strtod env u))"
    using assms(1) by (auto simp: json_number_def)
  obtain c v where v: "u = c # v" "c = 0x2E \<or> digit c" using number_first [OF u] by blast
  then have c: "c \<noteq> 0x2D" "c \<le> 0x39" "c \<notin> {0x7B, 0x5B, 0x22, 0x74, 0x66, 0x6E}"
    by (auto simp: digit_range)
  have "njs_strtod_end (u @ p) = Some p" by (rule number_read [OF u assms(2)])
  moreover from this have "fst (env_strtod env (u @ p)) = fst (env_strtod env u)"
    using assms(3) by (simp add: strtod_local_def)
  ultimately show ?thesis
    using t c by (subst njs_json_parse_value.simps) (auto simp: v(1) njs_json_parse_number_def Let_def)
qed

lemma scalar_complete:
  assumes "json_value env n j t" "length t \<le> json_limit" "ends_number p" "strtod_local env"
    and "\<nexists>js. j = J_arr js" "\<nexists>ms. j = J_obj ms"
  shows "\<exists>v fs. njs_json_parse_value env text n (t @ p) h = ok (v, p) (h @ fs) \<and> represents env (h @ fs) (length h) v j"
    using assms(1)
proof cases
  case (num x)
  then show ?thesis
    using number_complete [OF _ assms(3,4)] by (intro exI [of _ "Number_value x"] exI [of _ "[]"]) (simp add: represents.num)
next
  case (str cs)
  then have "length (chars_text cs) \<le> NJS_STRING_MAX_LENGTH"
    using assms(2) by (simp add: json_limit_def NJS_STRING_MAX_LENGTH_def)
  then have "njs_json_parse_value env text n (t @ p) h = ok (String (json_string (chars_bytes cs)), p) h"
    using str parse_string_chars [of cs "text" p] by (subst njs_json_parse_value.simps) simp
  then show ?thesis using str by (intro exI [of _ "String (json_string (chars_bytes cs))"] exI [of _ "[]"]) (simp add: represents.str)
next
  case null
  then have "njs_json_parse_value env text n (t @ p) h = ok (Null_value, p) h"
    by (subst njs_json_parse_value.simps) simp
  then show ?thesis using null by (intro exI [of _ Null_value] exI [of _ "[]"]) (simp add: represents.null)
next
  case true
  then have "njs_json_parse_value env text n (t @ p) h = ok (Boolean True, p) h"
    by (subst njs_json_parse_value.simps) simp
  then show ?thesis using true by (intro exI [of _ "Boolean True"] exI [of _ "[]"]) (simp add: represents.bool)
next
  case false
  then have "njs_json_parse_value env text n (t @ p) h = ok (Boolean False, p) h"
    by (subst njs_json_parse_value.simps) simp
  then show ?thesis using false by (intro exI [of _ "Boolean False"] exI [of _ "[]"]) (simp add: represents.bool)
qed (use assms(5,6) in auto)

lemma value_complete:
  assumes "strtod_local env"
  shows "complete_reader env (njs_json_parse_value env text n) (json_value env n)"
proof (induction n)
  case 0
  have "\<nexists>js. j = J_arr js" "\<nexists>ms. j = J_obj ms" if "json_value env 0 j t" for j t
    using that by (auto elim: json_value.cases)
  then show ?case
    by (intro complete_readerI scalar_complete value_first assms) auto
next
  case (Suc n)
  have "\<exists>v fs. njs_json_parse_value env text (Suc n) (t @ p) h = ok (v, p) (h @ fs) \<and> represents env (h @ fs) (length h) v j"
    if t: "json_value env (Suc n) j t" "length t \<le> json_limit" "ends_number p" for j t p h
  proof (cases "(\<exists>js. j = J_arr js) \<or> (\<exists>ms. j = J_obj ms)")
    case False
    then show ?thesis using scalar_complete [OF t assms] by blast
  next
    case True
    let ?obj = "(array_object env)\<lparr>obj_start := [], obj_size := 0, obj_free := 0\<rparr>"
    have array: ?thesis if "json_elements_loop text (\<lambda>p h. njs_json_parse_value env text n p h) (length h) True (t @ p) (h @ [?obj]) = ok p h'"
      "h' = h @ ?obj\<lparr>obj_start := vs, obj_size := sz, obj_free := fr\<rparr> # gs"
      "list_all2 (represents env h' (Suc (length h))) vs js" "j = J_arr js" "t = 0x5B # u" for h' vs sz fr gs js u
    proof -
      have "list_all2 (represents env h' (length h)) vs js"
        using that(3) by (rule list_all2_mono) (erule represents_frame; simp)
      then have "represents env h' (length h) (Object NJS_ARRAY (length h)) j"
        unfolding that(4) by (rule represents.arr [rotated 3]) (use that(2) in auto)
      moreover have "njs_json_parse_value env text (Suc n) (t @ p) h = ok (Object NJS_ARRAY (length h), p) h'"
        using that(1,5) by (subst njs_json_parse_value.simps) (simp add: array_start)
      ultimately show ?thesis using that(2) by blast
    qed
    have object: ?thesis if "json_members_loop text (\<lambda>p h. njs_json_parse_value env text n p h) (length h) False (t @ p) (h @ [plain_object env]) = ok p h'"
      "h' = h @ (plain_object env)\<lparr>obj_hash := members_table ms\<rparr> # gs"
      "list_all2 (\<lambda>m kj. fst m = json_string (fst kj) \<and> represents env h' (Suc (length h)) (snd m) (snd kj)) ms js"
      "j = J_obj js" "t = 0x7B # u" for h' ms gs js u
    proof -
      have "list_all2 (\<lambda>m kj. fst m = json_string (fst kj) \<and> represents env h' (length h) (snd m) (snd kj)) ms js"
        using that(3) by (rule list_all2_mono) (auto elim: represents_frame)
      then have "represents env h' (length h) (Object NJS_OBJECT (length h)) j"
        unfolding that(4) by (rule represents.obj [rotated 3]) (use that(2) in auto)
      moreover have "njs_json_parse_value env text (Suc n) (t @ p) h = ok (Object NJS_OBJECT (length h), p) h'"
        using that(1,5) by (subst njs_json_parse_value.simps) (simp add: njs_object_alloc_def)
      ultimately show ?thesis using that(2) by blast
    qed
    from t(1) True show ?thesis
    proof cases
      case (no_elements w)
      then show ?thesis
        by (intro array [where vs = "[]" and sz = 0 and fr = 0 and gs = "[]"], subst json_elements_loop.simps) (auto simp: skip_spaces)
    next
      case (elements js u)
      have "length js \<le> length u" using elements(3) element_not_empty by (rule separated_length)
      moreover have u: "length u \<le> json_limit" using t(2) elements(2) by simp
      ultimately obtain vs sz fr gs h' where
        "h' = h @ ?obj\<lparr>obj_start := obj_start ?obj @ vs, obj_size := sz, obj_free := fr\<rparr> # [] @ gs"
        "json_elements_loop text (njs_json_parse_value env text n) (length h) True (0x5B # u @ 0x5D # p) (h @ ?obj # []) = ok p h'"
        "list_all2 (represents env h' (Suc (length h))) vs js"
        using elements_complete [OF elements(3) Suc.IH u, of ?obj "length h" h "[]" "text" True "0x5B" p] by auto
      then show ?thesis
        by (intro array [where h' = h' and vs = vs and sz = sz and fr = fr and gs = gs]) (simp_all add: elements(1,2))
    next
      case (no_members w)
      then show ?thesis
        by (intro object [where ms = "[]" and gs = "[]"], subst json_members_loop.simps) (auto simp: skip_spaces members_table_def plain_object_def)
    next
      case (members ms u)
      have u: "length u \<le> json_limit" using t(2) members(2) by simp
      obtain vs gs h' where
        "h' = h @ (plain_object env)\<lparr>obj_hash := foldl add_member (obj_hash (plain_object env)) vs\<rparr> # [] @ gs"
        "json_members_loop text (njs_json_parse_value env text n) (length h) False (0x7B # u @ 0x7D # p) (h @ plain_object env # []) = ok p h'"
        "list_all2 (\<lambda>m kj. fst m = json_string (fst kj) \<and> represents env h' (Suc (length h)) (snd m) (snd kj)) vs ms"
        using members_complete [OF members(3) Suc.IH u refl, of h "plain_object env" "[]" "text" False "0x7B" p] by blast
      moreover have "obj_hash (plain_object env) = []" by (simp add: plain_object_def)
      ultimately show ?thesis
        by (intro object [where h' = h' and ms = vs and gs = gs]) (simp_all add: members(1,2) members_table_def)
    qed auto
  qed
  then show ?case by (intro complete_readerI value_first)
qed

lemma number_sound:
  assumes "strtod_local env" "p \<noteq> []"
  shows "sound_result (\<lambda>(v, p') h'. h' = h \<and> (\<exists>x t. p = t @ p' \<and> t \<noteq> [] \<and> json_number env x t))
    (Some (njs_json_parse_number env text p, h))"
proof -
  define minus where "minus = (hd p = 0x2D)"
  define start where "start = (if minus then tl p else p)"
  have p: "p = (if minus then [0x2D] else []) @ start" using assms(2) by (cases p) (auto simp: minus_def start_def)
  have "\<exists>x t. p = t @ p' \<and> t \<noteq> [] \<and> json_number env x t" if read: "njs_strtod_end start = Some p'" for p'
  proof -
    obtain t where t: "number_token t" "start = t @ p'" using number_written [OF read] by blast
    have "t \<noteq> []" using number_first [OF t(1)] by auto
    moreover have "json_number env (if minus then number_neg (fst (env_strtod env t)) else fst (env_strtod env t))
        ((if minus then [0x2D] else []) @ t)" using t(1) by (auto simp: json_number_def)
    ultimately show ?thesis using p t(2) by (metis append_assoc append_is_Nil_conv)
  qed
  then show ?thesis
    using assms(2) by (auto simp: njs_json_parse_number_def Let_def minus_def [symmetric] start_def [symmetric] split: option.split)
qed

lemma scalar_sound:
  assumes "strtod_local env" "p \<noteq> []" "length p \<le> json_limit" "hd p \<noteq> 0x7B" "hd p \<noteq> 0x5B"
  shows "sound_result (\<lambda>(v, p') h'. (\<exists>fs. h' = h @ fs) \<and> (\<exists>j t. p = t @ p' \<and> t \<noteq> [] \<and> json_value env n j t))
    (njs_json_parse_value env text n p h)"
proof -
  obtain c q where p: "p = c # q" using assms(2) by (cases p) auto
  let ?ok = "\<lambda>(v, p') h'. (\<exists>fs. h' = h @ fs) \<and> (\<exists>j t. p = t @ p' \<and> t \<noteq> [] \<and> json_value env n j t)"
  have word: "?ok (v, drop k p) h" if "take k p = t" "t \<noteq> []" "json_value env n j t" for v k t j
  proof -
    have "p = t @ drop k p" using that(1) append_take_drop_id [of k p] by simp
    with that(2,3) show ?thesis by auto
  qed
  consider "c = 0x22" | "c = 0x74" "take 4 p = ascii ''true''" | "c = 0x66" "take 5 p = ascii ''false''" |
    "c = 0x6E" "take 4 p = ascii ''null''" | "c \<noteq> 0x22" "c = 0x74 \<longrightarrow> take 4 p \<noteq> ascii ''true''"
      "c = 0x66 \<longrightarrow> take 5 p \<noteq> ascii ''false''" "c = 0x6E \<longrightarrow> take 4 p \<noteq> ascii ''null''" by blast
  then show ?thesis
  proof cases
    case 1
    have "length q \<le> NJS_STRING_MAX_LENGTH" using assms(3) p by (simp add: json_limit_def NJS_STRING_MAX_LENGTH_def)
    from parse_string_total [OF this, of "text"] show ?thesis
    proof (elim disjE exE conjE)
      fix cs p' assume cs: "list_all char_ok cs" "q = chars_text cs @ 0x22 # p'"
        and string: "njs_json_parse_string text (0x22 # q) = Inr (json_string (chars_bytes cs), p')"
      have "p = (0x22 # chars_text cs @ [0x22]) @ p'" using 1 p cs(2) by simp
      with json_value.str [OF cs(1), of env n] have "?ok (String (json_string (chars_bytes cs)), p') h" by blast
      then show ?thesis using 1 p string by (subst njs_json_parse_value.simps) simp
    qed (use 1 p in \<open>subst njs_json_parse_value.simps, simp\<close>)
  next
    case 2
    have "?ok (Boolean True, drop 4 p) h" by (rule word [OF 2(2) _ json_value.true]) simp
    with 2 show ?thesis
      using p by (subst njs_json_parse_value.simps) (simp del: ascii_simps)
  next
    case 3
    have "?ok (Boolean False, drop 5 p) h" by (rule word [OF 3(2) _ json_value.false]) simp
    with 3 show ?thesis
      using p by (subst njs_json_parse_value.simps) (simp del: ascii_simps)
  next
    case 4
    have "?ok (Null_value, drop 4 p) h" by (rule word [OF 4(2) _ json_value.null]) simp
    with 4 show ?thesis
      using p by (subst njs_json_parse_value.simps) (simp del: ascii_simps)
  next
    case 5
    have "sound_result ?ok (Some (njs_json_parse_number env text p, h))"
      by (rule sound_mono [OF number_sound [OF assms(1,2)]]) (auto intro: json_value.num)
    with 5 show ?thesis
      using p assms(4,5) by (subst njs_json_parse_value.simps) (auto simp del: ascii_simps)
  qed
qed

lemma value_sound:
  assumes "strtod_local env"
  shows "sound_reader (njs_json_parse_value env text n) (json_value env n)"
proof (induction n)
  case 0
  have "sound_result (\<lambda>(v, p') h'. (\<exists>fs. h' = h @ fs) \<and> (\<exists>j t. p = t @ p' \<and> t \<noteq> [] \<and> json_value env 0 j t))
      (njs_json_parse_value env text 0 p h)" if "p \<noteq> []" "length p \<le> json_limit" for p h
  proof (cases "hd p = 0x7B \<or> hd p = 0x5B")
    case True
    then show ?thesis using that by (cases p; subst njs_json_parse_value.simps) auto
  qed (use scalar_sound [OF assms that] in auto)
  then show ?case by (simp add: sound_reader_def)
next
  case (Suc n)
  let ?ok = "\<lambda>p h (v, p') h'. (\<exists>fs. h' = h @ fs) \<and> (\<exists>j t. p = t @ p' \<and> t \<noteq> [] \<and> json_value env (Suc n) j t)"
  have "sound_result (?ok p h) (njs_json_parse_value env text (Suc n) p h)" if p': "p \<noteq> []" "length p \<le> json_limit" for p h
  proof -
    obtain c q where p: "p = c # q" using p'(1) by (cases p) auto
    consider "c = 0x7B" | "c = 0x5B" | "c \<noteq> 0x7B" "c \<noteq> 0x5B" by blast
    then show ?thesis
    proof cases
      case 1
      have "sound_result (?ok p h) (run_bind (json_members_loop text (njs_json_parse_value env text n) (length h) False (c # q) (h @ [plain_object env]))
          (\<lambda>p h'. ok (Object NJS_OBJECT (length h), p) h'))"
      proof (rule sound_bind [OF members_sound [OF Suc.IH refl]], goal_cases)
        case (2 p' h')
        then obtain ms t where "q = t @ 0x7D # p'" "json_value env (Suc n) (J_obj ms) (0x7B # t @ [0x7D])"
          by (blast intro: json_value.no_members json_value.members)
        then have "p = (0x7B # t @ [0x7D]) @ p'" "json_value env (Suc n) (J_obj ms) (0x7B # t @ [0x7D])" using p 1 by simp_all
        with 2 show ?case by (simp only: sound_result_simps prod.case) blast
      qed (use p'(2) p in simp)
      then show ?thesis using p 1 by (subst njs_json_parse_value.simps) (simp add: njs_object_alloc_def)
    next
      case 2
      have "sound_result (?ok p h) (run_bind (json_elements_loop text (njs_json_parse_value env text n) (length h) True (c # q)
            (h @ [(array_object env)\<lparr>obj_start := [], obj_size := 0, obj_free := 0\<rparr>]))
          (\<lambda>p h'. ok (Object NJS_ARRAY (length h), p) h'))"
      proof (rule sound_bind [OF elements_sound [OF Suc.IH refl]], goal_cases)
        case (2 p' h')
        then obtain js t where "q = t @ 0x5D # p'" "json_value env (Suc n) (J_arr js) (0x5B # t @ [0x5D])"
          by (blast intro: json_value.no_elements json_value.elements)
        then have "p = (0x5B # t @ [0x5D]) @ p'" "json_value env (Suc n) (J_arr js) (0x5B # t @ [0x5D])"
          using p \<open>c = 0x5B\<close> by simp_all
        with 2 show ?case by (simp only: sound_result_simps prod.case) blast
      qed (use p'(2) p in simp)
      then show ?thesis using p 2 by (subst njs_json_parse_value.simps) (simp add: array_start)
    next
      case 3
      then show ?thesis using scalar_sound [OF assms p', of h "Suc n" "text"] p by simp
    qed
  qed
  then show ?case by (simp add: sound_reader_def)
qed

section \<open>\<open>JSON.parse\<close>\<close>

text \<open>A JSON text: a value with less than 32 levels of brackets between white space.\<close>

definition json_document :: "env \<Rightarrow> json \<Rightarrow> bytes \<Rightarrow> bool" where
  "json_document env j t \<longleftrightarrow> element_text (json_value env 31) j t"

lemma skip_to_value:
  assumes "element_text (json_value env n) j t"
  obtains u w where "njs_json_skip_space t = u @ w" "u \<noteq> []" "json_value env n j u" "spaces w"
proof -
  obtain w u w' where t: "t = w @ u @ w'" "spaces w" "spaces w'" "json_value env n j u"
    using assms by (auto simp: element_text_def)
  moreover obtain c v where "u = c # v" "\<not> json_space c" using value_first [OF t(4)] by blast
  ultimately show thesis by (intro that [of u w']) (simp_all add: skip_spaces)
qed

lemma skip_all: "spaces w \<Longrightarrow> njs_json_skip_space w = []"
  by (induction w) auto

text \<open>
  C9. \<open>JSON.parse\<close> accepts exactly the JSON texts: for a text of the grammar it returns a value
  that stands for it, in new memory, with everything else as it was; for any other text it
  throws a \<open>SyntaxError\<close>. It ends for every text, and never reads or writes outside of its memory.
\<close>

theorem json_parse_correct:
  assumes "njs_arg args 1 = String s" "\<not> njs_is_function (njs_arg args 2)" "length (str_start s) \<le> json_limit"
    and "strtod_local env"
  shows "(\<exists>j. json_document env j (str_start s)) \<and>
      (\<forall>j. json_document env j (str_start s) \<longrightarrow>
        (\<exists>v fs. njs_json_parse env revive h args = ok v (h @ fs) \<and> represents env (h @ fs) (length h) v j)) \<or>
    (\<nexists>j. json_document env j (str_start s)) \<and>
      (\<exists>m h'. njs_json_parse env revive h args = throw (Syntax_error m) h')"
proof -
  let ?t = "str_start s"
  define p where "p = njs_json_skip_space ?t"
  have parse: "njs_json_parse env revive h args =
      (if p = [] then throw (json_error ?t ''Unexpected end of input'' p) h
       else run_bind (njs_json_parse_value env ?t 31 p h) (\<lambda>(v, p) h.
         if njs_json_skip_space p \<noteq> [] then throw (json_error ?t ''Unexpected token'' (njs_json_skip_space p)) h else ok v h))"
    using assms(1,2) by (simp add: njs_json_parse_def p_def Let_def NJS_JSON_MAX_DEPTH_def split_def cong: if_cong)
  obtain w where w: "spaces w" "?t = w @ p" using skipped [of ?t] unfolding p_def by blast
  have limit: "length p \<le> json_limit" using assms(3) w(2) by simp
  have accepts: "\<exists>v fs. njs_json_parse env revive h args = ok v (h @ fs) \<and> represents env (h @ fs) (length h) v j"
    if document: "json_document env j ?t" for j
  proof -
    obtain u w' where u: "p = u @ w'" "u \<noteq> []" "json_value env 31 j u" "spaces w'"
      using document unfolding json_document_def p_def by (rule skip_to_value)
    have "length u \<le> json_limit" using limit u(1) by simp
    moreover have "ends_number w'" using ends_number_spaces [OF u(4), of "[]"] by simp
    ultimately obtain v fs where "njs_json_parse_value env ?t 31 (u @ w') h = ok (v, w') (h @ fs)"
      "represents env (h @ fs) (length h) v j"
      using value_complete [OF assms(4), of ?t 31] u(3) unfolding complete_reader_def by blast
    then show ?thesis using parse u(1,2) skip_all [OF u(4)] by auto
  qed
  have "sound_result (\<lambda>v h. \<exists>j. json_document env j ?t) (njs_json_parse env revive h args)"
  proof (cases "p = []")
    case False
    from value_sound [OF assms(4), of ?t 31] limit this
    have first: "sound_result (\<lambda>(v, p') h'. (\<exists>fs. h' = h @ fs) \<and> (\<exists>j t. p = t @ p' \<and> t \<noteq> [] \<and> json_value env 31 j t))
        (njs_json_parse_value env ?t 31 p h)" unfolding sound_reader_def by blast
    show ?thesis
      unfolding parse if_not_P [OF False]
    proof (rule sound_bind [OF first], goal_cases)
      case (1 x h')
      obtain v p' where x: "x = (v, p')" by (cases x)
      with 1 obtain j u where u: "p = u @ p'" "json_value env 31 j u" by auto
      obtain w' where w': "spaces w'" "p' = w' @ njs_json_skip_space p'" using skipped [of p'] by blast
      have "json_document env j ?t" if "njs_json_skip_space p' = []"
        using w w' u that unfolding json_document_def element_text_def by (metis append_Nil2)
      then show ?case by (auto simp: x)
    qed
  qed (simp add: parse)
  then show ?thesis
    using accepts by (cases "\<exists>j. json_document env j ?t") (auto simp: sound_result_def split: option.splits sum.splits)
qed

lemma json_parse_correct_witness:
  "\<exists>v fs. njs_json_parse sample_env (\<lambda>_ v h. ok v h) sample_heap [Undefined, String (text_string ''[true]'')] =
      ok v (sample_heap @ fs) \<and> represents sample_env (sample_heap @ fs) (length sample_heap) v (J_arr [J_bool True])"
proof -
  let ?args = "[Undefined, String (text_string ''[true]'')]" and ?u = "0x5B # ascii ''true'' @ [0x5D]"
  have "element_text (json_value sample_env 30) (J_bool True) (ascii ''true'')"
    unfolding element_text_def
    by (rule exI [of _ "[]"], rule exI [of _ "ascii ''true''"], rule exI [of _ "[]"])
      (use json_value.true in simp)
  then have "json_value sample_env (Suc 30) (J_arr [J_bool True]) ?u"
    by (intro json_value.elements separated.one)
  moreover have "str_start (text_string ''[true]'') = ?u" by (simp add: text_string_def)
  ultimately have document: "json_document sample_env (J_arr [J_bool True]) (str_start (text_string ''[true]''))"
    unfolding json_document_def element_text_def
    by (intro exI [of _ "[]"] exI [of _ ?u]) simp
  have env: "fst (env_strtod sample_env p) = NaN" for p by (simp add: sample_env_def native_env_def)
  have args: "njs_arg ?args 1 = String (text_string ''[true]'')" "\<not> njs_is_function (njs_arg ?args 2)"
    by (simp_all add: njs_arg_def)
  have "length (str_start (text_string ''[true]'')) \<le> json_limit"
    by (simp add: text_string_def json_limit_def)
  moreover have "strtod_local sample_env" by (simp add: strtod_local_def env)
  ultimately show ?thesis
    using document json_parse_correct [OF args, of sample_env "\<lambda>_ v h. ok v h" sample_heap] by blast
qed

end
