(* ===== verification/Njs_Json_Print.thy ===== *)
theory Njs_Json_Print
  imports Njs_Json_Grammar
begin

text \<open>
  Writing JSON texts, the lower layer of \<open>JSON.stringify\<close> in \<open>src/src/njs_json.c\<close>: the chain of
  buffers (\<open>njs_json_buf_append\<close>, \<open>njs_json_buf_reserve\<close>, \<open>njs_json_buf_pullup\<close>) and the writers of
  strings, numbers and other primitive values.
\<close>

section \<open>Buffers\<close>

text \<open>
  A node has \<open>node_size\<close> bytes of memory, the first of which are written; the last node of the
  chain is the current one. A write behind the memory of a node is \<^const>\<open>None\<close>.
\<close>

record njs_chb_node =
  node_size :: nat
  node_data :: bytes

definition NJS_JSON_BUF_MIN_SIZE :: nat where
  "NJS_JSON_BUF_MIN_SIZE = 128"

definition node_room :: "njs_chb_node \<Rightarrow> nat" where
  "node_room n = node_size n - length (node_data n)"

definition njs_json_buf_reserve :: "njs_chb_node list \<Rightarrow> nat \<Rightarrow> njs_chb_node list option" where
  "njs_json_buf_reserve nodes sz =
     (if sz = 0 then None
      else if nodes \<noteq> [] \<and> node_room (last nodes) \<ge> sz then Some nodes
      else
        let sz = (if sz < NJS_JSON_BUF_MIN_SIZE then NJS_JSON_BUF_MIN_SIZE else sz)
        in Some (nodes @ [\<lparr>node_size = sz, node_data = []\<rparr>]))"

definition njs_json_buf_written :: "njs_chb_node list \<Rightarrow> bytes \<Rightarrow> njs_chb_node list option" where
  "njs_json_buf_written nodes bs =
     (if nodes = [] \<or> length bs > node_room (last nodes) then None
      else Some (butlast nodes @ [(last nodes)\<lparr>node_data := node_data (last nodes) @ bs\<rparr>]))"

definition njs_json_buf_append :: "njs_chb_node list \<Rightarrow> bytes \<Rightarrow> njs_chb_node list option" where
  "njs_json_buf_append nodes msg =
     (if msg \<noteq> [] then
        Option.bind (njs_json_buf_reserve nodes (length msg)) (\<lambda>nodes. njs_json_buf_written nodes msg)
      else Some nodes)"

definition njs_json_buf_pullup :: "njs_chb_node list \<Rightarrow> bytes" where
  "njs_json_buf_pullup nodes =
     (case nodes of
        [] \<Rightarrow> []
      | [n] \<Rightarrow> node_data n
      | _ \<Rightarrow> foldl (\<lambda>str n. str @ node_data n) [] nodes)"

section \<open>Strings\<close>

definition json_special :: "u8 \<Rightarrow> u8 \<Rightarrow> bool" where
  "json_special quote c \<longleftrightarrow> c < 0x20 \<or> c = 0x5C \<or> c = 0x22 \<and> quote = 0x22"

definition hex2char :: bytes where
  "hex2char = ascii ''0123456789ABCDEF''"

definition json_escaped :: "u8 \<Rightarrow> bytes" where
  "json_escaped c = 0x5C #
     (if c = 0x5C then [0x5C]
      else if c = 0x22 then [0x22]
      else if c = 0x0D then [0x72]
      else if c = 0x0A then [0x6E]
      else if c = 0x09 then [0x74]
      else if c = 0x08 then [0x62]
      else if c = 0x0C then [0x66]
      else [0x75, 0x30, 0x30, hex2char ! unat (drop_bit 4 (c AND 0xF0)), hex2char ! unat (c AND 0x0F)])"

text \<open>
  \<open>out\<close> holds the bytes written to the 64 reserved ones. The inner loop copies characters as
  they are while more than 6 bytes are free.
\<close>

definition json_put :: "bytes \<Rightarrow> bytes \<Rightarrow> bytes option" where
  "json_put out bs = (if length (out @ bs) \<le> 64 then Some (out @ bs) else None)"

partial_function (option) json_copy_loop :: "u8 \<Rightarrow> bool \<Rightarrow> bytes \<Rightarrow> bytes \<Rightarrow> (bytes \<times> bytes) option" where
  [code]: "json_copy_loop quote utf8 out p =
     (if p \<noteq> [] \<and> 64 - length out > 6 \<and> \<not> json_special quote (hd p) then
        if utf8 then
          Option.bind (njs_utf8_copy p) (\<lambda>(bs, p).
            Option.bind (json_put out bs) (\<lambda>out. json_copy_loop quote utf8 out p))
        else
          Option.bind (json_put out [hd p]) (\<lambda>out. json_copy_loop quote utf8 out (tl p))
      else Some (out, p))"

partial_function (option) json_string_loop ::
  "u8 \<Rightarrow> bool \<Rightarrow> njs_chb_node list \<Rightarrow> bytes \<Rightarrow> bytes \<Rightarrow> (njs_chb_node list \<times> bytes) option" where
  [code]: "json_string_loop quote utf8 nodes out p =
     (if p = [] then Some (nodes, out)
      else
        Option.bind
          (if json_special quote (hd p) then
             Option.bind (json_put out (json_escaped (hd p))) (\<lambda>out. Some (out, tl p))
           else Some (out, p)) (\<lambda>(out, p).
        Option.bind (json_copy_loop quote utf8 out p) (\<lambda>(out, p).
          if 64 - length out \<le> 6 then
            Option.bind (njs_json_buf_written nodes out) (\<lambda>nodes.
            Option.bind (njs_json_buf_reserve nodes 64) (\<lambda>nodes.
              json_string_loop quote utf8 nodes [] p))
          else json_string_loop quote utf8 nodes out p)))"

definition njs_json_append_string :: "njs_chb_node list \<Rightarrow> njs_string \<Rightarrow> u8 \<Rightarrow> njs_chb_node list option" where
  "njs_json_append_string nodes s quote =
     Option.bind (njs_json_buf_reserve nodes 64) (\<lambda>nodes.
     Option.bind (json_put [] [quote]) (\<lambda>out.
     Option.bind (json_string_loop quote (str_length s \<noteq> 0) nodes out (str_start s)) (\<lambda>(nodes, out).
     Option.bind (njs_json_buf_written nodes out) (\<lambda>nodes.
       njs_json_buf_append nodes [quote]))))"

section \<open>Values\<close>

text \<open>
  The digits of a finite number are those of \<^const>\<open>env_number_to_string\<close>, which is \<open>njs_dtoa\<close>
  for it. Objects that wrap a primitive value are written as the value.
\<close>

definition njs_json_append_number :: "env \<Rightarrow> njs_chb_node list \<Rightarrow> number \<Rightarrow> njs_chb_node list option" where
  "njs_json_append_number env nodes num =
     (case num of
        Finite q \<Rightarrow>
          Option.bind (njs_json_buf_reserve nodes 64) (\<lambda>nodes.
          Option.bind (json_put [] (str_start (env_number_to_string env num))) (\<lambda>out.
            njs_json_buf_written nodes out))
      | _ \<Rightarrow> njs_json_buf_append nodes (ascii ''null''))"

definition njs_json_append_value :: "env \<Rightarrow> heap \<Rightarrow> njs_chb_node list \<Rightarrow> njs_value \<Rightarrow> njs_chb_node list option" where
  "njs_json_append_value env h nodes v =
     (let v = (case v of
                 Object t a \<Rightarrow>
                   if t \<in> {NJS_OBJECT_STRING, NJS_OBJECT_NUMBER, NJS_OBJECT_BOOLEAN} then obj_value (h ! a) else v
               | _ \<Rightarrow> v)
      in case v of
           String s \<Rightarrow> njs_json_append_string nodes s 0x22
         | Number_value n \<Rightarrow> njs_json_append_number env nodes n
         | Boolean b \<Rightarrow>
             if njs_is_true v then njs_json_buf_append nodes (ascii ''true'')
             else njs_json_buf_append nodes (ascii ''false'')
         | _ \<Rightarrow> njs_json_buf_append nodes (ascii ''null''))"

section \<open>The buffers hold what was written\<close>

abbreviation chain_text :: "njs_chb_node list \<Rightarrow> bytes" where
  "chain_text nodes \<equiv> concat (map node_data nodes)"

lemma pullup_chain: "njs_json_buf_pullup nodes = chain_text nodes"
proof -
  have "foldl (\<lambda>str n. str @ node_data n) t nodes = t @ chain_text nodes" for t
    by (induction nodes arbitrary: t) auto
  from this [of "[]"] show ?thesis by (cases nodes rule: remdups_adj.cases) (simp_all add: njs_json_buf_pullup_def)
qed

definition ready :: "nat \<Rightarrow> njs_chb_node list \<Rightarrow> bool" where
  "ready sz nodes \<longleftrightarrow> nodes \<noteq> [] \<and> sz \<le> node_room (last nodes)"

lemma reserve_ready:
  assumes "sz \<noteq> 0"
  obtains nodes' where "njs_json_buf_reserve nodes sz = Some nodes'" "ready sz nodes'" "chain_text nodes' = chain_text nodes"
proof (cases "nodes \<noteq> [] \<and> node_room (last nodes) \<ge> sz")
  case True
  then show thesis using assms that [of nodes] by (auto simp: njs_json_buf_reserve_def ready_def)
next
  case False
  then show thesis
    using assms
      that [of "nodes @ [\<lparr>node_size = (if sz < NJS_JSON_BUF_MIN_SIZE then NJS_JSON_BUF_MIN_SIZE else sz), node_data = []\<rparr>]"]
    by (auto simp: njs_json_buf_reserve_def ready_def node_room_def Let_def)
qed

lemma written_ready:
  assumes "ready sz nodes" "length bs \<le> sz"
  obtains nodes' where "njs_json_buf_written nodes bs = Some nodes'" "chain_text nodes' = chain_text nodes @ bs"
proof -
  obtain ns n where "nodes = ns @ [n]" using assms(1) by (cases nodes rule: rev_cases) (auto simp: ready_def)
  with assms show thesis
    by (intro that [of "ns @ [n\<lparr>node_data := node_data n @ bs\<rparr>]"]) (auto simp: njs_json_buf_written_def ready_def)
qed

lemma append_chain:
  obtains nodes' where "njs_json_buf_append nodes msg = Some nodes'" "chain_text nodes' = chain_text nodes @ msg"
proof (cases "msg = []")
  case False
  obtain nodes1 where 1: "njs_json_buf_reserve nodes (length msg) = Some nodes1" "ready (length msg) nodes1"
    "chain_text nodes1 = chain_text nodes" using reserve_ready [of "length msg" nodes] False by auto
  obtain nodes2 where "njs_json_buf_written nodes1 msg = Some nodes2" "chain_text nodes2 = chain_text nodes1 @ msg"
    using written_ready [OF 1(2), of msg] by auto
  with 1 False show thesis by (intro that [of nodes2]) (simp_all add: njs_json_buf_append_def)
qed (simp add: that njs_json_buf_append_def)

section \<open>A string is written as its characters, escaped\<close>

definition json_quoted :: "u8 \<Rightarrow> bytes \<Rightarrow> bytes" where
  "json_quoted quote bs = concat (map (\<lambda>c. if json_special quote c then json_escaped c else [c]) bs)"

lemma json_quoted_simps [simp]:
  "json_quoted quote [] = []"
  "json_quoted quote (bs @ cs) = json_quoted quote bs @ json_quoted quote cs"
  "json_quoted quote (c # cs) = (if json_special quote c then json_escaped c else [c]) @ json_quoted quote cs"
  by (simp_all add: json_quoted_def)

lemma quoted_plain: "list_all (\<lambda>c. \<not> json_special quote c) bs \<Longrightarrow> json_quoted quote bs = bs"
  by (induction bs) auto

lemma escaped_length: "length (json_escaped c) \<le> 6"
  by (simp add: json_escaped_def)

lemma special_ascii: "json_special quote c \<Longrightarrow> unat c < 128"
  by (auto simp: json_special_def word_less_nat_alt)

lemma cont_not_special: "is_cont c \<Longrightarrow> \<not> json_special quote c"
  using special_ascii [of quote c] by (auto simp: is_cont_def)

text \<open>What the copying loop can read: any bytes of a byte string, valid UTF-8 otherwise.\<close>

definition copyable :: "bool \<Rightarrow> bytes \<Rightarrow> bool" where
  "copyable utf8 p \<longleftrightarrow> (utf8 \<longrightarrow> (\<exists>us. list_all utf8_scalar us \<and> p = utf8_text us))"

lemma copyable_first:
  assumes "copyable utf8 p" "p \<noteq> []"
  obtains bs p' where "(if utf8 then njs_utf8_copy p else Some ([hd p], tl p)) = Some (hd p # bs, p')"
    "p = hd p # bs @ p'" "list_all is_cont bs" "length bs \<le> 3" "copyable utf8 p'" "unat (hd p) < 128 \<Longrightarrow> bs = []"
proof (cases utf8)
  case True
  with assms obtain u us where us: "utf8_scalar u" "list_all utf8_scalar us" "p = utf8_text (u # us)"
  proof -
    obtain vs where vs: "list_all utf8_scalar vs" "p = utf8_text vs" using True assms(1) by (auto simp: copyable_def)
    with assms(2) show thesis by (cases vs) (auto intro: that)
  qed
  obtain b e where e: "njs_utf8_encode u = Some (b # e)" using us(1) by (rule scalar_encode)
  then obtain shape: "list_all is_cont e" "e = [] \<longleftrightarrow> unat b < 128" by (rule encode_shape) auto
  have "char_boundary (utf8_text us)" by (rule text_boundary [OF us(2)])
  then have "njs_utf8_copy p = Some (b # e, utf8_text us)"
    using us(3) e shape copy_cont_boundary [of e "utf8_text us"] by (cases "e = []") auto
  moreover have "length (b # e) \<le> 4" using encode_length [OF e] by (simp add: njs_utf8_size_def split: if_splits)
  ultimately show thesis using True us e shape by (intro that [of e "utf8_text us"]) (auto simp: copyable_def)
qed (use assms in \<open>auto intro!: that [of "[]" "tl p"] simp: copyable_def\<close>)

lemma copy_loop:
  assumes "copyable utf8 p" "length out \<le> 63"
  shows "\<exists>bs p'. json_copy_loop quote utf8 out p = Some (out @ bs, p') \<and> p = bs @ p' \<and>
    list_all (\<lambda>c. \<not> json_special quote c) bs \<and> length (out @ bs) \<le> 63 \<and> copyable utf8 p' \<and>
    (p \<noteq> [] \<and> length out \<le> 57 \<and> \<not> json_special quote (hd p) \<longrightarrow> bs \<noteq> [])"
  using assms
proof (induction "length p" arbitrary: p out rule: less_induct)
  case less
  show ?case
  proof (cases "p \<noteq> [] \<and> length out \<le> 57 \<and> \<not> json_special quote (hd p)")
    case True
    obtain cs q where q: "(if utf8 then njs_utf8_copy p else Some ([hd p], tl p)) = Some (hd p # cs, q)"
      "p = hd p # cs @ q" "list_all is_cont cs" "length cs \<le> 3" "copyable utf8 q"
      using copyable_first [OF less.prems(1)] True by metis
    let ?bs = "hd p # cs"
    have short: "length q < length p" by (subst q(2)) simp
    have "json_copy_loop quote utf8 out p = json_copy_loop quote utf8 (out @ ?bs) q"
      using True q(1,4) by (subst json_copy_loop.simps) (auto simp: json_put_def split: if_splits)
    moreover obtain bs p' where "json_copy_loop quote utf8 (out @ ?bs) q = Some ((out @ ?bs) @ bs, p')" "q = bs @ p'"
      "list_all (\<lambda>c. \<not> json_special quote c) bs" "length ((out @ ?bs) @ bs) \<le> 63" "copyable utf8 p'"
      using less.hyps [OF short q(5), of "out @ ?bs"] True q(4) by auto
    moreover have "list_all (\<lambda>c. \<not> json_special quote c) ?bs"
      using True q(3) by (auto simp: list_all_iff cont_not_special)
    ultimately show ?thesis using q(2) by (intro exI [of _ "?bs @ bs"] exI [of _ p']) simp
  next
    case False
    then have "json_copy_loop quote utf8 out p = Some (out, p)"
      by (subst json_copy_loop.simps) auto
    with False less.prems show ?thesis by (intro exI [of _ "[]"] exI [of _ p]) auto
  qed
qed

lemma special_tail:
  assumes "copyable utf8 p" "p \<noteq> []" "json_special quote (hd p)"
  shows "copyable utf8 (tl p)"
proof -
  obtain bs p' where "p = hd p # bs @ p'" "copyable utf8 p'" "bs = []"
    using copyable_first [OF assms(1,2)] special_ascii [OF assms(3)] by metis
  then show ?thesis by (metis append_Nil list.sel(3))
qed

text \<open>One turn of the outer loop: the escaped character, if it is one, and those copied behind it.\<close>

lemma string_turn:
  assumes "copyable utf8 p" "p \<noteq> []" "length out \<le> 57"
  obtains out' p' where
    "Option.bind (if json_special quote (hd p) then
         Option.bind (json_put out (json_escaped (hd p))) (\<lambda>out. Some (out, tl p)) else Some (out, p))
       (\<lambda>(out, p). json_copy_loop quote utf8 out p) = Some (out', p')"
    "length out' \<le> 63" "copyable utf8 p'" "length p' < length p" "out' @ json_quoted quote p' = out @ json_quoted quote p"
proof (cases "json_special quote (hd p)")
  case True
  let ?out = "out @ json_escaped (hd p)"
  have "length ?out \<le> 63" using escaped_length [of "hd p"] assms(3) by simp
  with copy_loop [OF special_tail [OF assms(1,2) True] this, of quote]
  obtain bs p' where "json_copy_loop quote utf8 ?out (tl p) = Some (?out @ bs, p')" "tl p = bs @ p'"
    "list_all (\<lambda>c. \<not> json_special quote c) bs" "length (?out @ bs) \<le> 63" "copyable utf8 p'" by blast
  moreover from this(2) assms(2) have "p = hd p # bs @ p'" by (cases p) auto
  ultimately show thesis
    using True by (intro that [of "?out @ bs" p'])
      (auto simp: json_put_def quoted_plain dest: arg_cong [of _ _ length] arg_cong [of _ _ "json_quoted quote"])
next
  case False
  with copy_loop [OF assms(1), of out quote] assms(2,3)
  obtain bs p' where "json_copy_loop quote utf8 out p = Some (out @ bs, p')" "p = bs @ p'" "bs \<noteq> []"
    "list_all (\<lambda>c. \<not> json_special quote c) bs" "length (out @ bs) \<le> 63" "copyable utf8 p'" by auto
  then show thesis using False by (intro that [of "out @ bs" p']) (auto simp: quoted_plain)
qed

lemma string_loop:
  assumes "copyable utf8 p" "length out \<le> 57" "ready 64 nodes"
  shows "\<exists>nodes' out'. json_string_loop quote utf8 nodes out p = Some (nodes', out') \<and>
    chain_text nodes' @ out' = chain_text nodes @ out @ json_quoted quote p \<and> length out' \<le> 57 \<and> ready 64 nodes'"
  using assms
proof (induction "length p" arbitrary: p out nodes rule: less_induct)
  case less
  show ?case
  proof (cases "p = []")
    case True
    with less.prems show ?thesis by (subst json_string_loop.simps) simp
  next
    case False
    obtain out' p' where turn:
      "Option.bind (if json_special quote (hd p) then
         Option.bind (json_put out (json_escaped (hd p))) (\<lambda>out. Some (out, tl p)) else Some (out, p))
       (\<lambda>(out, p). json_copy_loop quote utf8 out p) = Some (out', p')"
      "length out' \<le> 63" "copyable utf8 p'" "length p' < length p" "out' @ json_quoted quote p' = out @ json_quoted quote p"
      using string_turn [OF less.prems(1) False less.prems(2), of quote] by blast
    have step: "json_string_loop quote utf8 nodes out p =
        (if 64 - length out' \<le> 6 then
           Option.bind (njs_json_buf_written nodes out') (\<lambda>nodes.
           Option.bind (njs_json_buf_reserve nodes 64) (\<lambda>nodes. json_string_loop quote utf8 nodes [] p'))
         else json_string_loop quote utf8 nodes out' p')"
      using turn(1) False by (subst json_string_loop.simps) (auto simp: bind_eq_Some_conv split: if_splits)
    show ?thesis
    proof (cases "64 - length out' \<le> 6")
      case True
      obtain nodes1 where 1: "njs_json_buf_written nodes out' = Some nodes1" "chain_text nodes1 = chain_text nodes @ out'"
        using written_ready [OF less.prems(3), of out'] turn(2) by auto
      obtain nodes2 where 2: "njs_json_buf_reserve nodes1 64 = Some nodes2" "ready 64 nodes2" "chain_text nodes2 = chain_text nodes1"
        using reserve_ready [of 64 nodes1] by auto
      have "json_string_loop quote utf8 nodes out p = json_string_loop quote utf8 nodes2 [] p'"
        using step True 1(1) 2(1) by simp
      then show ?thesis
        using less.hyps [OF turn(4,3), of "[]" nodes2] 1(2) 2(2,3) turn(5) by auto
    next
      case False
      then show ?thesis
        using step less.hyps [OF turn(4,3), of out' nodes] less.prems(3) turn(5) by auto
    qed
  qed
qed

lemma append_string:
  assumes "str_length s = 0 \<or> njs_utf8_is_valid (str_start s)"
  obtains nodes' where "njs_json_append_string nodes s quote = Some nodes'"
    "chain_text nodes' = chain_text nodes @ quote # json_quoted quote (str_start s) @ [quote]"
proof -
  have copyable: "copyable (str_length s \<noteq> 0) (str_start s)"
    using assms valid_is_text by (auto simp: copyable_def)
  obtain nodes1 where 1: "njs_json_buf_reserve nodes 64 = Some nodes1" "ready 64 nodes1" "chain_text nodes1 = chain_text nodes"
    using reserve_ready [of 64 nodes] by auto
  obtain nodes2 out where 2: "json_string_loop quote (str_length s \<noteq> 0) nodes1 [quote] (str_start s) = Some (nodes2, out)"
    "chain_text nodes2 @ out = chain_text nodes1 @ [quote] @ json_quoted quote (str_start s)" "length out \<le> 57" "ready 64 nodes2"
    using string_loop [OF copyable _ 1(2), of "[quote]" quote] by auto
  obtain nodes3 where 3: "njs_json_buf_written nodes2 out = Some nodes3" "chain_text nodes3 = chain_text nodes2 @ out"
    using written_ready [OF 2(4), of out] 2(3) by auto
  obtain nodes4 where "njs_json_buf_append nodes3 [quote] = Some nodes4" "chain_text nodes4 = chain_text nodes3 @ [quote]"
    by (rule append_chain)
  then show thesis
    using 1 2 3 by (intro that [of nodes4]) (simp_all add: njs_json_append_string_def json_put_def)
qed

text \<open>
  C10. A string is written between quote marks, each of its characters as it is or escaped, behind
  what the buffers hold: for every byte string and all valid UTF-8, and for strings of any length,
  no byte is written behind the memory of a node and none is lost between two nodes.
\<close>

theorem json_append_string_correct:
  assumes "str_length s = 0 \<or> njs_utf8_is_valid (str_start s)"
  shows "\<exists>nodes'. njs_json_append_string nodes s quote = Some nodes' \<and>
    njs_json_buf_pullup nodes' = njs_json_buf_pullup nodes @ quote # json_quoted quote (str_start s) @ [quote]"
  using append_string [OF assms, of nodes quote] unfolding pullup_chain by metis

lemma json_append_string_correct_witness:
  "\<exists>nodes'. njs_json_append_string [] (text_string [CHR ''a'', CHR 0x0A]) 0x22 = Some nodes' \<and>
    njs_json_buf_pullup nodes' = [0x22, 0x61, 0x5C, 0x6E, 0x22]"
proof -
  have "njs_utf8_is_valid [0x61, 0x0A]"
    using is_valid_text [of "[0x61, 0x0A]"] by (simp add: njs_utf8_encode_def)
  then show ?thesis
    using json_append_string_correct [of "text_string [CHR ''a'', CHR 0x0A]" "[]" "0x22"]
    by (simp add: text_string_def json_special_def json_escaped_def pullup_chain)
qed

section \<open>What is written is read back\<close>

text \<open>The characters of the grammar that are written for a byte.\<close>

definition written_char :: "u8 \<Rightarrow> json_char" where
  "written_char c =
     (if json_special 0x22 c then
        (case tl (json_escaped c) of [e] \<Rightarrow> Escaped e | _ # ds \<Rightarrow> Unit ds)
      else Plain c)"

lemma special_bytes:
  assumes "json_special 0x22 c"
  shows "c \<in> set (map of_nat ([0..<32] @ [34, 92]))"
proof -
  have "unat c \<in> set ([0..<32] @ [34, 92])"
    using assms by (auto simp: json_special_def word_less_nat_alt)
  then have "of_nat (unat c) \<in> set (map of_nat ([0..<32] @ [34, 92]) :: u8 list)"
    unfolding set_map by (rule imageI)
  then show ?thesis by simp
qed

lemma special_written:
  assumes "json_special 0x22 c"
  shows "char_text (written_char c) = json_escaped c" "char_ok (written_char c)"
    "(\<exists>e. written_char c = Escaped e \<and> json_unescape e = Some c) \<or>
     (\<exists>ds. written_char c = Unit ds \<and> njs_json_unicode ds = ucast c \<and> unat c < 32)"
proof -
  have "char_text (written_char c) = json_escaped c \<and> char_ok (written_char c) \<and>
    ((\<exists>e. written_char c = Escaped e \<and> json_unescape e = Some c) \<or>
     (\<exists>ds. written_char c = Unit ds \<and> njs_json_unicode ds = ucast c \<and> unat c < 32))"
    using special_bytes [OF assms]
    by (auto simp: upt_rec written_char_def json_special_def json_escaped_def json_escapes_def json_hex_def
        hex2char_def json_unescape_def njs_json_unicode_def json_hex_value_def)
  then show "char_text (written_char c) = json_escaped c" "char_ok (written_char c)"
    "(\<exists>e. written_char c = Escaped e \<and> json_unescape e = Some c) \<or>
     (\<exists>ds. written_char c = Unit ds \<and> njs_json_unicode ds = ucast c \<and> unat c < 32)" by blast+
qed

lemma unit_before:
  assumes "unat (njs_json_unicode ds) < 32"
  shows "chars_bytes (Unit ds # cs) = ucast (njs_json_unicode ds) # chars_bytes cs"
proof -
  have "\<not> high_surrogate (njs_json_unicode ds)" "\<not> low_surrogate (njs_json_unicode ds)"
    using assms by (auto simp: high_surrogate_def low_surrogate_def word_le_nat_alt)
  moreover have "njs_utf8_encode (njs_json_unicode ds) = Some [ucast (njs_json_unicode ds)]"
    using assms by (simp add: encode_Some_iff utf8_nats_def unat_ucast_u8)
  ultimately show ?thesis by (cases cs; cases "hd cs") (auto simp: Let_def)
qed

lemma written_chars:
  "chars_text (map written_char bs) = json_quoted 0x22 bs" "list_all char_ok (map written_char bs)"
  "chars_bytes (map written_char bs) = bs"
proof (induction bs)
  case (Cons c bs)
  have plain: "written_char c = Plain c" "char_ok (Plain c)" if "\<not> json_special 0x22 c"
    using that by (auto simp: written_char_def json_special_def not_less)
  {
    case 1
    then show ?case using Cons(1) special_written(1) [of c] plain by auto
  next
    case 2
    then show ?case using Cons(2) special_written(2) [of c] plain by (cases "json_special 0x22 c") auto
  next
    case 3
    show ?case
    proof (cases "json_special 0x22 c")
      case True
      moreover have "ucast (ucast c :: u32) = c" by (simp add: u8_eq_iff unat_ucast_u8 unat_ucast_up)
      ultimately show ?thesis
        using special_written(3) [of c] Cons(3) unit_before [where cs = "map written_char bs"]
        by (auto simp: unat_ucast_up)
    next
      case False
      then show ?thesis using plain Cons(3) by simp
    qed
  }
qed simp_all

lemma quoted_length: "length (json_quoted quote bs) \<le> 6 * length bs"
proof (induction bs)
  case (Cons c bs)
  then show ?case using escaped_length [of c] by auto
qed simp

text \<open>
  The text of a primitive value is one of the grammar and stands for the value, if the digits of a
  finite number are a number of the grammar; what is no JSON value is written as null.
\<close>

fun written_json :: "njs_value \<Rightarrow> json" where
  "written_json (String s) = J_str (str_start s)"
| "written_json (Number_value (Finite q)) = J_num (Finite q)"
| "written_json (Boolean b) = J_bool b"
| "written_json v = J_null"

fun writable_value :: "env \<Rightarrow> njs_value \<Rightarrow> bool" where
  "writable_value env (String s) \<longleftrightarrow> str_length s = 0 \<or> njs_utf8_is_valid (str_start s)"
| "writable_value env (Number_value (Finite q)) \<longleftrightarrow>
     (let t = str_start (env_number_to_string env (Finite q)) in length t \<le> 64 \<and> json_number env (Finite q) t)"
| "writable_value env (Object t a) \<longleftrightarrow> False"
| "writable_value env v \<longleftrightarrow> True"

lemma append_value:
  assumes "writable_value env v"
  shows "\<exists>nodes' t. njs_json_append_value env h nodes v = Some nodes' \<and> chain_text nodes' = chain_text nodes @ t \<and>
    json_value env n (written_json v) t"
proof -
  have literal: ?thesis if "njs_json_append_value env h nodes v = njs_json_buf_append nodes t"
    "json_value env n (written_json v) t" for t
    using append_chain [of nodes t] that by metis
  show ?thesis
  proof (cases "(env, v)" rule: writable_value.cases)
    case (1 _ s)
    obtain nodes' where "njs_json_append_string nodes s 0x22 = Some nodes'"
      "chain_text nodes' = chain_text nodes @ 0x22 # json_quoted 0x22 (str_start s) @ [0x22]"
      using append_string [of s nodes "0x22"] assms 1 by auto
    moreover have "json_value env n (J_str (str_start s)) (0x22 # json_quoted 0x22 (str_start s) @ [0x22])"
      using json_value.str [OF written_chars(2)] unfolding written_chars .
    ultimately show ?thesis using 1 by (auto simp add: njs_json_append_value_def)
  next
    case (2 _ q)
    let ?t = "str_start (env_number_to_string env (Finite q))"
    obtain nodes1 where 1: "njs_json_buf_reserve nodes 64 = Some nodes1" "ready 64 nodes1" "chain_text nodes1 = chain_text nodes"
      using reserve_ready [of 64 nodes] by auto
    obtain nodes2 where "njs_json_buf_written nodes1 ?t = Some nodes2" "chain_text nodes2 = chain_text nodes1 @ ?t"
      using written_ready [OF 1(2), of ?t] assms 2 by (auto simp: Let_def)
    then show ?thesis
      using 1 2 assms
      by (auto simp: njs_json_append_value_def njs_json_append_number_def json_put_def Let_def intro: json_value.num)
  qed (use assms literal json_value.intros(1-3) in \<open>auto simp: njs_json_append_value_def njs_json_append_number_def\<close>)
qed

text \<open>
  C11. The string that \<open>JSON.stringify\<close> writes is read by \<open>JSON.parse\<close> as the same bytes, with the
  length in characters they have, and reading stops behind the ending quote mark.
\<close>

theorem json_string_roundtrip:
  assumes "str_length s = 0 \<or> njs_utf8_is_valid (str_start s)" "6 * length (str_start s) \<le> NJS_STRING_MAX_LENGTH"
  shows "\<exists>nodes written s'. njs_json_append_string [] s 0x22 = Some nodes \<and> njs_json_buf_pullup nodes = written \<and>
    njs_json_parse_string text (written @ p) = Inr (s', p) \<and> str_start s' = str_start s \<and> s' = json_string (str_start s)"
proof -
  let ?cs = "map written_char (str_start s)"
  obtain nodes where nodes: "njs_json_append_string [] s 0x22 = Some nodes"
    "chain_text nodes = 0x22 # json_quoted 0x22 (str_start s) @ [0x22]"
    using append_string [OF assms(1), of "[]" "0x22"] by auto
  have "length (chars_text ?cs) \<le> NJS_STRING_MAX_LENGTH" "length (str_start s) \<le> NJS_STRING_MAX_LENGTH"
    unfolding written_chars(1) using quoted_length [of "0x22" "str_start s"] assms(2) by linarith+
  then have "njs_json_parse_string text (chain_text nodes @ p) = Inr (json_string (str_start s), p)"
    "str_start (json_string (str_start s)) = str_start s"
    using parse_string_chars [of ?cs "text" p] nodes(2) json_string_new(2) unfolding written_chars
    by (simp_all add: written_chars)
  with nodes(1) show ?thesis by (auto simp: pullup_chain)
qed

lemma json_string_roundtrip_witness:
  "\<exists>nodes s'. njs_json_append_string [] (text_string [CHR ''a'', CHR 0x01]) 0x22 = Some nodes \<and>
    njs_json_parse_string [] (njs_json_buf_pullup nodes @ [0x2C]) = Inr (s', [0x2C]) \<and> str_start s' = [0x61, 0x01]"
proof -
  have "njs_utf8_is_valid [0x61, 0x01]"
    using is_valid_text [of "[0x61, 0x01]"] by (simp add: njs_utf8_encode_def)
  then show ?thesis
    using json_string_roundtrip [of "text_string [CHR ''a'', CHR 0x01]" "[]" "[0x2C]"]
    by (auto simp: text_string_def NJS_STRING_MAX_LENGTH_def)
qed

end
