(* ===== verification/Spec2Isabelle.thy ===== *)
theory Spec2Isabelle
  imports Njs_Hash Njs_Uri Njs_Crypto Njs_Random Njs_Date_Object Njs_Object_Behaviour Njs_Json_Read Njs_Json_Print
begin

text \<open>
  \<^bold>\<open>njs: the core of a JavaScript interpreter.\<close> njs (\<open>src/src\<close>) runs JavaScript inside nginx. A
  script is compiled by a lexer, a parser and a generator to byte code; the interpreter of the byte
  code works on values, strings and objects, whose properties are kept in hash tables, and calls
  native functions: the methods of the built-in objects (\<open>Object\<close>, \<open>String\<close>, \<open>Date\<close>, \<open>JSON\<close>, ...)
  and of the \<open>crypto\<close> module. This development models what the byte code works on: the values with
  all their encodings, the tables, the objects and the operations on properties, and several of the
  built-in libraries. It does not model the compiler and the byte code themselves.

  \<^bold>\<open>Conventions.\<close> \<open>Njs_Prelude\<close> holds what all theories share. Integers have the width they have in
  the code (\<open>u8\<close>, \<open>u32\<close>, \<open>u64\<close> words) wherever their wrap-around can matter, and are integers or
  naturals where a lemma or an argument shows that it can not. A pointer into a buffer that ends at
  \<open>end\<close> is the list of the bytes from it to the end. A function that can fail returns
  \<open>njs_error + result\<close>, with one constructor of \<open>njs_error\<close> for each type of exception and the text
  of the message where the code formats one. A read or a write outside of the memory the code has
  at this place, an unspecified value and a loop that does not end are \<open>None\<close>, or the error
  \<open>Bad_access\<close>; the properties show that the result is not one of these. \<open>double\<close>s are the type
  \<open>number\<close>: a rational, an infinity or NaN, with no rounding and no negative zero.

  \<^bold>\<open>Bytes and strings.\<close>
    \<^item> \<open>Njs_Utf8\<close> (\<open>njs_utf8.c\<close>, \<open>njs_utf8.h\<close>): \<open>njs_utf8_encode\<close>, the strict and the replacing
      decoders, \<open>njs_utf8_length\<close>, \<open>njs_utf8_is_valid\<close>, \<open>njs_utf8_casecmp\<close>, \<open>njs_utf8_next\<close>,
      \<open>njs_utf8_prev\<close> and \<open>njs_utf8_copy\<close>. The lemmas relate them to the encoding of a list of
      scalars, \<open>utf8_text\<close>: decoding is the inverse of encoding and accepts nothing else. The
      generated case tables of \<open>njs_unicode_*.h\<close> are a parameter, the record \<open>case_table\<close>.
    \<^item> \<open>Njs_String\<close> (\<open>njs_string.c\<close>, first part): allocation of a value with its map of the offsets
      of every 32nd character, validation, \<open>njs_string_offset\<close> and \<open>njs_string_index\<close>. \<open>holds_text\<close> is
      the invariant of a value; the searches through the map are shown exact and within memory.
    \<^item> \<open>Njs_Codec\<close>: hexadecimal and base64 in both alphabets. The locale \<open>base64_alphabet\<close> states what
      a pair of tables must satisfy, and is interpreted as \<open>b64\<close> and \<open>b64url\<close>.
    \<^item> \<open>Njs_Uri\<close>: \<open>encodeURI\<close>, \<open>encodeURIComponent\<close> and their inverses; locale \<open>uri_pair\<close>, interpreted as
      \<open>uri\<close> and \<open>uri_component\<close>.
    \<^item> \<open>Njs_Sprintf\<close> (\<open>njs_sprintf.c\<close>): the interpreter of formats; output never leaves its buffer.

  \<^bold>\<open>Hashes and randomness.\<close>
    \<^item> \<open>Njs_Hash\<close> (\<open>njs_djb_hash.c\<close>, \<open>njs_murmur_hash.c\<close>): the hashes of names.
    \<^item> \<open>Njs_Digest\<close>, \<open>Njs_Md5\<close>, \<open>Njs_Sha1\<close>, \<open>Njs_Sha2\<close>: the digests, step by step as in the code, and
      the algorithms of RFC 1321 and FIPS 180-4 written from the standards; feeding a message in any
      pieces gives the standard's hash of the whole. The locale \<open>hash_alg\<close> is the interface
      (\<open>init\<close>, \<open>update\<close>, \<open>final\<close>), interpreted as \<open>md5\<close>, \<open>sha1\<close> and \<open>sha2\<close>. The length of a message is
      taken modulo \<open>2^64\<close> bits on both sides, so that messages of any length are covered.
    \<^item> \<open>Njs_Crypto\<close> (\<open>njs_crypto.c\<close>): the objects \<open>Hash\<close> and \<open>Hmac\<close> with the checks of their arguments.
      \<open>crypto_alg\<close> extends \<open>hash_alg\<close> to an entry of the table of algorithms and is interpreted for all
      three; the lemmas for HMAC (RFC 2104) are proved once inside it.
    \<^item> \<open>Njs_Random\<close> (\<open>njs_random.c\<close>): the generator, with the seed and the process id as arguments.

  \<^bold>\<open>Dates.\<close> \<open>Njs_Date\<close> (calendar arithmetic and the setting of fields), \<open>Njs_Date_Text\<close> (the printers and
  parsers), \<open>Njs_Date_Object\<close> (construction and the methods by name), all of \<open>njs_date.c\<close>. The time zone
  is a function \<open>tz\<close>, the result of \<open>njs_tz_offset\<close>; the clock is an argument. The arithmetic is shown
  to agree with the Gregorian calendar and to stay within \<open>int64_t\<close>, and the texts to be read back.

  \<^bold>\<open>The level hash.\<close> \<open>Njs_Lvlhsh\<close> is \<open>njs_lvlhsh.c\<close>: search, insertion with the conversion of full
  buckets to levels, deletion, iteration. The answers of the memory pool are an argument, refusals and
  the garbage in new blocks included. \<open>Njs_Lvlhsh_Map\<close> has the well-formedness of a table and shows,
  in the locale \<open>lvlhsh_table\<close>, that the operations implement those of a finite map, also when an
  allocation fails; \<open>Njs_Lvlhsh_Each\<close> that the iteration returns every value once and ends. Searching and deleting
  recurse on the tree; insertion and iteration have termination proofs, no fuel is used.
  \<open>Njs_Object_Hash\<close> interprets the locale on the tables of properties (\<open>object_hash\<close>).

  \<^bold>\<open>Objects.\<close> A heap is the list of the objects, an address a position in it (\<open>Njs_Object\<close>). The table of
  an object is the finite map that its level hash implements. A computation \<open>run\<close> returns a value or an
  exception and the heap it leaves, or \<open>None\<close> if it does not end.
    \<^item> \<open>Njs_Object\<close> (\<open>njs_value.c\<close>, \<open>njs_object_prop.c\<close>): the query for a property along the prototypes
      with its special cases (elements of arrays, characters of wrapped strings, deleted properties
      kept as whiteouts, shared tables, private copies of shared functions), and on top of it reading
      (\<open>njs_value_property\<close>), assigning (\<open>njs_value_property_set\<close>) and deleting
      (\<open>njs_value_property_delete\<close>).
    \<^item> \<open>Njs_Object_Define\<close> (\<open>njs_object_prop.c\<close>): descriptors and \<open>njs_object_prop_define\<close>.
    \<^item> \<open>Njs_Object_Builtin\<close> (\<open>njs_object.c\<close>): the functions of \<open>Object\<close> and \<open>Object.prototype\<close> on single
      properties, levels of integrity and prototypes.
    \<^item> \<open>Njs_Object_Proto\<close>, \<open>Njs_Object_Steps\<close>, \<open>Njs_Object_Query\<close>, \<open>Njs_Object_Ops\<close>, \<open>Njs_Object_Calls\<close>,
      \<open>Njs_Object_Invariants\<close>: invariants over programs. The locale \<open>heap_steps\<close> states which small
      changes of the heap a relation between heaps allows, \<open>heap_calls\<close> extends it by functions
      and handlers of a program that keep to it; inside it every operation is shown to respect
      the relation. It is interpreted on two relations: \<open>roots\<close>, chains of prototypes that end
      keep ending, and \<open>constants\<close>, properties neither writable nor configurable keep value and
      attributes; \<open>native\<close> interprets \<open>heap_calls\<close>. The relation \<open>object_steps\<close> composes operations.
    \<^item> \<open>Njs_Object_Es\<close>: \<open>njs_object_prop_define\<close> is ValidateAndApplyPropertyDescriptor of ECMA-262 on
      objects that are no arrays and no wrapped strings.
    \<^item> \<open>Njs_Object_Behaviour\<close>: what single operations do, deviations from the standard included.

  The searches (\<open>find_in_chain\<close>, \<open>query_loop\<close>, \<open>among_prototypes\<close>) follow pointers and need not end in every
  heap, so they are partial functions to an option; that they return in every heap a program can
  reach is shown in \<open>Njs_Object_Invariants\<close>. The record \<open>env\<close> has what the code around these operations
  provides: the addresses of the prototypes, the shared tables of built-in functions and arrays,
  calls of functions and handlers, the contents of fresh memory, and the two conversions between
  numbers and texts, which rest on floating point arithmetic.

  \<^bold>\<open>JSON.\<close>
    \<^item> \<open>Njs_Json\<close> (\<open>njs_json.c\<close>, up to \<open>njs_json_skip_space\<close>): \<open>njs_json_parse\<close> and the readers of values. The
      parsing of strings has the two loops of the code, one that checks and counts and one that
      decodes into a buffer of exactly the counted size. \<open>njs_strtod_end\<close> is where \<open>njs_strtod\<close> stops.
      The loops over members and elements are partial functions, as they call the reader they are
      given; the readers recurse on the levels left, 32 (\<open>NJS_JSON_MAX_DEPTH\<close>) at the start.
    \<^item> \<open>Njs_Json_Text\<close>, \<open>Njs_Json_Grammar\<close>: the grammar as inductive relations between values and
      texts, and the objects in memory that represent a value. \<open>Njs_Json_Read\<close>: the parser is complete
      and sound for the grammar, so it returns for every text. Texts are limited to \<open>json_limit\<close>,
      \<open>2^27\<close> bytes, below which no array and no string reaches its largest size; \<open>strtod_local\<close> says
      that the value of a number does not depend on what follows its digits.
    \<^item> \<open>Njs_Json_Print\<close>: the chain of buffers and the writers of primitive values; the text of a string
      is within its buffers and is read back as the same string.

  \<^bold>\<open>Not modelled.\<close> The lexer, parser, scopes, generator and byte code interpreter (they produce and drive the
  operations above, and their correctness needs a semantics of JavaScript); functions, frames and
  closures, whose calls are parameters; conversions between \<open>double\<close>s and digits and the \<open>Math\<close> object
  (no theory of IEEE arithmetic is available); regular expressions (PCRE); most methods of strings and
  arrays, the enumeration of properties, the walk of \<open>JSON.stringify\<close> over objects and the walk of
  \<open>JSON.parse\<close> with a function, which is the argument \<open>revive\<close>; external values and the nginx modules,
  events, timers, files, the shell; memory pools and red-black trees, which lie below the level of
  values. Outside of the level hash, allocation is taken to succeed, and memory is not freed.
\<close>

end
